theory Spec2Isabelle
  imports Main "HOL-Library.Monad_Syntax" "HOL-Library.Signed_Division"
begin

section \<open>Working storage\<close>

text \<open>
  The division engine of \<^verbatim>\<open>src/src/div.c\<close> works on arrays of \<^verbatim>\<open>UARBT\<close> cells through
  pointers that are moved (\<^verbatim>\<open>v++\<close>, \<^verbatim>\<open>u+leb\<close>) and that alias (\<^verbatim>\<open>shmul(u, .., u, b)\<close>).
  The store maps a block (one allocation) to its cells; a pointer is a block and an offset
  into it. An access outside the cells of its block is undefined behaviour in C and is the
  value \<open>None\<close> here.

  Indices of type \<^verbatim>\<open>size_t\<close> that the code decrements below zero are integers: the
  wrap-around of the index and of the address computation \<^verbatim>\<open>u + i\<close> cancel.
\<close>

type_synonym store = "nat \<Rightarrow> nat list"

type_synonym ptr = "nat \<times> int"

definition idx :: "ptr \<Rightarrow> int \<Rightarrow> ptr" where
  "idx p i = (fst p, snd p + i)"

definition in_block :: "store \<Rightarrow> ptr \<Rightarrow> bool" where
  "in_block s p \<longleftrightarrow> 0 \<le> snd p \<and> snd p < int (length (s (fst p)))"

definition rd :: "store \<Rightarrow> ptr \<Rightarrow> nat option" where
  "rd s p = (if in_block s p then Some (s (fst p) ! nat (snd p)) else None)"

definition wr :: "store \<Rightarrow> ptr \<Rightarrow> nat \<Rightarrow> store option" where
  "wr s p x = (if in_block s p then Some (s(fst p := (s (fst p))[nat (snd p) := x])) else None)"

section \<open>Machine integers\<close>

text \<open>
  \<^verbatim>\<open>UARBT\<close> is declared in \<^verbatim>\<open>internal.h\<close>, which is not part of the sources at hand; it is an
  unsigned integer type. Its width and the width of \<^verbatim>\<open>int\<close> are parameters of the model: a cell
  holds one of the \<open>cell_count\<close> values 0, ..., \<open>cell_count - 1\<close>, and an \<^verbatim>\<open>int\<close> holds the
  values from \<open>- int_half\<close> to \<open>int_half - 1\<close> (256 and \<open>2 ^ 31\<close> for \<^verbatim>\<open>unsigned char\<close> cells and
  32-bit \<^verbatim>\<open>int\<close>). \<^verbatim>\<open>UARBT\<close> is taken to be narrower than \<^verbatim>\<open>int\<close>, so that the cells that
  enter an expression are promoted to \<^verbatim>\<open>int\<close> and the arithmetic of the code is \<^verbatim>\<open>int\<close>
  arithmetic.

  \<open>to_cell\<close> is the conversion of a value that is stored into a \<^verbatim>\<open>UARBT\<close> (a cell of an array,
  \<^verbatim>\<open>qg\<close>, \<^verbatim>\<open>norm\<close>): it is reduced modulo \<open>cell_count\<close>. \<open>to_int\<close> is the value an \<^verbatim>\<open>int\<close>
  expression has when its mathematical value is \<open>x\<close>: it wraps around in two's complement
  (an overflow of \<^verbatim>\<open>int\<close> is undefined behaviour in C; the theorems about the engine are stated
  for machines and bases on which none occurs, so they do not depend on this choice).
  Sums, differences and products may be wrapped once at the end, which gives the same
  value as wrapping after each operation; every operand of \<^verbatim>\<open>/\<close>, \<^verbatim>\<open>%\<close> and of a comparison,
  and every value assigned to a variable, is wrapped. \<^verbatim>\<open>/\<close> and \<^verbatim>\<open>%\<close> on \<^verbatim>\<open>int\<close> are the
  truncating \<open>sdiv\<close> and \<open>smod\<close>.
\<close>

record machine =
  cell_count :: nat
  int_half :: int

definition to_cell :: "machine \<Rightarrow> int \<Rightarrow> nat" where
  "to_cell mc x = nat (x mod int (cell_count mc))"

definition to_int :: "machine \<Rightarrow> int \<Rightarrow> int" where
  "to_int mc x = (x + int_half mc) mod (2 * int_half mc) - int_half mc"

section \<open>Digit-array primitives\<close>

text \<open>
  Modelled from the spec: \<^verbatim>\<open>_arb_memset\<close> and \<^verbatim>\<open>_arb_copy_core\<close> are called by \<^verbatim>\<open>shmul\<close> and
  \<^verbatim>\<open>arb_div_inter\<close> but defined elsewhere. The first fills \<open>n\<close> cells with a value
  (``the destination is zero-filled''), the second copies \<open>n\<close> cells from a source to a
  destination (``the source is copied unchanged''), cell by cell from the lowest index.
\<close>

fun arb_memset :: "store \<Rightarrow> ptr \<Rightarrow> nat \<Rightarrow> nat \<Rightarrow> store option" where
  "arb_memset s p x 0 = Some s"
| "arb_memset s p x (Suc n) = do { s' \<leftarrow> wr s p x; arb_memset s' (idx p 1) x n }"

fun arb_copy_core :: "store \<Rightarrow> ptr \<Rightarrow> ptr \<Rightarrow> nat \<Rightarrow> store option" where
  "arb_copy_core s dst src 0 = Some s"
| "arb_copy_core s dst src (Suc n) =
     do { x \<leftarrow> rd s src; s' \<leftarrow> wr s dst x; arb_copy_core s' (idx dst 1) (idx src 1) n }"

text \<open>
  \<^verbatim>\<open>shmul\<close>, lines 51 to 70. The loop runs \<^verbatim>\<open>i\<close> from \<^verbatim>\<open>size\<close> down to 1 and works on cell
  \<^verbatim>\<open>i-1\<close>; after it \<^verbatim>\<open>i\<close> is 0, so a carry that is left goes to \<^verbatim>\<open>result[-1]\<close>.
\<close>

fun shmul_loop :: "machine \<Rightarrow> store \<Rightarrow> ptr \<Rightarrow> nat \<Rightarrow> ptr \<Rightarrow> int \<Rightarrow> nat \<Rightarrow> int \<Rightarrow> (store \<times> int) option" where
  "shmul_loop mc s num digit result base 0 carry = Some (s, carry)"
| "shmul_loop mc s num digit result base (Suc i) carry =
     (if base = 0 then None
      else do {
        x \<leftarrow> rd s (idx num (int i));
        let val = to_int mc (int x * int digit + carry);
        s' \<leftarrow> wr s (idx result (int i)) (to_cell mc (val smod base));
        shmul_loop mc s' num digit result base i (val sdiv base)
      })"

definition shmul :: "machine \<Rightarrow> store \<Rightarrow> ptr \<Rightarrow> nat \<Rightarrow> nat \<Rightarrow> ptr \<Rightarrow> int \<Rightarrow> store option" where
  "shmul mc s num sz digit result base =
     (if digit = 0 then arb_memset s result 0 sz
      else if digit = 1 then arb_copy_core s result num sz
      else do {
        (s', carry) \<leftarrow> shmul_loop mc s num digit result base sz 0;
        if carry \<noteq> 0 then wr s' (idx result (- 1)) (to_cell mc carry) else Some s'
      })"

text \<open>
  \<^verbatim>\<open>_long_sub\<close> and \<^verbatim>\<open>_long_add\<close>, lines 72 to 102. The loop test \<^verbatim>\<open>k+1 > 0\<close> on the unsigned
  \<^verbatim>\<open>k\<close> fails only after \<^verbatim>\<open>k\<close> was decremented from 0, so the body runs for \<^verbatim>\<open>k\<close>, \<^verbatim>\<open>k-1\<close>, ..., 0.
\<close>

fun long_sub_loop :: "machine \<Rightarrow> store \<Rightarrow> ptr \<Rightarrow> int \<Rightarrow> ptr \<Rightarrow> nat \<Rightarrow> int \<Rightarrow> int \<Rightarrow> (store \<times> int) option" where
  "long_sub_loop mc s u i v k b borrow =
     do {
       x \<leftarrow> rd s (idx u i);
       y \<leftarrow> rd s (idx v (int k));
       let val = to_int mc (int x - int y - borrow);
       let (val, borrow) = (if val < 0 then (to_int mc (val + b), 1) else (val, 0));
       s' \<leftarrow> wr s (idx u i) (to_cell mc val);
       (case k of 0 \<Rightarrow> Some (s', borrow)
        | Suc k' \<Rightarrow> long_sub_loop mc s' u (i - 1) v k' b borrow)
     }"

definition long_sub :: "machine \<Rightarrow> store \<Rightarrow> ptr \<Rightarrow> int \<Rightarrow> ptr \<Rightarrow> nat \<Rightarrow> int \<Rightarrow> (store \<times> int) option" where
  "long_sub mc s u i v k b = long_sub_loop mc s u i v k b 0"

fun long_add_loop :: "machine \<Rightarrow> store \<Rightarrow> ptr \<Rightarrow> int \<Rightarrow> ptr \<Rightarrow> nat \<Rightarrow> int \<Rightarrow> int \<Rightarrow> (store \<times> int) option" where
  "long_add_loop mc s u i v k b carry =
     do {
       x \<leftarrow> rd s (idx u i);
       y \<leftarrow> rd s (idx v (int k));
       let val = to_int mc (int x + int y + carry);
       let (val, carry) = (if val \<ge> b then (to_int mc (val - b), 1) else (val, 0));
       s' \<leftarrow> wr s (idx u i) (to_cell mc val);
       (case k of 0 \<Rightarrow> Some (s', carry)
        | Suc k' \<Rightarrow> long_add_loop mc s' u (i - 1) v k' b carry)
     }"

definition long_add :: "machine \<Rightarrow> store \<Rightarrow> ptr \<Rightarrow> int \<Rightarrow> ptr \<Rightarrow> nat \<Rightarrow> int \<Rightarrow> (store \<times> int) option" where
  "long_add mc s u i v k b = long_add_loop mc s u i v k b 0"

section \<open>Numbers\<close>

text \<open>
  Modelled from the spec: the structure \<^verbatim>\<open>fxdpnt\<close> and the accessors \<^verbatim>\<open>rl\<close> and \<^verbatim>\<open>rr\<close> are
  declared in headers that are not part of the sources at hand. The code reads and writes
  the fields \<^verbatim>\<open>number\<close>, \<^verbatim>\<open>lp\<close> and \<^verbatim>\<open>len\<close>: the digits, most significant first, the count of
  integer-part digits and the count of all digits. \<^verbatim>\<open>rl\<close> is the integer-digit count and
  \<^verbatim>\<open>rr\<close> the fractional-digit count. The sign is set by the caller and not touched by the
  division engine; it is left out. The digit array of an operand is a list whose length is
  the allocated size.
\<close>

record fxdpnt =
  number :: "nat list"
  lp :: nat
  len :: nat

definition rl :: "fxdpnt \<Rightarrow> nat" where
  "rl a = lp a"

definition rr :: "fxdpnt \<Rightarrow> nat" where
  "rr a = len a - lp a"

text \<open>
  Modelled from the spec: \<^verbatim>\<open>iszero\<close> is defined elsewhere. It answers 0 when the value of
  the number is exactly zero, that is when each of its \<^verbatim>\<open>len\<close> digits is 0.
\<close>

definition iszero :: "fxdpnt \<Rightarrow> int" where
  "iszero a = (if list_all (\<lambda>d. d = 0) (take (len a) (number a)) then 0 else 1)"

text \<open>
  Modelled from the spec: \<^verbatim>\<open>remove_leading_zeros\<close> is defined elsewhere. Leading zero digits
  beyond the first are removed and the fractional digits are kept: while the number has
  more than one integer digit and the leading one is 0, that digit is dropped.
\<close>

function remove_leading_zeros :: "fxdpnt \<Rightarrow> fxdpnt" where
  "remove_leading_zeros c =
     (case number c of
        [] \<Rightarrow> c
      | d # ds \<Rightarrow>
          if 1 < lp c \<and> d = 0
          then remove_leading_zeros (c\<lparr>number := ds, lp := lp c - 1, len := len c - 1\<rparr>)
          else c)"
  by pat_completeness auto
termination
  by (relation "measure lp") auto

text \<open>
  Modelled from the spec: \<^verbatim>\<open>arb_mul_core\<close> is the library's multi-digit multiply, defined
  elsewhere; the engine calls it with a one-digit second operand. It writes the
  \<open>alen + 1\<close> digits of the product of the \<open>alen\<close> digits at \<open>a\<close> and the digit \<open>d\<close> to \<open>c\<close>.
\<close>

fun arb_mul_loop :: "machine \<Rightarrow> store \<Rightarrow> ptr \<Rightarrow> nat \<Rightarrow> ptr \<Rightarrow> int \<Rightarrow> nat \<Rightarrow> int \<Rightarrow> store option" where
  "arb_mul_loop mc s a d c base 0 carry = wr s c (to_cell mc carry)"
| "arb_mul_loop mc s a d c base (Suc i) carry =
     (if base = 0 then None
      else do {
        x \<leftarrow> rd s (idx a (int i));
        let prod = to_int mc (int x * int d + carry);
        s' \<leftarrow> wr s (idx c (int (Suc i))) (to_cell mc (prod smod base));
        arb_mul_loop mc s' a d c base i (prod sdiv base)
      })"

definition arb_mul_core :: "machine \<Rightarrow> store \<Rightarrow> ptr \<Rightarrow> nat \<Rightarrow> nat \<Rightarrow> ptr \<Rightarrow> int \<Rightarrow> store option" where
  "arb_mul_core mc s a alen d c base = arb_mul_loop mc s a d c base alen 0"

section \<open>The division engine\<close>

text \<open>
  \<^verbatim>\<open>arb_div_inter\<close>, lines 104 to 188. The digit arrays of the two operands and the three
  buffers the function allocates are blocks of a store of its own; the quotient is the
  record the function fills and returns.
\<close>

definition blk_u :: nat where "blk_u = 0"
definition blk_v :: nat where "blk_v = 1"
definition blk_t :: nat where "blk_t = 2"
definition blk_num :: nat where "blk_num = 3"
definition blk_den :: nat where "blk_den = 4"

lemmas blk_defs = blk_u_def blk_v_def blk_t_def blk_num_def blk_den_def

text \<open>Lines 124 to 128: the sizes that depend on the shapes of the operands only.\<close>

definition lea_of :: "fxdpnt \<Rightarrow> fxdpnt \<Rightarrow> nat" where
  "lea_of num den = rl num + rr den"

definition uscal_of :: "fxdpnt \<Rightarrow> fxdpnt \<Rightarrow> int" where
  "uscal_of num den = int (rr num) - int (rr den)"

definition offset_of :: "fxdpnt \<Rightarrow> fxdpnt \<Rightarrow> nat \<Rightarrow> nat" where
  "offset_of num den scale =
     (if uscal_of num den < int scale then nat (int scale - uscal_of num den) else 0)"

text \<open>
  Lines 131 to 138: \<^verbatim>\<open>u\<close> and \<^verbatim>\<open>v\<close> come from \<^verbatim>\<open>arb_calloc\<close>, filled with zeros, and receive
  the digits of the operands. \<^verbatim>\<open>temp\<close> comes from \<^verbatim>\<open>arb_malloc\<close>; its cells hold whatever
  the allocator left there, listed in \<open>junk\<close> (cells that \<open>junk\<close> does not reach hold 0).
\<close>

definition arb_malloc :: "nat list \<Rightarrow> nat \<Rightarrow> nat list" where
  "arb_malloc junk n = take n (junk @ replicate n 0)"

definition arb_div_setup :: "nat list \<Rightarrow> fxdpnt \<Rightarrow> fxdpnt \<Rightarrow> nat \<Rightarrow> store option" where
  "arb_div_setup junk num den offset =
     do {
       let s = (\<lambda>_. [])(blk_num := number num, blk_den := number den);
       let s = s(blk_u := replicate (len num + offset + 3) 0);
       s \<leftarrow> arb_copy_core s (blk_u, 1) (blk_num, 0) (len num);
       let s = s(blk_v := replicate (len den + offset + 3) 0);
       s \<leftarrow> arb_copy_core s (blk_v, 0) (blk_den, 0) (len den);
       Some (s(blk_t := arb_malloc junk (len den + 1)))
     }"

text \<open>Line 140: \<^verbatim>\<open>for (;*v == 0; v++, leb--);\<close>\<close>

function skip_zeros :: "store \<Rightarrow> ptr \<Rightarrow> nat \<Rightarrow> (ptr \<times> nat) option" where
  "skip_zeros s v leb =
     (if in_block s v
      then (if s (fst v) ! nat (snd v) = 0 then skip_zeros s (idx v 1) (leb - 1)
            else Some (v, leb))
      else None)"
  by pat_completeness auto
termination
  by (relation "measure (\<lambda>(s, v, leb). nat (int (length (s (fst v))) - snd v))")
     (auto simp: in_block_def idx_def)

text \<open>Lines 142 to 149: the early-out flag and the shape of the quotient.\<close>

definition out_of_scale_of :: "nat \<Rightarrow> nat \<Rightarrow> nat \<Rightarrow> int" where
  "out_of_scale_of leb lea scale = (if leb > lea + scale then 1 else 0)"

definition quodig_of :: "nat \<Rightarrow> nat \<Rightarrow> nat \<Rightarrow> nat" where
  "quodig_of leb lea scale =
     (if leb > lea + scale then scale + 1
      else if \<not> (leb > lea) then lea - leb + scale + 1
      else scale + 1)"

definition set_shape :: "fxdpnt \<Rightarrow> nat \<Rightarrow> nat \<Rightarrow> fxdpnt" where
  "set_shape q quodig scale = q\<lparr>lp := quodig - scale, len := (quodig - scale) + scale\<rparr>"

text \<open>Lines 154 to 157: normalization.\<close>

definition norm_of :: "machine \<Rightarrow> int \<Rightarrow> nat \<Rightarrow> nat" where
  "norm_of mc b v0 = to_cell mc (b sdiv to_int mc (int v0 + 1))"

definition normalise :: "machine \<Rightarrow> store \<Rightarrow> ptr \<Rightarrow> nat \<Rightarrow> int \<Rightarrow> nat \<Rightarrow> store option" where
  "normalise mc s v leb b usize =
     do {
       v0 \<leftarrow> rd s v;
       let norm = norm_of mc b v0;
       if norm \<noteq> 1
       then do {
         s' \<leftarrow> shmul mc s (blk_u, 0) usize norm (blk_u, 0) b;
         shmul mc s' v leb norm v b
       }
       else Some s
     }"

text \<open>
  Lines 162 to 169: the trial digit. \<^verbatim>\<open>qg\<close> is \<^verbatim>\<open>b-1\<close> at the start of each iteration and
  is replaced by the two-digit estimate when \<^verbatim>\<open>v[0] != u[i]\<close>; a division by a zero
  \<^verbatim>\<open>v[0]\<close> is undefined behaviour.
\<close>

definition trial_digit :: "machine \<Rightarrow> int \<Rightarrow> nat \<Rightarrow> nat \<Rightarrow> nat \<Rightarrow> nat option" where
  "trial_digit mc b v0 ui ui1 =
     (if v0 \<noteq> ui
      then (if v0 = 0 then None
            else Some (to_cell mc (to_int mc (int ui * b + int ui1) sdiv int v0)))
      else Some (to_cell mc (b - 1)))"

definition overshoots :: "machine \<Rightarrow> int \<Rightarrow> nat \<Rightarrow> nat \<Rightarrow> nat \<Rightarrow> nat \<Rightarrow> nat \<Rightarrow> nat \<Rightarrow> bool" where
  "overshoots mc b v0 v1 ui ui1 ui2 qg \<longleftrightarrow>
     to_int mc (int v1 * int qg)
       > to_int mc ((int ui * b + int ui1 - int v0 * int qg) * b + int ui2)"

definition refine :: "machine \<Rightarrow> int \<Rightarrow> nat \<Rightarrow> nat \<Rightarrow> nat \<Rightarrow> nat \<Rightarrow> nat \<Rightarrow> nat \<Rightarrow> nat" where
  "refine mc b v0 v1 ui ui1 ui2 qg =
     (if overshoots mc b v0 v1 ui ui1 ui2 qg
      then (let qg1 = to_cell mc (int qg - 1)
            in if overshoots mc b v0 v1 ui ui1 ui2 qg1 then to_cell mc (int qg1 - 1) else qg1)
      else qg)"

definition guess :: "machine \<Rightarrow> store \<Rightarrow> ptr \<Rightarrow> int \<Rightarrow> nat \<Rightarrow> nat option" where
  "guess mc s v b i =
     do {
       v0 \<leftarrow> rd s v;
       v1 \<leftarrow> rd s (idx v 1);
       ui \<leftarrow> rd s (blk_u, int i);
       ui1 \<leftarrow> rd s (blk_u, int i + 1);
       ui2 \<leftarrow> rd s (blk_u, int i + 2);
       qg \<leftarrow> trial_digit mc b v0 ui ui1;
       Some (refine mc b v0 v1 ui ui1 ui2 qg)
     }"

text \<open>Lines 170 to 178: multiply and subtract, and the add-back.\<close>

definition mul_sub :: "machine \<Rightarrow> store \<Rightarrow> ptr \<Rightarrow> nat \<Rightarrow> int \<Rightarrow> nat \<Rightarrow> nat \<Rightarrow> (store \<times> nat) option" where
  "mul_sub mc s v leb b i qg =
     (if qg \<noteq> 0
      then do {
        s1 \<leftarrow> arb_mul_core mc s v leb qg (blk_t, 0) b;
        (s2, borrow) \<leftarrow> long_sub mc s1 (blk_u, int leb) (int i) (blk_t, 0) leb b;
        if borrow = 0 then Some (s2, qg)
        else do {
          (s3, carry) \<leftarrow> long_add mc s2 (blk_u, int leb) (int i) v (leb - 1) b;
          s4 \<leftarrow> (if carry \<noteq> 0 then wr s3 (blk_u, 0) 0 else Some s3);
          Some (s4, to_cell mc (int qg - 1))
        }
      }
      else Some (s, qg))"

definition set_digit :: "fxdpnt \<Rightarrow> nat \<Rightarrow> nat \<Rightarrow> fxdpnt option" where
  "set_digit q j qg =
     (if j < length (number q) then Some (q\<lparr>number := (number q)[j := qg]\<rparr>) else None)"

definition div_step :: "machine \<Rightarrow> store \<Rightarrow> ptr \<Rightarrow> nat \<Rightarrow> int \<Rightarrow> fxdpnt \<Rightarrow> nat \<Rightarrow> nat \<Rightarrow> (store \<times> fxdpnt) option" where
  "div_step mc s v leb b q i j =
     do {
       qg \<leftarrow> guess mc s v b i;
       (s', qg') \<leftarrow> mul_sub mc s v leb b i qg;
       q' \<leftarrow> set_digit q j qg';
       Some (s', q')
     }"

text \<open>Line 162: the loop runs while \<^verbatim>\<open>i <= lea+scale-leb\<close>.\<close>

function div_loop :: "machine \<Rightarrow> store \<Rightarrow> ptr \<Rightarrow> nat \<Rightarrow> int \<Rightarrow> nat \<Rightarrow> fxdpnt \<Rightarrow> nat \<Rightarrow> nat \<Rightarrow> (store \<times> fxdpnt) option" where
  "div_loop mc s v leb b bound q i j =
     (if i \<le> bound
      then (case div_step mc s v leb b q i j of
              None \<Rightarrow> None
            | Some (s', q') \<Rightarrow> div_loop mc s' v leb b bound q' (i + 1) (j + 1))
      else Some (s, q))"
  by pat_completeness auto
termination
  by (relation "measure (\<lambda>(mc, s, v, leb, b, bound, q, i, j). Suc bound - i)") auto

text \<open>Lines 124 to 140 together: the buffers, the moved pointer \<^verbatim>\<open>v\<close> and \<^verbatim>\<open>leb\<close>.\<close>

definition arb_div_prepare :: "nat list \<Rightarrow> fxdpnt \<Rightarrow> fxdpnt \<Rightarrow> nat \<Rightarrow> (store \<times> ptr \<times> nat) option" where
  "arb_div_prepare junk num den scale =
     do {
       s \<leftarrow> arb_div_setup junk num den (offset_of num den scale);
       (v, leb) \<leftarrow> skip_zeros s (blk_v, 0) (len den);
       Some (s, v, leb)
     }"

definition arb_div_work :: "machine \<Rightarrow> nat list \<Rightarrow> fxdpnt \<Rightarrow> fxdpnt \<Rightarrow> fxdpnt \<Rightarrow> int \<Rightarrow> nat \<Rightarrow> fxdpnt option" where
  "arb_div_work mc junk num den q b scale =
     do {
       let lea = lea_of num den;
       let uscal = uscal_of num den;
       let offset = offset_of num den scale;
       (s, v, leb) \<leftarrow> arb_div_prepare junk num den scale;
       let q1 = set_shape q (quodig_of leb lea scale) scale;
       if out_of_scale_of leb lea scale \<noteq> 0 then Some (remove_leading_zeros q1)
       else do {
         s1 \<leftarrow> normalise mc s v leb b (nat (int lea + uscal + int offset + 1));
         let j = (if leb > lea then leb - lea else 0);
         (s2, q2) \<leftarrow> div_loop mc s1 v leb b (lea + scale - leb) q1 0 j;
         Some (remove_leading_zeros q2)
       }
     }"

text \<open>
  Line 121: \<^verbatim>\<open>arb_error\<close> is defined elsewhere; the note at line 3 of the file says what it
  does (``don't exit on zero''): it prints the message and ends the process.
\<close>

datatype failure = Exit string | Undefined_behaviour

definition arb_div_inter :: "machine \<Rightarrow> nat list \<Rightarrow> fxdpnt \<Rightarrow> fxdpnt \<Rightarrow> fxdpnt \<Rightarrow> int \<Rightarrow> nat \<Rightarrow> failure + fxdpnt" where
  "arb_div_inter mc junk num den q b scale =
     (if iszero den = 0 then Inl (Exit (''divide by zero'' @ [CHR 0x0A]))
      else (case arb_div_work mc junk num den q b scale of
              None \<Rightarrow> Inl Undefined_behaviour
            | Some q' \<Rightarrow> Inr q'))"

text \<open>
  \<^verbatim>\<open>arb_div\<close>, lines 190 to 198. Modelled from the spec: \<^verbatim>\<open>arb_expand\<close> and \<^verbatim>\<open>arb_init\<close> are
  defined elsewhere; they give the quotient a digit buffer of the size asked for, sized
  before the loop runs and filled with zeros. \<^verbatim>\<open>arb_setsign\<close> sets the sign, which is not
  part of this model, and \<^verbatim>\<open>arb_free\<close> releases the old value of \<^verbatim>\<open>c\<close>.
\<close>

definition arb_expand :: "nat \<Rightarrow> fxdpnt" where
  "arb_expand request = \<lparr>number = replicate request 0, lp = 0, len = 0\<rparr>"

definition arb_div :: "machine \<Rightarrow> nat list \<Rightarrow> fxdpnt \<Rightarrow> fxdpnt \<Rightarrow> int \<Rightarrow> nat \<Rightarrow> failure + fxdpnt" where
  "arb_div mc junk a b base scale =
     arb_div_inter mc junk a b (arb_expand (len a + len b + scale)) base scale"

text \<open>The early-out flag of line 143 as a function of the call.\<close>

definition early_out :: "nat list \<Rightarrow> fxdpnt \<Rightarrow> fxdpnt \<Rightarrow> nat \<Rightarrow> int option" where
  "early_out junk num den scale =
     map_option (\<lambda>(s, v, leb). out_of_scale_of leb (lea_of num den) scale)
       (arb_div_prepare junk num den scale)"

section \<open>What the digits mean\<close>

text \<open>
  \<open>dval b xs\<close> is the integer that the digits \<open>xs\<close>, most significant first, write in base
  \<open>b\<close>. A number \<open>a\<close> has the value \<open>fx_int b a / b ^ rr a\<close>.
\<close>

definition dval :: "int \<Rightarrow> nat list \<Rightarrow> int" where
  "dval b xs = foldl (\<lambda>a d. a * b + int d) 0 xs"

definition fx_digits :: "fxdpnt \<Rightarrow> nat list" where
  "fx_digits a = take (len a) (number a)"

definition fx_int :: "int \<Rightarrow> fxdpnt \<Rightarrow> int" where
  "fx_int b a = dval b (fx_digits a)"

section \<open>The primitives on digit lists\<close>

text \<open>
  The cells \<open>p\<close>, ..., \<open>p + n - 1\<close> of a block are a window of it; \<open>put_window\<close> puts new cells
  in the place of a window.
\<close>

definition window :: "nat list \<Rightarrow> nat \<Rightarrow> nat \<Rightarrow> nat list" where
  "window xs p n = take n (drop p xs)"

definition put_window :: "nat list \<Rightarrow> nat \<Rightarrow> nat list \<Rightarrow> nat list" where
  "put_window xs p ys = take p xs @ ys @ drop (p + length ys) xs"

text \<open>
  The single-digit multiply in the words of the spec, on a digit sequence that starts at the
  least significant digit: \<open>value = src[i]*digit + carry\<close>, store \<open>value mod base\<close>, carry
  \<open>value div base\<close>. The result is the digits stored and the carry that is left.
\<close>

fun scale_digits :: "int \<Rightarrow> nat \<Rightarrow> nat list \<Rightarrow> int \<Rightarrow> nat list \<times> int" where
  "scale_digits b d [] carry = ([], carry)"
| "scale_digits b d (x # xs) carry =
     (let val = int x * int d + carry;
          (ys, c) = scale_digits b d xs (val div b)
      in (nat (val mod b) # ys, c))"

text \<open>
  What the spec says about the cells of the destination after the call, from the spare slot
  in front of it (which held \<open>spare\<close>) on: zeros when the digit is 0, the source when it is 1,
  and else the digits stored with the carry that is left, when it is not 0, in the spare slot.
\<close>

definition scale_spec :: "int \<Rightarrow> nat \<Rightarrow> nat \<Rightarrow> nat list \<Rightarrow> nat list" where
  "scale_spec b d spare src =
     (if d = 0 then spare # replicate (length src) 0
      else if d = 1 then spare # src
      else (case scale_digits b d (rev src) 0 of
              (ys, c) \<Rightarrow> (if c \<noteq> 0 then nat c else spare) # rev ys))"

text \<open>
  Subtraction with borrow and addition with carry in the words of the spec, again from the
  least significant digit: \<open>val += base, borrow = 1\<close> when the difference is negative, and
  the symmetric rule for the sum.
\<close>

fun sub_digits :: "int \<Rightarrow> nat list \<Rightarrow> nat list \<Rightarrow> int \<Rightarrow> nat list \<times> int" where
  "sub_digits b (x # xs) (y # ys) borrow =
     (let val = int x - int y - borrow;
          (zs, c) = sub_digits b xs ys (if val < 0 then 1 else 0)
      in (nat (if val < 0 then val + b else val) # zs, c))"
| "sub_digits b xs ys borrow = ([], borrow)"

fun add_digits :: "int \<Rightarrow> nat list \<Rightarrow> nat list \<Rightarrow> int \<Rightarrow> nat list \<times> int" where
  "add_digits b (x # xs) (y # ys) carry =
     (let val = int x + int y + carry;
          (zs, c) = add_digits b xs ys (if val \<ge> b then 1 else 0)
      in (nat (if val \<ge> b then val - b else val) # zs, c))"
| "add_digits b xs ys carry = ([], carry)"

definition digits_ok :: "int \<Rightarrow> nat list \<Rightarrow> bool" where
  "digits_ok b xs \<longleftrightarrow> list_all (\<lambda>d. int d < b) xs"

section \<open>Well-formed numbers and the state of the engine\<close>

text \<open>
  The invariant of a number: the integer-part count is at most the digit count, the digits
  fit in the digit array, and each digit is below the base.
\<close>

definition fx_ok :: "int \<Rightarrow> fxdpnt \<Rightarrow> bool" where
  "fx_ok b a \<longleftrightarrow> lp a \<le> len a \<and> len a \<le> length (number a) \<and> digits_ok b (fx_digits a)"

definition lead_zeros :: "nat list \<Rightarrow> nat" where
  "lead_zeros xs = length (takeWhile (\<lambda>d. d = 0) xs)"

text \<open>The store after lines 131 to 138.\<close>

definition setup_store :: "nat list \<Rightarrow> fxdpnt \<Rightarrow> fxdpnt \<Rightarrow> nat \<Rightarrow> store" where
  "setup_store junk num den offset =
     (\<lambda>_. [])
       (blk_num := number num, blk_den := number den,
        blk_u := 0 # fx_digits num @ replicate (offset + 2) 0,
        blk_v := fx_digits den @ replicate (offset + 3) 0,
        blk_t := arb_malloc junk (len den + 1))"

text \<open>
  The quotient-digit loop works with a normalised divisor: the cells \<open>z\<close>, ..., \<open>z + leb - 1\<close>
  of the block of \<^verbatim>\<open>v\<close> hold its digits, the first at least half the base, and the cell after
  them holds 0.
\<close>

definition div_static :: "int \<Rightarrow> nat list \<Rightarrow> nat \<Rightarrow> nat \<Rightarrow> bool" where
  "div_static b V1 z leb \<longleftrightarrow>
     2 \<le> b \<and> 1 \<le> leb \<and> z + leb < length V1 \<and> V1 ! (z + leb) = 0
     \<and> digits_ok b (window V1 z leb) \<and> b \<le> 2 * int (V1 ! z) + 1"

text \<open>
  The invariant of the loop when iteration \<open>i\<close> starts. \<open>U1\<close> is the normalised dividend, the
  cells of \<^verbatim>\<open>u\<close> when the loop starts. The cells of \<^verbatim>\<open>u\<close> from \<open>i + leb\<close> on are untouched, the
  \<open>leb\<close> cells before them hold the running remainder, which is less than the divisor, and
  the digits of the quotient written so far, with the remainder, account for the first
  \<open>i + leb\<close> digits of the dividend.
\<close>

definition div_inv :: "int \<Rightarrow> nat list \<Rightarrow> nat list \<Rightarrow> nat \<Rightarrow> nat \<Rightarrow> nat \<Rightarrow> store \<Rightarrow> fxdpnt \<Rightarrow> nat \<Rightarrow> bool" where
  "div_inv b U1 V1 z leb j0 s q i \<longleftrightarrow>
     s blk_v = V1 \<and> leb < length (s blk_t)
     \<and> length (s blk_u) = length U1 \<and> digits_ok b (s blk_u)
     \<and> drop (i + leb) (s blk_u) = drop (i + leb) U1
     \<and> dval b (window (s blk_u) i leb) < dval b (window V1 z leb)
     \<and> dval b (take (i + leb) U1) =
         dval b (take (j0 + i) (number q)) * dval b (window V1 z leb)
           + dval b (window (s blk_u) i leb)
     \<and> digits_ok b (take (j0 + i) (number q))"

text \<open>
  The state of the loop when iteration \<open>n\<close> starts: the entry state after \<open>n\<close> runs of the
  loop body, the first with \<open>i = 0\<close> and the write index \<open>j\<close>.
\<close>

fun div_iter :: "machine \<Rightarrow> store \<Rightarrow> ptr \<Rightarrow> nat \<Rightarrow> int \<Rightarrow> fxdpnt \<Rightarrow> nat \<Rightarrow> nat \<Rightarrow> (store \<times> fxdpnt) option" where
  "div_iter mc s v leb b q j 0 = Some (s, q)"
| "div_iter mc s v leb b q j (Suc n) =
     (case div_iter mc s v leb b q j n of
        None \<Rightarrow> None
      | Some (s', q') \<Rightarrow> div_step mc s' v leb b q' n (j + n))"

text \<open>
  The state in which the engine enters the loop at line 162, after lines 124 to 160: the
  store, the pointer \<^verbatim>\<open>v\<close>, \<^verbatim>\<open>leb\<close>, the quotient with its shape set, and \<^verbatim>\<open>j\<close>. From it,
  \<open>engine_state_at\<close> is the state when iteration \<open>n\<close> of the loop starts.
\<close>

definition loop_entry :: "machine \<Rightarrow> nat list \<Rightarrow> fxdpnt \<Rightarrow> fxdpnt \<Rightarrow> fxdpnt \<Rightarrow> int \<Rightarrow> nat \<Rightarrow> (store \<times> ptr \<times> nat \<times> fxdpnt \<times> nat) option" where
  "loop_entry mc junk num den q b scale =
     do {
       (s, v, leb) \<leftarrow> arb_div_prepare junk num den scale;
       s1 \<leftarrow> normalise mc s v leb b
               (nat (int (lea_of num den) + uscal_of num den + int (offset_of num den scale) + 1));
       Some (s1, v, leb, set_shape q (quodig_of leb (lea_of num den) scale) scale,
             (if leb > lea_of num den then leb - lea_of num den else 0))
     }"

definition engine_state_at :: "machine \<Rightarrow> nat list \<Rightarrow> fxdpnt \<Rightarrow> fxdpnt \<Rightarrow> fxdpnt \<Rightarrow> int \<Rightarrow> nat \<Rightarrow> nat \<Rightarrow> (store \<times> fxdpnt) option" where
  "engine_state_at mc junk num den q b scale n =
     do {
       (s1, v, leb, q1, j) \<leftarrow> loop_entry mc junk num den q b scale;
       div_iter mc s1 v leb b q1 j n
     }"

text \<open>
  The computation in exact arithmetic: with no cell values and no \<^verbatim>\<open>int\<close> values to wrap
  around (\<open>x mod 0 = x\<close>), \<open>to_cell\<close> and \<open>to_int\<close> change nothing. The engine is first studied
  in exact arithmetic and then shown to compute the same on a machine whose cells and
  \<^verbatim>\<open>int\<close> are wide enough for the base.
\<close>

definition exact :: machine where
  "exact = \<lparr>cell_count = 0, int_half = 0\<rparr>"

text \<open>
  A machine is wide enough for the base \<open>b\<close> when a cell can hold every digit below \<open>b\<close>,
  an \<^verbatim>\<open>int\<close> can hold every value of a cell, and an \<^verbatim>\<open>int\<close> can hold every number below
  \<open>4 * b * b\<close>: the largest value the engine computes from digits below \<open>b\<close> is the right
  side of the test of line 165, which stays below \<open>3 * b * b + b\<close>. With \<^verbatim>\<open>unsigned char\<close> cells
  and a 32-bit \<^verbatim>\<open>int\<close> every base from 2 to 256 qualifies.
\<close>

definition machine_ok :: "machine \<Rightarrow> int \<Rightarrow> bool" where
  "machine_ok mc b \<longleftrightarrow>
     b \<le> int (cell_count mc) \<and> int (cell_count mc) \<le> int_half mc \<and> 4 * b * b \<le> int_half mc"

text \<open>The machine of the worked examples: \<^verbatim>\<open>unsigned char\<close> cells and a 32-bit \<^verbatim>\<open>int\<close>.\<close>

definition char_cells :: machine where
  "char_cells = \<lparr>cell_count = 256, int_half = 2147483648\<rparr>"

text \<open>The stripped divisor: its digits without the leading zeros, and its width \<^verbatim>\<open>leb\<close>.\<close>

definition divisor_digits :: "fxdpnt \<Rightarrow> nat list" where
  "divisor_digits den = drop (lead_zeros (fx_digits den)) (fx_digits den)"

definition leb_of :: "fxdpnt \<Rightarrow> nat" where
  "leb_of den = len den - lead_zeros (fx_digits den)"

section \<open>Lemmas about the primitives\<close>

declare long_sub_loop.simps [simp del] long_add_loop.simps [simp del]

lemma to_cell_exact [simp]: "to_cell exact x = nat x"
  by (simp add: to_cell_def exact_def)

lemma to_int_exact [simp]: "to_int exact x = x"
  by (simp add: to_int_def exact_def)

lemma nat_int_pred [simp]: "nat (int q - 1) = q - 1"
  by simp

lemma rd_at: "snd p = int n \<Longrightarrow> rd s p = (if n < length (s (fst p)) then Some (s (fst p) ! n) else None)"
  by (simp add: rd_def in_block_def)

lemma wr_at: "snd p = int n \<Longrightarrow> wr s p x = (if n < length (s (fst p)) then Some (s(fst p := (s (fst p))[n := x])) else None)"
  by (simp add: wr_def in_block_def)

lemma fst_idx [simp]: "fst (idx p i) = fst p" by (simp add: idx_def)
lemma snd_idx [simp]: "snd (idx p i) = snd p + i" by (simp add: idx_def)

lemma window_snoc: "p + n < length xs \<Longrightarrow> window xs p (Suc n) = window xs p n @ [xs ! (p + n)]"
  by (simp add: window_def take_Suc_conv_app_nth)

lemma window_update_outside: "q < p \<or> p + n \<le> q \<Longrightarrow> window (xs[q := x]) p n = window xs p n"
  unfolding window_def
  by (auto simp: list_eq_iff_nth_eq)

lemma length_add_digits: "length (fst (add_digits b xs ys c)) = min (length xs) (length ys)"
  by (induction b xs ys c rule: add_digits.induct) (auto simp: Let_def split: prod.splits)

lemma length_sub_digits: "length (fst (sub_digits b xs ys c)) = min (length xs) (length ys)"
  by (induction b xs ys c rule: sub_digits.induct) (auto simp: Let_def split: prod.splits)

lemma length_window: "p + n \<le> length xs \<Longrightarrow> length (window xs p n) = n"
  by (simp add: window_def)

lemma put_window_snoc:
  assumes "p + n < length xs" "length zs = n"
  shows "put_window (xs[p + n := d]) p zs = put_window xs p (zs @ [d])"
  using assms unfolding put_window_def
  by (simp add: upd_conv_take_nth_drop flip: Cons_nth_drop_Suc)

lemma long_sub_loop_lists:
  assumes "fst u \<noteq> fst v" "snd u + i = int p" "k \<le> p" "p < length (s (fst u))"
    "snd v = int vo" "vo + k < length (s (fst v))"
  shows "long_sub_loop exact s u i v k b c =
    (let (zs, c') = sub_digits b (rev (window (s (fst u)) (p - k) (Suc k)))
                      (rev (window (s (fst v)) vo (Suc k))) c
     in Some (s(fst u := put_window (s (fst u)) (p - k) (rev zs)), c'))"
  using assms
proof (induction k arbitrary: s i p c)
  case 0
  then show ?case
    apply (subst long_sub_loop.simps)
    apply (simp add: rd_at [where n = p] rd_at [where n = vo] wr_at [where n = p] window_def put_window_def
        take_Suc_conv_app_nth hd_drop_conv_nth upd_conv_take_nth_drop Let_def
        flip: Cons_nth_drop_Suc)
    done
next
  case (Suc k)
  define xs vs where "xs = s (fst u)" and "vs = s (fst v)"
  obtain p' where p': "p = Suc p'" using Suc.prems by (cases p) auto
  define val where "val = int (xs ! p) - int (vs ! (vo + Suc k)) - c"
  define d where "d = nat (if val < 0 then val + b else val)"
  define c1 :: int where "c1 = (if val < 0 then 1 else 0)"
  define s' where "s' = s(fst u := xs[p := d])"
  have wu: "window xs (p - Suc k) (Suc (Suc k)) = window xs (p' - k) (Suc k) @ [xs ! p]"
    using Suc.prems p' window_snoc [of "p - Suc k" "Suc k" xs] by (simp add: xs_def)
  have wv: "window vs vo (Suc (Suc k)) = window vs vo (Suc k) @ [vs ! (vo + Suc k)]"
    using Suc.prems window_snoc [of vo "Suc k" vs] by (simp add: vs_def)
  have s'u: "s' (fst u) = xs[p := d]" and s'v: "s' (fst v) = vs"
    using Suc.prems(1) by (auto simp: s'_def vs_def)
  have IH: "long_sub_loop exact s' u (i - 1) v k b c1 =
    (let (zs, c') = sub_digits b (rev (window (s' (fst u)) (p' - k) (Suc k)))
                      (rev (window (s' (fst v)) vo (Suc k))) c1
     in Some (s'(fst u := put_window (s' (fst u)) (p' - k) (rev zs)), c'))"
    using Suc.prems p' by (intro Suc.IH) (auto simp: s'u s'v xs_def vs_def)
  have w': "window (xs[p := d]) (p' - k) (Suc k) = window xs (p' - k) (Suc k)"
    using Suc.prems p' by (intro window_update_outside) auto
  have step: "long_sub_loop exact s u i v (Suc k) b c = long_sub_loop exact s' u (i - 1) v k b c1"
    using Suc.prems
    apply (subst long_sub_loop.simps)
    apply (simp add: rd_at [where n = p] rd_at [where n = "vo + Suc k"] wr_at [where n = p]
         s'_def c1_def d_def val_def xs_def vs_def Let_def)
    done
  obtain zs c' where zs: "sub_digits b (rev (window xs (p' - k) (Suc k))) (rev (window vs vo (Suc k))) c1 = (zs, c')"
    by (cases "sub_digits b (rev (window xs (p' - k) (Suc k))) (rev (window vs vo (Suc k))) c1")
  have lz: "length zs = Suc k"
    using length_sub_digits [of b "rev (window xs (p' - k) (Suc k))" "rev (window vs vo (Suc k))" c1]
      zs Suc.prems p' by (simp add: length_window xs_def vs_def)
  have pw: "put_window (xs[p := d]) (p' - k) (rev zs) = put_window xs (p - Suc k) (rev (d # zs))"
    using put_window_snoc [of "p' - k" "Suc k" xs "rev zs" d] Suc.prems p' lz by (simp add: xs_def)
  have lhs: "long_sub_loop exact s u i v (Suc k) b c =
     Some (s(fst u := put_window xs (p - Suc k) (rev (d # zs))), c')"
    unfolding step IH s'u s'v w' zs using pw by (simp add: s'_def)
  have rhs: "sub_digits b (rev (window xs (p - Suc k) (Suc (Suc k))))
                      (rev (window vs vo (Suc (Suc k)))) c = (d # zs, c')"
    unfolding wu wv using zs by (simp add: Let_def d_def c1_def val_def)
  show ?case
    unfolding xs_def [symmetric] vs_def [symmetric] lhs rhs by (simp add: fun_eq_iff)
qed

lemma long_sub_loop_eq:
  assumes "fst u \<noteq> fst v" "snd u + i = int p" "k \<le> p" "p < length (s (fst u))"
    "snd v = int vo" "vo + k < length (s (fst v))"
    "sub_digits b (rev (window (s (fst u)) (p - k) (Suc k)))
        (rev (window (s (fst v)) vo (Suc k))) c = (zs, c')"
  shows "long_sub_loop exact s u i v k b c =
           Some (s(fst u := put_window (s (fst u)) (p - k) (rev zs)), c')"
  using long_sub_loop_lists [OF assms(1-6), of b c] assms(7) by simp

lemma long_add_loop_lists:
  assumes "fst u \<noteq> fst v" "snd u + i = int p" "k \<le> p" "p < length (s (fst u))"
    "snd v = int vo" "vo + k < length (s (fst v))"
  shows "long_add_loop exact s u i v k b c =
    (let (zs, c') = add_digits b (rev (window (s (fst u)) (p - k) (Suc k)))
                      (rev (window (s (fst v)) vo (Suc k))) c
     in Some (s(fst u := put_window (s (fst u)) (p - k) (rev zs)), c'))"
  using assms
proof (induction k arbitrary: s i p c)
  case 0
  then show ?case
    apply (subst long_add_loop.simps)
    apply (simp add: rd_at [where n = p] rd_at [where n = vo] wr_at [where n = p] window_def put_window_def
        take_Suc_conv_app_nth hd_drop_conv_nth upd_conv_take_nth_drop Let_def
        flip: Cons_nth_drop_Suc)
    done
next
  case (Suc k)
  define xs vs where "xs = s (fst u)" and "vs = s (fst v)"
  obtain p' where p': "p = Suc p'" using Suc.prems by (cases p) auto
  define val where "val = int (xs ! p) + int (vs ! (vo + Suc k)) + c"
  define d where "d = nat (if val \<ge> b then val - b else val)"
  define c1 :: int where "c1 = (if val \<ge> b then 1 else 0)"
  define s' where "s' = s(fst u := xs[p := d])"
  have wu: "window xs (p - Suc k) (Suc (Suc k)) = window xs (p' - k) (Suc k) @ [xs ! p]"
    using Suc.prems p' window_snoc [of "p - Suc k" "Suc k" xs] by (simp add: xs_def)
  have wv: "window vs vo (Suc (Suc k)) = window vs vo (Suc k) @ [vs ! (vo + Suc k)]"
    using Suc.prems window_snoc [of vo "Suc k" vs] by (simp add: vs_def)
  have s'u: "s' (fst u) = xs[p := d]" and s'v: "s' (fst v) = vs"
    using Suc.prems(1) by (auto simp: s'_def vs_def)
  have IH: "long_add_loop exact s' u (i - 1) v k b c1 =
    (let (zs, c') = add_digits b (rev (window (s' (fst u)) (p' - k) (Suc k)))
                      (rev (window (s' (fst v)) vo (Suc k))) c1
     in Some (s'(fst u := put_window (s' (fst u)) (p' - k) (rev zs)), c'))"
    using Suc.prems p' by (intro Suc.IH) (auto simp: s'u s'v xs_def vs_def)
  have w': "window (xs[p := d]) (p' - k) (Suc k) = window xs (p' - k) (Suc k)"
    using Suc.prems p' by (intro window_update_outside) auto
  have step: "long_add_loop exact s u i v (Suc k) b c = long_add_loop exact s' u (i - 1) v k b c1"
    using Suc.prems
    apply (subst long_add_loop.simps)
    apply (simp add: rd_at [where n = p] rd_at [where n = "vo + Suc k"] wr_at [where n = p]
         s'_def c1_def d_def val_def xs_def vs_def Let_def)
    done
  obtain zs c' where zs: "add_digits b (rev (window xs (p' - k) (Suc k))) (rev (window vs vo (Suc k))) c1 = (zs, c')"
    by (cases "add_digits b (rev (window xs (p' - k) (Suc k))) (rev (window vs vo (Suc k))) c1")
  have lz: "length zs = Suc k"
    using length_add_digits [of b "rev (window xs (p' - k) (Suc k))" "rev (window vs vo (Suc k))" c1]
      zs Suc.prems p' by (simp add: length_window xs_def vs_def)
  have pw: "put_window (xs[p := d]) (p' - k) (rev zs) = put_window xs (p - Suc k) (rev (d # zs))"
    using put_window_snoc [of "p' - k" "Suc k" xs "rev zs" d] Suc.prems p' lz by (simp add: xs_def)
  have lhs: "long_add_loop exact s u i v (Suc k) b c =
     Some (s(fst u := put_window xs (p - Suc k) (rev (d # zs))), c')"
    unfolding step IH s'u s'v w' zs using pw by (simp add: s'_def)
  have rhs: "add_digits b (rev (window xs (p - Suc k) (Suc (Suc k))))
                      (rev (window vs vo (Suc (Suc k)))) c = (d # zs, c')"
    unfolding wu wv using zs by (simp add: Let_def d_def c1_def val_def)
  show ?case
    unfolding xs_def [symmetric] vs_def [symmetric] lhs rhs by (simp add: fun_eq_iff)
qed

lemma long_add_loop_eq:
  assumes "fst u \<noteq> fst v" "snd u + i = int p" "k \<le> p" "p < length (s (fst u))"
    "snd v = int vo" "vo + k < length (s (fst v))"
    "add_digits b (rev (window (s (fst u)) (p - k) (Suc k)))
        (rev (window (s (fst v)) vo (Suc k))) c = (zs, c')"
  shows "long_add_loop exact s u i v k b c =
           Some (s(fst u := put_window (s (fst u)) (p - k) (rev zs)), c')"
  using long_add_loop_lists [OF assms(1-6), of b c] assms(7) by simp

lemma dval_Nil [simp]: "dval b [] = 0"
  by (simp add: dval_def)

lemma dval_snoc [simp]: "dval b (xs @ [x]) = dval b xs * b + int x"
  by (simp add: dval_def)

lemma dval_append: "dval b (xs @ ys) = dval b xs * b ^ length ys + dval b ys"
  by (induction ys rule: rev_induct) (simp_all add: algebra_simps flip: append_assoc)

lemma dval_Cons: "dval b (x # xs) = int x * b ^ length xs + dval b xs"
  using dval_append [of b "[x]" xs] dval_snoc [of b "[]" x] by simp

lemma digits_ok_simps [simp]:
  "digits_ok b []" "digits_ok b (x # xs) \<longleftrightarrow> int x < b \<and> digits_ok b xs"
  "digits_ok b (xs @ ys) \<longleftrightarrow> digits_ok b xs \<and> digits_ok b ys"
  "digits_ok b (rev xs) \<longleftrightarrow> digits_ok b xs"
  by (auto simp: digits_ok_def list_all_iff)

lemma dval_nonneg: "0 \<le> b \<Longrightarrow> 0 \<le> dval b xs"
  by (induction xs rule: rev_induct) simp_all

lemma dval_less: "digits_ok b xs \<Longrightarrow> dval b xs < b ^ length xs"
proof (induction xs rule: rev_induct)
  case Nil
  then show ?case by simp
next
  case (snoc x xs)
  then have "dval b xs + 1 \<le> b ^ length xs" and "int x < b" by simp_all
  then have "(dval b xs + 1) * b \<le> b ^ length xs * b"
    by (intro mult_right_mono) auto
  with \<open>int x < b\<close> show ?case by (simp add: algebra_simps)
qed

lemma sub_digits_value:
  assumes "length xs = length ys" "digits_ok b xs" "digits_ok b ys" "c = 0 \<or> c = 1"
    "sub_digits b xs ys c = (zs, c')"
  shows "dval b (rev zs) = dval b (rev xs) - dval b (rev ys) - c + c' * b ^ length xs
         \<and> digits_ok b zs \<and> (c' = 0 \<or> c' = 1) \<and> length zs = length xs"
  using assms
proof (induction xs ys arbitrary: c zs c' rule: list_induct2)
  case Nil
  then show ?case by auto
next
  case (Cons x xs y ys)
  define val where "val = int x - int y - c"
  define c1 :: int where "c1 = (if val < 0 then 1 else 0)"
  obtain zs1 c2 where r: "sub_digits b xs ys c1 = (zs1, c2)"
    by (cases "sub_digits b xs ys c1")
  have zs: "zs = nat (if val < 0 then val + b else val) # zs1" and c': "c' = c2"
    using Cons.prems(4) r by (auto simp: Let_def val_def c1_def)
  have IH: "dval b (rev zs1) = dval b (rev xs) - dval b (rev ys) - c1 + c2 * b ^ length xs
         \<and> digits_ok b zs1 \<and> (c2 = 0 \<or> c2 = 1) \<and> length zs1 = length xs"
    using Cons.prems r by (intro Cons.IH) (auto simp: c1_def)
  have xb: "int x < b" "int y < b" using Cons.prems by auto
  define dd where "dd = nat (if val < 0 then val + b else val)"
  have d: "int dd = val + c1 * b"
    using xb Cons.prems(3) by (auto simp: val_def c1_def dd_def)
  have db: "int dd < b"
    using xb Cons.prems(3) by (auto simp: val_def dd_def)
  have "dval b (rev zs) = dval b (rev zs1) * b + (val + c1 * b)"
    using d by (simp add: zs flip: dd_def)
  also have "\<dots> = (dval b (rev xs) - dval b (rev ys) - c1 + c2 * b ^ length xs) * b + (val + c1 * b)"
    using IH by simp
  also have "\<dots> = dval b (rev (x # xs)) - dval b (rev (y # ys)) - c + c' * b ^ length (x # xs)"
    by (simp add: val_def c' algebra_simps)
  finally show ?case
    using IH db by (simp add: zs c' flip: dd_def)
qed

lemma add_digits_value:
  assumes "length xs = length ys" "digits_ok b xs" "digits_ok b ys" "c = 0 \<or> c = 1"
    "add_digits b xs ys c = (zs, c')"
  shows "dval b (rev zs) = dval b (rev xs) + dval b (rev ys) + c - c' * b ^ length xs
         \<and> digits_ok b zs \<and> (c' = 0 \<or> c' = 1) \<and> length zs = length xs"
  using assms
proof (induction xs ys arbitrary: c zs c' rule: list_induct2)
  case Nil
  then show ?case by auto
next
  case (Cons x xs y ys)
  define val where "val = int x + int y + c"
  define c1 :: int where "c1 = (if val \<ge> b then 1 else 0)"
  obtain zs1 c2 where r: "add_digits b xs ys c1 = (zs1, c2)"
    by (cases "add_digits b xs ys c1")
  have zs: "zs = nat (if val \<ge> b then val - b else val) # zs1" and c': "c' = c2"
    using Cons.prems(4) r by (auto simp: Let_def val_def c1_def)
  have IH: "dval b (rev zs1) = dval b (rev xs) + dval b (rev ys) + c1 - c2 * b ^ length xs
         \<and> digits_ok b zs1 \<and> (c2 = 0 \<or> c2 = 1) \<and> length zs1 = length xs"
    using Cons.prems r by (intro Cons.IH) (auto simp: c1_def)
  have xb: "int x < b" "int y < b" using Cons.prems by auto
  define dd where "dd = nat (if val \<ge> b then val - b else val)"
  have d: "int dd = val - c1 * b"
    using xb Cons.prems(3) by (auto simp: val_def c1_def dd_def)
  have db: "int dd < b"
    using xb Cons.prems(3) by (auto simp: val_def dd_def)
  have "dval b (rev zs) = dval b (rev zs1) * b + (val - c1 * b)"
    using d by (simp add: zs flip: dd_def)
  also have "\<dots> = (dval b (rev xs) + dval b (rev ys) + c1 - c2 * b ^ length xs) * b + (val - c1 * b)"
    using IH by simp
  also have "\<dots> = dval b (rev (x # xs)) + dval b (rev (y # ys)) + c - c' * b ^ length (x # xs)"
    by (simp add: val_def c' algebra_simps)
  finally show ?case
    using IH db by (simp add: zs c' flip: dd_def)
qed

lemma add_sub_digits:
  assumes "length xs = length ys" "digits_ok b xs" "digits_ok b ys" "c = 0 \<or> c = 1"
    "sub_digits b xs ys c = (zs, c')"
  shows "add_digits b zs ys c = (xs, c')"
  using assms
proof (induction xs ys arbitrary: c zs c' rule: list_induct2)
  case Nil
  then show ?case by auto
next
  case (Cons x xs y ys)
  define val where "val = int x - int y - c"
  define c1 :: int where "c1 = (if val < 0 then 1 else 0)"
  obtain zs1 c2 where r: "sub_digits b xs ys c1 = (zs1, c2)"
    by (cases "sub_digits b xs ys c1")
  have zs: "zs = nat (if val < 0 then val + b else val) # zs1" and c': "c' = c2"
    using Cons.prems(4) r by (auto simp: Let_def val_def c1_def)
  have IH: "add_digits b zs1 ys c1 = (xs, c2)"
    using Cons.prems r by (intro Cons.IH) (auto simp: c1_def)
  have xb: "int x < b" "int y < b" using Cons.prems by auto
  show ?case
    unfolding zs c' using IH xb Cons.prems(3)
    by (auto simp: Let_def val_def c1_def)
qed

lemma length_put_window [simp]:
  "p + length ys \<le> length xs \<Longrightarrow> length (put_window xs p ys) = length xs"
  by (simp add: put_window_def)

lemma window_put_window [simp]:
  "p + length ys \<le> length xs \<Longrightarrow> window (put_window xs p ys) p (length ys) = ys"
  by (simp add: put_window_def window_def)

lemma put_window_twice [simp]:
  "length zs = length ys \<Longrightarrow> p + length ys \<le> length xs \<Longrightarrow>
     put_window (put_window xs p ys) p zs = put_window xs p zs"
  by (simp add: put_window_def)

lemma put_window_same [simp]:
  assumes "p + n \<le> length xs"
  shows "put_window xs p (window xs p n) = xs"
proof -
  have "take p xs @ take n (drop p xs) @ drop (p + n) xs = take (p + n) xs @ drop (p + n) xs"
    by (simp add: take_add)
  then show ?thesis
    using assms by (simp add: put_window_def window_def)
qed

lemma nth_put_window_outside:
  "p + length ys \<le> length xs \<Longrightarrow> n < p \<or> p + length ys \<le> n \<Longrightarrow> put_window xs p ys ! n = xs ! n"
  by (auto simp: put_window_def nth_append)

lemma length_scale_digits: "scale_digits b d xs c = (ys, c') \<Longrightarrow> length ys = length xs"
  by (induction xs arbitrary: c ys c') (auto simp: Let_def split: prod.splits)

lemma put_window_Nil [simp]: "put_window xs p [] = xs"
  by (simp add: put_window_def)

lemma sdiv_nonneg: "0 \<le> a \<Longrightarrow> 0 < b \<Longrightarrow> a sdiv b = a div (b::int)"
  by (simp add: signed_divide_int_def sgn_if)

lemma smod_nonneg: "0 \<le> a \<Longrightarrow> 0 < b \<Longrightarrow> a smod b = a mod (b::int)"
  by (simp add: signed_modulo_int_def sgn_if)

lemma shmul_loop_eq:
  assumes "fst num \<noteq> fst result \<or> num = result"
    "snd num = int so" "so + n \<le> length (s (fst num))"
    "snd result = int ro" "ro + n \<le> length (s (fst result))"
    "0 < b" "0 \<le> c"
    "scale_digits b d (rev (window (s (fst num)) so n)) c = (ys, c')"
  shows "shmul_loop exact s num d result b n c =
           Some (s(fst result := put_window (s (fst result)) ro (rev ys)), c')"
  using assms
proof (induction n arbitrary: s c ys c')
  case 0
  then show ?case by (simp add: window_def)
next
  case (Suc m)
  define xs rs where "xs = s (fst num)" and "rs = s (fst result)"
  define val where "val = int (xs ! (so + m)) * int d + c"
  define dig where "dig = nat (val mod b)"
  define s' where "s' = s(fst result := rs[ro + m := dig])"
  have val0: "0 \<le> val" using Suc.prems by (simp add: val_def)
  have w: "window xs so (Suc m) = window xs so m @ [xs ! (so + m)]"
    using Suc.prems window_snoc [of so m xs] by (simp add: xs_def)
  obtain ys1 c2 where r: "scale_digits b d (rev (window xs so m)) (val div b) = (ys1, c2)"
    by (cases "scale_digits b d (rev (window xs so m)) (val div b)")
  have ys: "ys = dig # ys1" and c': "c' = c2"
    using Suc.prems(8) r unfolding xs_def [symmetric] w
    by (auto simp: Let_def val_def dig_def)
  have ly: "length ys1 = m"
    using length_scale_digits [OF r] Suc.prems
    by (simp add: length_window xs_def)
  have step: "shmul_loop exact s num d result b (Suc m) c = shmul_loop exact s' num d result b m (val div b)"
    using Suc.prems val0
    by (simp add: rd_at [where n = "so + m"] wr_at [where n = "ro + m"] Let_def
        sdiv_nonneg smod_nonneg s'_def val_def dig_def xs_def rs_def)
  have s'r: "s' (fst result) = rs[ro + m := dig]"
    by (simp add: s'_def)
  have s'n: "window (s' (fst num)) so m = window xs so m"
  proof (cases "fst num = fst result")
    case True
    then have "so = ro" using Suc.prems(1,2,4) by auto
    then show ?thesis
      using True by (simp add: s'_def window_update_outside xs_def rs_def)
  next
    case False
    then show ?thesis by (simp add: s'_def xs_def)
  qed
  have q1: "so + m \<le> length (s' (fst num))" "ro + m \<le> length (s' (fst result))"
    using Suc.prems by (auto simp: s'_def rs_def)
  have q2: "scale_digits b d (rev (window (s' (fst num)) so m)) (val div b) = (ys1, c2)"
    unfolding s'n by (rule r)
  have q3: "0 \<le> val div b"
    using val0 Suc.prems(6) by (simp add: pos_imp_zdiv_nonneg_iff)
  have IH: "shmul_loop exact s' num d result b m (val div b) =
     Some (s'(fst result := put_window (s' (fst result)) ro (rev ys1)), c2)"
    by (rule Suc.IH [OF Suc.prems(1,2) q1(1) Suc.prems(4) q1(2) Suc.prems(6) q3 q2])
  have pw: "put_window (rs[ro + m := dig]) ro (rev ys1) = put_window rs ro (rev ys)"
    using put_window_snoc [of ro m rs "rev ys1" dig] Suc.prems ly by (simp add: ys rs_def)
  show ?case
    unfolding step IH s'r pw c' by (simp add: s'_def rs_def fun_eq_iff)
qed

lemma put_window_Cons:
  assumes "po + Suc (length ys) \<le> length xs"
  shows "put_window (xs[po := x]) (Suc po) ys = put_window xs po (x # ys)"
  using assms unfolding put_window_def
  by (simp add: upd_conv_take_nth_drop take_Suc_conv_app_nth add.commute)

lemma window_Cons: "p < length xs \<Longrightarrow> window xs p (Suc n) = xs ! p # window xs (Suc p) n"
  by (simp add: window_def flip: Cons_nth_drop_Suc)

lemma arb_memset_eq:
  assumes "snd p = int po" "po + n \<le> length (s (fst p))"
  shows "arb_memset s p x n = Some (s(fst p := put_window (s (fst p)) po (replicate n x)))"
  using assms
proof (induction n arbitrary: s p po)
  case 0
  then show ?case by simp
next
  case (Suc n)
  define xs where "xs = s (fst p)"
  define s' where "s' = s(fst p := xs[po := x])"
  have step: "arb_memset s p x (Suc n) = arb_memset s' (idx p 1) x n"
    using Suc.prems by (simp add: wr_at [where n = po] s'_def xs_def)
  have IH: "arb_memset s' (idx p 1) x n =
      Some (s'(fst (idx p 1) := put_window (s' (fst (idx p 1))) (Suc po) (replicate n x)))"
    using Suc.prems by (intro Suc.IH) (simp_all add: s'_def xs_def)
  have pw: "put_window (xs[po := x]) (Suc po) (replicate n x) = put_window xs po (replicate (Suc n) x)"
    using Suc.prems put_window_Cons [of po "replicate n x" xs x] by (simp add: xs_def)
  show ?case
    unfolding step IH using pw by (simp add: s'_def xs_def fun_eq_iff)
qed

lemma arb_copy_core_eq:
  assumes "fst dst \<noteq> fst src \<or> dst = src"
    "snd src = int so" "so + n \<le> length (s (fst src))"
    "snd dst = int dp" "dp + n \<le> length (s (fst dst))"
  shows "arb_copy_core s dst src n =
     Some (s(fst dst := put_window (s (fst dst)) dp (window (s (fst src)) so n)))"
  using assms
proof (induction n arbitrary: s dst src so dp)
  case 0
  then show ?case by (simp add: window_def)
next
  case (Suc n)
  define xs ds where "xs = s (fst src)" and "ds = s (fst dst)"
  define x where "x = xs ! so"
  define s' where "s' = s(fst dst := ds[dp := x])"
  have step: "arb_copy_core s dst src (Suc n) = arb_copy_core s' (idx dst 1) (idx src 1) n"
    using Suc.prems
    by (simp add: rd_at [where n = so] wr_at [where n = dp] s'_def xs_def ds_def x_def)
  have s'd: "s' (fst dst) = ds[dp := x]"
    by (simp add: s'_def)
  have s'n: "window (s' (fst src)) (Suc so) n = window xs (Suc so) n"
  proof (cases "fst src = fst dst")
    case True
    then have "so = dp" using Suc.prems(1,2,4) by auto
    then show ?thesis
      using True by (simp add: s'_def window_update_outside xs_def ds_def)
  next
    case False
    then show ?thesis by (simp add: s'_def xs_def)
  qed
  have q0: "fst (idx dst 1) \<noteq> fst (idx src 1) \<or> idx dst 1 = idx src 1"
    using Suc.prems(1) by auto
  have q1: "snd (idx src 1) = int (Suc so)" "snd (idx dst 1) = int (Suc dp)"
    using Suc.prems by simp_all
  have q2: "Suc so + n \<le> length (s' (fst (idx src 1)))" "Suc dp + n \<le> length (s' (fst (idx dst 1)))"
    using Suc.prems by (auto simp: s'_def ds_def)
  have IH: "arb_copy_core s' (idx dst 1) (idx src 1) n =
     Some (s'(fst (idx dst 1) := put_window (s' (fst (idx dst 1))) (Suc dp)
        (window (s' (fst (idx src 1))) (Suc so) n)))"
    by (rule Suc.IH [OF q0 q1(1) q2(1) q1(2) q2(2)])
  have pw: "put_window (ds[dp := x]) (Suc dp) (window xs (Suc so) n) = put_window ds dp (window xs so (Suc n))"
    using Suc.prems put_window_Cons [of dp "window xs (Suc so) n" ds x] window_Cons [of so xs n]
    by (simp add: xs_def ds_def x_def length_window)
  show ?case
    unfolding step IH using pw s'n by (simp add: s'_def xs_def ds_def fun_eq_iff)
qed

lemma put_window_keep:
  assumes "po + Suc (length ys) \<le> length xs"
  shows "put_window xs (Suc po) ys = put_window xs po (xs ! po # ys)"
  using put_window_Cons [OF assms, of "xs ! po"] by simp

lemma put_window_then_update:
  assumes "po + Suc (length ys) \<le> length xs"
  shows "(put_window xs (Suc po) ys)[po := x] = put_window xs po (x # ys)"
  using assms unfolding put_window_def
  by (simp add: list_update_append take_Suc_conv_app_nth add.commute)

section \<open>Arithmetic of the trial digit\<close>

lemma overshoot_gt:
  fixes b u0 u1 u2 v0 v1 P Wr Vr qh :: int
  assumes "0 \<le> qh" "0 < P" "0 \<le> Vr" "Wr < P"
    "v1 * qh > (u0 * b + u1 - v0 * qh) * b + u2"
    "W = (u0 * b * b + u1 * b + u2) * P + Wr" "V = (v0 * b + v1) * P + Vr"
  shows "W < qh * V"
proof -
  have "qh * (v0 * b + v1) \<ge> u0 * b * b + u1 * b + u2 + 1"
    using assms(5) by (simp add: algebra_simps)
  then have "qh * (v0 * b + v1) * P \<ge> (u0 * b * b + u1 * b + u2 + 1) * P"
    using assms(2) by (intro mult_right_mono) auto
  moreover have "(u0 * b * b + u1 * b + u2 + 1) * P > W"
    using assms(4,6) by (simp add: algebra_simps)
  moreover have "qh * V \<ge> qh * (v0 * b + v1) * P"
  proof -
    have "qh * Vr \<ge> 0" using assms(1,3) by simp
    then show ?thesis unfolding assms(7) by (simp add: algebra_simps)
  qed
  ultimately show ?thesis by linarith
qed

lemma no_overshoot_le:
  fixes b u0 u1 u2 v0 v1 P Wr Vr qh :: int
  assumes "0 \<le> qh" "qh \<le> b" "0 < P" "Vr < P" "0 \<le> Wr" "1 \<le> v0" "0 \<le> v1" "0 \<le> Vr" "0 \<le> b"
    "\<not> v1 * qh > (u0 * b + u1 - v0 * qh) * b + u2"
    "W = (u0 * b * b + u1 * b + u2) * P + Wr" "V = (v0 * b + v1) * P + Vr"
  shows "(qh - 1) * V \<le> W"
proof -
  have 1: "qh * (v0 * b + v1) \<le> u0 * b * b + u1 * b + u2"
    using assms(10) by (simp add: algebra_simps)
  have 2: "qh * (v0 * b + v1) * P \<le> (u0 * b * b + u1 * b + u2) * P"
    using 1 assms(3) by (intro mult_right_mono) auto
  have 3: "qh * Vr \<le> b * P"
  proof -
    have "qh * Vr \<le> b * Vr" using assms(2,8) by (intro mult_right_mono) auto
    also have "\<dots> \<le> b * P" using assms(4,9) by (intro mult_left_mono) auto
    finally show ?thesis .
  qed
  have 4: "V \<ge> b * P"
  proof -
    have "v0 * b * P \<ge> 1 * b * P"
      using assms(3,6,9) by (intro mult_right_mono) auto
    moreover have "v1 * P \<ge> 0" using assms(3,7) by simp
    ultimately show ?thesis unfolding assms(12) using assms(8) by (simp add: algebra_simps)
  qed
  have "(qh - 1) * V = qh * (v0 * b + v1) * P + qh * Vr - V"
    unfolding assms(12) by (simp add: algebra_simps)
  also have "\<dots> \<le> (u0 * b * b + u1 * b + u2) * P + b * P - V"
    using 2 3 by linarith
  also have "\<dots> \<le> (u0 * b * b + u1 * b + u2) * P"
    using 4 by linarith
  also have "\<dots> \<le> W"
    using assms(5,11) by simp
  finally show ?thesis .
qed

lemma int_div_lower:
  fixes x v :: int
  assumes "0 < v"
  shows "x div v * v \<le> x"
proof -
  have "x div v * v = x - x mod v" by (simp add: minus_mod_eq_div_mult)
  then show ?thesis using pos_mod_sign [OF assms, of x] by linarith
qed

lemma int_div_upper:
  fixes x v :: int
  assumes "0 < v"
  shows "x < (x div v + 1) * v"
proof -
  have "x div v * v = x - x mod v" by (simp add: minus_mod_eq_div_mult)
  moreover have "(x div v + 1) * v = x div v * v + v" by (simp add: algebra_simps)
  ultimately show ?thesis using pos_mod_bound [OF assms, of x] by linarith
qed

lemma int_div_less:
  fixes x v k :: int
  assumes "0 < v" "x < k * v"
  shows "x div v < k"
proof (rule ccontr)
  assume "\<not> x div v < k"
  then have "k * v \<le> x div v * v" using assms(1) by (intro mult_right_mono) auto
  then show False using int_div_lower [OF assms(1), of x] assms(2) by linarith
qed

lemma int_div_ge:
  fixes x v k :: int
  assumes "0 < v" "k * v \<le> x"
  shows "k \<le> x div v"
proof (rule ccontr)
  assume "\<not> k \<le> x div v"
  then have "x div v + 1 \<le> k" by simp
  then have "(x div v + 1) * v \<le> k * v" using assms(1) by (intro mult_right_mono) auto
  then show False using int_div_upper [OF assms(1), of x] assms(2) by linarith
qed

lemma trial_bounds:
  fixes b u0 u1 u2 v0 v1 P Wr Vr q0 :: int
  assumes "0 \<le> u0" "0 \<le> u1" "u1 < b" "0 \<le> u2" "u2 < b" "1 \<le> v0" "v0 < b" "0 \<le> v1" "v1 < b"
    and "b \<le> 2 * v0 + 1" and "0 < P" and "0 \<le> Wr" "Wr < P" and "0 \<le> Vr" "Vr < P"
    and W: "W = (u0 * b * b + u1 * b + u2) * P + Wr" and V: "V = (v0 * b + v1) * P + Vr"
    and WV: "W < b * V"
    and q0: "q0 = (if v0 \<noteq> u0 then (u0 * b + u1) div v0 else b - 1)"
  shows "W div V \<le> q0" "q0 \<le> W div V + 2" "0 \<le> q0" "q0 < b" "u0 \<le> v0"
proof -
  have b0: "0 < b" using assms by linarith
  have bP: "0 < b * P" using b0 \<open>0 < P\<close> by simp
  have bbP: "0 < b * b * P" using b0 \<open>0 < P\<close> by simp
  have Vlo: "v0 * (b * P) \<le> V"
  proof -
    have "0 \<le> v1 * P" using assms by simp
    then show ?thesis unfolding V using \<open>0 \<le> Vr\<close> by (simp add: algebra_simps)
  qed
  have Vhi: "V < (v0 + 1) * (b * P)"
  proof -
    have "(v1 + 1) * P \<le> b * P" using assms by (intro mult_right_mono) auto
    then show ?thesis unfolding V using \<open>Vr < P\<close> by (simp add: algebra_simps)
  qed
  have Vpos: "0 < V"
  proof -
    have "1 * (b * P) \<le> v0 * (b * P)" using assms bP by (intro mult_right_mono) auto
    then show ?thesis using Vlo bP by linarith
  qed
  have Wlo: "(u0 * b + u1) * (b * P) \<le> W"
  proof -
    have "0 \<le> u2 * P" using assms by simp
    then show ?thesis unfolding W using \<open>0 \<le> Wr\<close> by (simp add: algebra_simps)
  qed
  have Whi: "W < (u0 * b + u1 + 1) * (b * P)"
  proof -
    have "(u2 + 1) * P \<le> b * P" using assms by (intro mult_right_mono) auto
    then show ?thesis unfolding W using \<open>Wr < P\<close> by (simp add: algebra_simps)
  qed
  show u0v0: "u0 \<le> v0"
  proof (rule ccontr)
    assume "\<not> u0 \<le> v0"
    then have "v0 + 1 \<le> u0" by simp
    then have "(v0 + 1) * (b * (b * P)) \<le> u0 * (b * (b * P))"
      using bP b0 by (intro mult_right_mono) auto
    moreover have "u0 * (b * (b * P)) \<le> (u0 * b + u1) * (b * P)"
    proof -
      have "0 \<le> u1 * (b * P)" using assms bP by simp
      then show ?thesis by (simp add: algebra_simps)
    qed
    moreover have "b * V < b * ((v0 + 1) * (b * P))"
      using Vhi b0 by simp
    ultimately show False using Wlo WV by (simp add: algebra_simps)
  qed
  have q0v0: "q0 * v0 \<le> u0 * b + u1"
  proof (cases "v0 = u0")
    case True
    then have "q0 * v0 = (b - 1) * v0" using q0 by simp
    also have "\<dots> = v0 * b - v0" by (simp add: algebra_simps)
    also have "\<dots> \<le> u0 * b + u1" using True assms(1,2,6) by simp
    finally show ?thesis .
  next
    case False
    then have "q0 = (u0 * b + u1) div v0" using q0 by simp
    then show ?thesis
      using assms(6) int_div_lower [of v0 "u0 * b + u1"] by simp
  qed
  have q0up: "u0 * b + u1 + 1 \<le> (q0 + 1) * v0" if "v0 \<noteq> u0"
  proof -
    have "q0 = (u0 * b + u1) div v0" using q0 that by simp
    then show ?thesis
      using assms(6) int_div_upper [of v0 "u0 * b + u1"] by simp
  qed
  show q0nn: "0 \<le> q0"
  proof (cases "v0 = u0")
    case True
    then show ?thesis using q0 assms by simp
  next
    case False
    have "0 \<le> u0 * b + u1" using assms b0 by simp
    then show ?thesis using q0 False assms(6) by (simp add: pos_imp_zdiv_nonneg_iff)
  qed
  show q0b: "q0 < b"
  proof (cases "v0 = u0")
    case True
    then show ?thesis using q0 by simp
  next
    case False
    then have "u0 + 1 \<le> v0" using u0v0 by simp
    then have "(u0 + 1) * b \<le> v0 * b" using b0 by (intro mult_right_mono) auto
    then have "u0 * b + u1 < v0 * b" using \<open>u1 < b\<close> by (simp add: algebra_simps)
    then have "(u0 * b + u1) div v0 < b"
      using assms(6) by (intro int_div_less) (simp_all add: algebra_simps)
    then show ?thesis using q0 False by simp
  qed
  have Wq: "W < (q0 + 1) * V"
  proof (cases "v0 = u0")
    case True
    then show ?thesis using q0 WV by simp
  next
    case False
    have "W < (u0 * b + u1 + 1) * (b * P)" by (rule Whi)
    also have "\<dots> \<le> ((q0 + 1) * v0) * (b * P)"
      using q0up [OF False] bP by (intro mult_right_mono) auto
    also have "\<dots> = (q0 + 1) * (v0 * (b * P))" by simp
    also have "\<dots> \<le> (q0 + 1) * V"
      using Vlo q0nn by (intro mult_left_mono) auto
    finally show ?thesis .
  qed
  show "W div V \<le> q0"
  proof -
    have "W div V < q0 + 1"
      using Wq Vpos by (intro int_div_less) simp_all
    then show ?thesis by simp
  qed
  define q where "q = W div V"
  have Wlt: "W < (q + 1) * V"
    using int_div_upper [OF Vpos, of W] by (simp add: q_def)
  have W0: "0 \<le> W"
  proof -
    have "0 \<le> (u0 * b + u1) * (b * P)" using assms b0 bP by simp
    then show ?thesis using Wlo by linarith
  qed
  have qnn: "0 \<le> q" using W0 Vpos by (simp add: q_def pos_imp_zdiv_nonneg_iff)
  have key: "q0 * v0 < (q + 1) * (v0 + 1)"
  proof -
    have "(q0 * v0) * (b * P) \<le> (u0 * b + u1) * (b * P)"
      using q0v0 bP by (intro mult_right_mono) auto
    also have "\<dots> \<le> W" by (rule Wlo)
    also have "\<dots> < (q + 1) * V" by (rule Wlt)
    also have "\<dots> \<le> (q + 1) * ((v0 + 1) * (b * P))"
      using Vhi qnn by (intro mult_left_mono) auto
    finally have "(q0 * v0) * (b * P) < ((q + 1) * (v0 + 1)) * (b * P)" by (simp add: algebra_simps)
    then show ?thesis using bP by (simp only: mult_less_cancel_right_pos)
  qed
  show "q0 \<le> W div V + 2"
  proof (rule ccontr)
    assume "\<not> q0 \<le> W div V + 2"
    then have "q + 3 \<le> q0" by (simp add: q_def)
    then have "(q + 3) * v0 \<le> q0 * v0" using assms(6) by (intro mult_right_mono) auto
    then have "(q + 3) * v0 < (q + 1) * (v0 + 1)" using key by linarith
    then have "2 * v0 \<le> q" by (simp add: algebra_simps)
    moreover have "q \<le> b - 4" using \<open>q + 3 \<le> q0\<close> q0b by linarith
    ultimately show False using \<open>b \<le> 2 * v0 + 1\<close> by linarith
  qed
qed

lemma refine_bounds:
  fixes b :: int and v0 v1 ui ui1 ui2 :: nat and P Wr Vr W V :: int
  assumes "int ui1 < b" "int ui2 < b" "1 \<le> v0" "int v0 < b" "int v1 < b"
    and "b \<le> 2 * int v0 + 1" and "0 < P" and "0 \<le> Wr" "Wr < P" and "0 \<le> Vr" "Vr < P"
    and W: "W = (int ui * b * b + int ui1 * b + int ui2) * P + Wr"
    and V: "V = (int v0 * b + int v1) * P + Vr"
    and WV: "W < b * V"
  shows "\<exists>q0. trial_digit exact b v0 ui ui1 = Some q0
     \<and> W div V \<le> int (refine exact b v0 v1 ui ui1 ui2 q0)
     \<and> int (refine exact b v0 v1 ui ui1 ui2 q0) \<le> W div V + 1
     \<and> int (refine exact b v0 v1 ui ui1 ui2 q0) < b"
proof -
  define q0i where "q0i = (if int v0 \<noteq> int ui then (int ui * b + int ui1) div int v0 else b - 1)"
  have d: "0 \<le> int ui" "0 \<le> int ui1" "0 \<le> int ui2" "1 \<le> int v0" "0 \<le> int v1"
    using assms(3) by simp_all
  note tbs = trial_bounds [OF d(1,2) assms(1) d(3) assms(2) d(4) assms(4) d(5) assms(5-11) W V WV q0i_def]
  have tb: "W div V \<le> q0i" "q0i \<le> W div V + 2" "0 \<le> q0i" "q0i < b" "int ui \<le> int v0"
    by (rule tbs)+
  have b0: "0 < b" using assms by linarith
  define q0 where "q0 = nat q0i"
  have q0: "int q0 = q0i" using tb(3) by (simp add: q0_def)
  have td: "trial_digit exact b v0 ui ui1 = Some q0"
    using assms(3) b0 by (auto simp: trial_digit_def q0_def q0i_def sdiv_nonneg)
  define q where "q = W div V"
  have Vpos: "0 < V"
  proof -
    have "1 * (b * P) \<le> int v0 * (b * P)"
      using assms b0 by (intro mult_right_mono) auto
    moreover have "0 \<le> int v1 * P" using assms by simp
    moreover have "0 < b * P" using b0 \<open>0 < P\<close> by simp
    moreover have "V = int v0 * (b * P) + int v1 * P + Vr" unfolding V by (simp add: algebra_simps)
    ultimately show ?thesis using \<open>0 \<le> Vr\<close> by linarith
  qed
  have gt: "q < int qh" if "overshoots exact b v0 v1 ui ui1 ui2 qh" for qh
  proof -
    have o: "int v1 * int qh > (int ui * b + int ui1 - int v0 * int qh) * b + int ui2"
      using that by (simp add: overshoots_def)
    have "0 \<le> int qh" by simp
    then have "W < int qh * V"
      by (rule overshoot_gt [OF _ assms(7) assms(10) assms(9) o W V])
    then show ?thesis unfolding q_def using Vpos by (intro int_div_less) simp_all
  qed
  have le: "int qh \<le> q + 1" if "\<not> overshoots exact b v0 v1 ui ui1 ui2 qh" "int qh \<le> b" for qh
  proof -
    have o: "\<not> int v1 * int qh > (int ui * b + int ui1 - int v0 * int qh) * b + int ui2"
      using that by (simp add: overshoots_def)
    have n: "0 \<le> int qh" "0 \<le> b" using b0 by simp_all
    have "(int qh - 1) * V \<le> W"
      by (rule no_overshoot_le [OF n(1) that(2) assms(7) assms(11) assms(8) d(4) d(5) assms(10) n(2) o W V])
    then have "int qh - 1 \<le> q" unfolding q_def using Vpos by (intro int_div_ge) simp_all
    then show ?thesis by simp
  qed
  have W0: "0 \<le> W"
    unfolding W using b0 assms(7,8)
    by (intro add_nonneg_nonneg mult_nonneg_nonneg) auto
  have qnn: "0 \<le> q"
    using W0 Vpos by (simp add: q_def pos_imp_zdiv_nonneg_iff)
  have tbq: "q \<le> int q0" "int q0 \<le> q + 2" "int q0 < b" "0 \<le> q"
    using tb q0 qnn by (simp_all add: q_def)
  define r where "r = refine exact b v0 v1 ui ui1 ui2 q0"
  have "q \<le> int r \<and> int r \<le> q + 1 \<and> int r < b"
  proof (cases "overshoots exact b v0 v1 ui ui1 ui2 q0")
    case False
    then have "r = q0" by (simp add: refine_def r_def)
    moreover have "int q0 \<le> q + 1" using tbq by (intro le [OF False]) linarith
    ultimately show ?thesis using tbq by simp
  next
    case o1: True
    have g1: "q < int q0" by (rule gt [OF o1])
    show ?thesis
    proof (cases "overshoots exact b v0 v1 ui ui1 ui2 (q0 - 1)")
      case False
      then have "r = q0 - 1" using o1 by (simp add: refine_def r_def)
      moreover have "int (q0 - 1) \<le> q + 1" using tbq by (intro le [OF False]) linarith
      moreover have "int (q0 - 1) = int q0 - 1" using g1 tbq by linarith
      ultimately show ?thesis using g1 tbq by linarith
    next
      case o2: True
      have g2: "q < int (q0 - 1)" by (rule gt [OF o2])
      have "r = q0 - 1 - 1" using o1 o2 by (simp add: refine_def r_def)
      moreover have "int (q0 - 1 - 1) = int q0 - 2" using g1 g2 tbq by linarith
      moreover have "int (q0 - 1) = int q0 - 1" using g1 tbq by linarith
      ultimately show ?thesis using g1 g2 tbq by linarith
    qed
  qed
  then show ?thesis using td by (auto simp: q_def r_def)
qed

lemma scale_digits_value:
  assumes "0 < b" "0 \<le> c" "scale_digits b d xs c = (ys, c')"
  shows "dval b (rev ys) + c' * b ^ length xs = int d * dval b (rev xs) + c
         \<and> digits_ok b ys \<and> 0 \<le> c' \<and> length ys = length xs"
  using assms
proof (induction xs arbitrary: c ys c')
  case Nil
  then show ?case by auto
next
  case (Cons x xs)
  define val where "val = int x * int d + c"
  obtain ys1 c2 where r: "scale_digits b d xs (val div b) = (ys1, c2)"
    by (cases "scale_digits b d xs (val div b)")
  have ys: "ys = nat (val mod b) # ys1" and c': "c' = c2"
    using Cons.prems(3) r by (auto simp: Let_def val_def)
  have val0: "0 \<le> val" using Cons.prems by (simp add: val_def)
  have q3: "0 \<le> val div b"
    using val0 Cons.prems(1) by (simp add: pos_imp_zdiv_nonneg_iff)
  have IH: "dval b (rev ys1) + c2 * b ^ length xs = int d * dval b (rev xs) + val div b
         \<and> digits_ok b ys1 \<and> 0 \<le> c2 \<and> length ys1 = length xs"
    by (rule Cons.IH [OF Cons.prems(1) q3 r])
  have m0: "0 \<le> val mod b" by (rule pos_mod_sign [OF Cons.prems(1)])
  have m: "int (nat (val mod b)) = val mod b" "val mod b < b"
    by (rule nat_0_le [OF m0], rule pos_mod_bound [OF Cons.prems(1)])
  have "dval b (rev ys) + c' * b ^ length (x # xs)
      = (dval b (rev ys1) + c2 * b ^ length xs) * b + val mod b"
    by (simp add: ys c' m m0 algebra_simps)
  also have "\<dots> = (int d * dval b (rev xs) + val div b) * b + val mod b"
    using IH by simp
  also have "\<dots> = int d * dval b (rev xs) * b + (val div b * b + val mod b)"
    by (simp add: algebra_simps)
  also have "val div b * b + val mod b = val" by simp
  also have "int d * dval b (rev xs) * b + val = int d * dval b (rev (x # xs)) + c"
    by (simp add: val_def algebra_simps)
  finally show ?case
    using IH m m0 by (simp add: ys c')
qed

lemma put_window_single: "co < length cs \<Longrightarrow> cs[co := x] = put_window cs co [x]"
  by (simp add: put_window_def upd_conv_take_nth_drop)

lemma arb_mul_loop_eq:
  assumes "fst a \<noteq> fst c"
    "snd a = int ao" "ao + n \<le> length (s (fst a))"
    "snd c = int co" "co + n < length (s (fst c))"
    "0 < b" "0 \<le> carry"
    "scale_digits b d (rev (window (s (fst a)) ao n)) carry = (ys, c')"
  shows "arb_mul_loop exact s a d c b n carry =
           Some (s(fst c := put_window (s (fst c)) co (nat c' # rev ys)))"
  using assms
proof (induction n arbitrary: s carry ys c')
  case 0
  then show ?case
    by (simp add: window_def wr_at [where n = co] put_window_single fun_eq_iff)
next
  case (Suc m)
  define xs cs where "xs = s (fst a)" and "cs = s (fst c)"
  define val where "val = int (xs ! (ao + m)) * int d + carry"
  define dig where "dig = nat (val mod b)"
  define s' where "s' = s(fst c := cs[co + Suc m := dig])"
  have val0: "0 \<le> val" using Suc.prems by (simp add: val_def)
  have w: "window xs ao (Suc m) = window xs ao m @ [xs ! (ao + m)]"
    using Suc.prems window_snoc [of ao m xs] by (simp add: xs_def)
  obtain ys1 c2 where r: "scale_digits b d (rev (window xs ao m)) (val div b) = (ys1, c2)"
    by (cases "scale_digits b d (rev (window xs ao m)) (val div b)")
  have ys: "ys = dig # ys1" and c': "c' = c2"
    using Suc.prems(8) r unfolding xs_def [symmetric] w
    by (auto simp: Let_def val_def dig_def)
  have ly: "length ys1 = m"
    using length_scale_digits [OF r] Suc.prems
    by (simp add: length_window xs_def)
  have step: "arb_mul_loop exact s a d c b (Suc m) carry = arb_mul_loop exact s' a d c b m (val div b)"
    using Suc.prems val0
    by (simp add: rd_at [where n = "ao + m"] wr_at [where n = "co + Suc m"] Let_def
        sdiv_nonneg smod_nonneg s'_def val_def dig_def xs_def cs_def)
  have s'c: "s' (fst c) = cs[co + Suc m := dig]" and s'a: "s' (fst a) = xs"
    using Suc.prems(1) by (auto simp: s'_def xs_def)
  have q1: "ao + m \<le> length (s' (fst a))" "co + m < length (s' (fst c))"
    using Suc.prems by (auto simp: s'_def cs_def)
  have q2: "scale_digits b d (rev (window (s' (fst a)) ao m)) (val div b) = (ys1, c2)"
    unfolding s'a by (rule r)
  have q3: "0 \<le> val div b"
    using val0 Suc.prems(6) by (simp add: pos_imp_zdiv_nonneg_iff)
  have IH: "arb_mul_loop exact s' a d c b m (val div b) =
     Some (s'(fst c := put_window (s' (fst c)) co (nat c2 # rev ys1)))"
    by (rule Suc.IH [OF Suc.prems(1,2) q1(1) Suc.prems(4) q1(2) Suc.prems(6) q3 q2])
  have pw: "put_window (cs[co + Suc m := dig]) co (nat c2 # rev ys1) = put_window cs co (nat c' # rev ys)"
    using put_window_snoc [of co "Suc m" cs "nat c2 # rev ys1" dig] Suc.prems ly
    by (simp add: ys c' cs_def)
  show ?case
    unfolding step IH s'c pw by (simp add: s'_def cs_def fun_eq_iff)
qed

declare skip_zeros.simps [simp del] div_loop.simps [simp del] remove_leading_zeros.simps [simp del]

lemma put_window_zeros_front:
  "put_window (replicate (n + k) 0) 0 xs = xs @ replicate (n + k - length xs) 0"
  by (simp add: put_window_def)

lemma arb_div_setup_eq:
  assumes "len num \<le> length (number num)" "len den \<le> length (number den)"
  shows "arb_div_setup junk num den offset = Some (setup_store junk num den offset)"
proof -
  define s0 :: store where "s0 = (\<lambda>_. [])(blk_num := number num, blk_den := number den)"
  define s1 where "s1 = s0(blk_u := replicate (len num + offset + 3) 0)"
  define s2 where "s2 = s1(blk_u := 0 # fx_digits num @ replicate (offset + 2) 0)"
  define s3 where "s3 = s2(blk_v := replicate (len den + offset + 3) 0)"
  define s4 where "s4 = s3(blk_v := fx_digits den @ replicate (offset + 3) 0)"
  have c1: "arb_copy_core s1 (blk_u, 1) (blk_num, 0) (len num) =
      Some (s1(fst (blk_u, 1::int) := put_window (s1 (fst (blk_u, 1::int))) 1
              (window (s1 (fst (blk_num, 0::int))) 0 (len num))))"
    using assms by (intro arb_copy_core_eq) (simp_all add: s1_def s0_def blk_defs)
  have w1: "put_window (s1 (fst (blk_u, 1::int))) 1 (window (s1 (fst (blk_num, 0::int))) 0 (len num))
      = 0 # fx_digits num @ replicate (offset + 2) 0"
    using assms
    by (simp add: s1_def s0_def blk_defs put_window_def window_def fx_digits_def min_def
        flip: replicate_add)
  have e1: "arb_copy_core s1 (blk_u, 1) (blk_num, 0) (len num) = Some s2"
    unfolding c1 w1 by (simp add: s2_def s1_def)
  have c2: "arb_copy_core s3 (blk_v, 0) (blk_den, 0) (len den) =
      Some (s3(fst (blk_v, 0::int) := put_window (s3 (fst (blk_v, 0::int))) 0
              (window (s3 (fst (blk_den, 0::int))) 0 (len den))))"
    using assms
    by (intro arb_copy_core_eq) (simp_all add: s3_def s2_def s1_def s0_def blk_defs)
  have w2: "put_window (s3 (fst (blk_v, 0::int))) 0 (window (s3 (fst (blk_den, 0::int))) 0 (len den))
      = fx_digits den @ replicate (offset + 3) 0"
    using assms
    by (simp add: s3_def s2_def s1_def s0_def blk_defs put_window_def window_def fx_digits_def min_def)
  have e2: "arb_copy_core s3 (blk_v, 0) (blk_den, 0) (len den) = Some s4"
    unfolding c2 w2 by (simp add: s4_def s3_def)
  have "arb_div_setup junk num den offset = Some (s4(blk_t := arb_malloc junk (len den + 1)))"
    unfolding arb_div_setup_def Let_def
    using e1 e2 by (simp add: s0_def s1_def s3_def)
  also have "s4(blk_t := arb_malloc junk (len den + 1)) = setup_store junk num den offset"
    by (simp add: setup_store_def s4_def s3_def s2_def s1_def s0_def blk_defs fun_eq_iff)
  finally show ?thesis .
qed

lemma skip_zeros_eq:
  assumes "snd v = int po" "drop po (s (fst v)) = replicate k 0 @ d # rest" "d \<noteq> 0"
  shows "skip_zeros s v leb = Some ((fst v, int (po + k)), leb - k)"
  using assms
proof (induction k arbitrary: v po leb)
  case 0
  then have "po < length (s (fst v))" "s (fst v) ! po = d"
    by (metis drop_eq_Nil2 leI list.distinct(1) append_Nil replicate_0,
        metis Cons_nth_drop_Suc append_Nil drop_eq_Nil2 leI list.distinct(1) list.inject replicate_0)
  then show ?case
    using 0 by (cases v) (subst skip_zeros.simps, simp add: in_block_def)
next
  case (Suc k)
  have in_range: "po < length (s (fst v))"
    using Suc.prems(2) by (metis drop_eq_Nil2 leI list.distinct(1) append_Cons replicate_Suc)
  have hd: "s (fst v) ! po = 0" and tl: "drop (Suc po) (s (fst v)) = replicate k 0 @ d # rest"
    using Suc.prems(2) in_range by (simp_all flip: Cons_nth_drop_Suc)
  have "skip_zeros s (idx v 1) (leb - 1) = Some ((fst (idx v 1), int (Suc po + k)), leb - 1 - k)"
    using Suc.prems tl by (intro Suc.IH) simp_all
  then show ?case
    using in_range hd Suc.prems(1) by (subst skip_zeros.simps) (simp add: in_block_def)
qed

lemma takeWhile_zeros: "takeWhile (\<lambda>d. d = 0) xs = replicate (lead_zeros xs) (0::nat)"
  unfolding lead_zeros_def
  by (induction xs) auto

lemma split_lead_zeros:
  assumes "\<not> list_all (\<lambda>d. d = 0) xs"
  shows "\<exists>d rest. xs = replicate (lead_zeros xs) 0 @ d # rest \<and> d \<noteq> 0"
proof -
  have ne: "dropWhile (\<lambda>d. d = 0) xs \<noteq> []"
    using assms by (simp add: list_all_iff)
  then obtain d rest where dr: "dropWhile (\<lambda>d. d = 0) xs = d # rest"
    by (cases "dropWhile (\<lambda>d. d = 0) xs") auto
  have "d \<noteq> 0"
    using hd_dropWhile [OF ne] dr by simp
  moreover have "xs = takeWhile (\<lambda>d. d = 0) xs @ dropWhile (\<lambda>d. d = 0) xs"
    by simp
  ultimately show ?thesis
    unfolding dr takeWhile_zeros by blast
qed

lemma length_fx_digits: "fx_ok b a \<Longrightarrow> length (fx_digits a) = len a"
  by (simp add: fx_ok_def fx_digits_def)

lemma dval_replicate_zeros [simp]: "dval b (replicate n 0 @ xs) = dval b xs"
  by (induction n) (simp_all add: dval_Cons)

lemma dval_zeros [simp]: "dval b (replicate n 0) = 0"
  using dval_replicate_zeros [of b n "[]"] by simp

lemma arb_div_prepare_eq:
  assumes "fx_ok b num" "fx_ok b den" "iszero den \<noteq> 0"
  shows "arb_div_prepare junk num den scale =
     Some (setup_store junk num den (offset_of num den scale),
           (blk_v, int (lead_zeros (fx_digits den))),
           len den - lead_zeros (fx_digits den))"
proof -
  define s where "s = setup_store junk num den (offset_of num den scale)"
  have nz: "\<not> list_all (\<lambda>d. d = 0) (fx_digits den)"
    using assms(3) by (simp add: iszero_def fx_digits_def split: if_splits)
  obtain d rest where dr: "fx_digits den = replicate (lead_zeros (fx_digits den)) 0 @ d # rest" "d \<noteq> 0"
    using split_lead_zeros [OF nz] by blast
  have sv: "s (fst (blk_v, 0::int)) = fx_digits den @ replicate (offset_of num den scale + 3) 0"
    by (simp add: s_def setup_store_def blk_defs)
  have "drop 0 (s (fst (blk_v, 0::int))) =
      replicate (lead_zeros (fx_digits den)) 0 @ d # (rest @ replicate (offset_of num den scale + 3) 0)"
    unfolding sv by (subst dr(1)) simp
  then have "skip_zeros s (blk_v, 0) (len den) =
      Some ((fst (blk_v, 0::int), int (0 + lead_zeros (fx_digits den))), len den - lead_zeros (fx_digits den))"
    using dr(2) by (intro skip_zeros_eq) simp_all
  moreover have "arb_div_setup junk num den (offset_of num den scale) = Some s"
    using assms by (simp add: arb_div_setup_eq fx_ok_def s_def)
  ultimately show ?thesis
    by (simp add: arb_div_prepare_def s_def)
qed

lemma norm_lead_digit:
  fixes b v :: int
  assumes "1 \<le> v" "v < b"
  shows "b \<le> 2 * (v * (b div (v + 1))) + 1" "1 \<le> b div (v + 1)" "(v + 1) * (b div (v + 1)) \<le> b"
proof -
  define n where "n = b div (v + 1)"
  have v1: "0 < v + 1" using assms by simp
  show n1: "1 \<le> b div (v + 1)"
    using assms v1 by (intro int_div_ge) simp_all
  have up: "b < (n + 1) * (v + 1)"
    unfolding n_def by (rule int_div_upper [OF v1])
  have "0 \<le> (n - 1) * (v - 1)"
    using n1 assms by (simp add: n_def)
  then have "n + v \<le> n * v + 1" by (simp add: algebra_simps)
  moreover have "b \<le> n * v + n + v" using up by (simp add: algebra_simps)
  ultimately have "b \<le> 2 * (v * n) + 1" by (simp add: algebra_simps)
  then show "b \<le> 2 * (v * (b div (v + 1))) + 1" by (simp add: n_def)
  show "(v + 1) * (b div (v + 1)) \<le> b"
    using int_div_lower [OF v1, of b] by (simp add: algebra_simps)
qed

lemma shmul_in_place:
  assumes "snd p = int po" "po + n \<le> length (s (fst p))" "0 < b"
    "digits_ok b (window (s (fst p)) po n)"
    "int d * dval b (window (s (fst p)) po n) < b ^ n"
  shows "\<exists>ys. shmul exact s p n d p b = Some (s(fst p := put_window (s (fst p)) po ys))
     \<and> length ys = n \<and> digits_ok b ys
     \<and> dval b ys = int d * dval b (window (s (fst p)) po n)"
proof -
  define xs src where "xs = s (fst p)" and "src = window (s (fst p)) po n"
  have ls: "length src = n"
    using assms by (simp add: src_def length_window)
  consider "d = 0" | "d = 1" | "d \<noteq> 0" "d \<noteq> 1" by blast
  then show ?thesis
  proof cases
    case 1
    have "shmul exact s p n d p b = Some (s(fst p := put_window xs po (replicate n 0)))"
      using 1 assms arb_memset_eq [of p po n s 0] by (simp add: shmul_def xs_def)
    then show ?thesis
      using 1 assms(3) by (intro exI [of _ "replicate n 0"]) (simp add: xs_def digits_ok_def list_all_iff)
  next
    case 2
    have "shmul exact s p n d p b = Some (s(fst p := put_window xs po src))"
      using 2 arb_copy_core_eq [of p p po n s po] assms by (simp add: shmul_def xs_def src_def)
    then show ?thesis
      using 2 assms(4) ls by (intro exI [of _ src]) (simp add: xs_def src_def)
  next
    case 3
    obtain ys c where r: "scale_digits b d (rev src) 0 = (ys, c)"
      by (cases "scale_digits b d (rev src) 0")
    have v: "dval b (rev ys) + c * b ^ length (rev src) = int d * dval b (rev (rev src)) + 0
         \<and> digits_ok b ys \<and> 0 \<le> c \<and> length ys = length (rev src)"
      using assms(3) r by (intro scale_digits_value) simp_all
    have c0: "c = 0"
    proof (rule ccontr)
      assume "c \<noteq> 0"
      then have "1 \<le> c" using v by simp
      then have "1 * b ^ n \<le> c * b ^ n" using assms(3) by (intro mult_right_mono) auto
      moreover have "0 \<le> dval b (rev ys)" using assms(3) by (intro dval_nonneg) simp
      ultimately show False using v assms(5) ls by (simp add: src_def)
    qed
    have loop: "shmul_loop exact s p d p b n 0 = Some (s(fst p := put_window (s (fst p)) po (rev ys)), c)"
      using assms r by (intro shmul_loop_eq) (simp_all add: src_def)
    have "shmul exact s p n d p b = Some (s(fst p := put_window xs po (rev ys)))"
      using 3 loop c0 by (simp add: shmul_def xs_def)
    then show ?thesis
      using v c0 ls by (intro exI [of _ "rev ys"]) (simp add: xs_def src_def)
  qed
qed

lemma blk_distinct [simp]:
  "blk_u \<noteq> blk_v" "blk_u \<noteq> blk_t" "blk_v \<noteq> blk_u" "blk_v \<noteq> blk_t"
  "blk_t \<noteq> blk_u" "blk_t \<noteq> blk_v"
  by (simp_all add: blk_defs)

lemma dval_lead:
  assumes "digits_ok b (x # xs)" "0 < b"
  shows "int x * b ^ length xs \<le> dval b (x # xs)" "dval b (x # xs) < (int x + 1) * b ^ length xs"
  using dval_less [of b xs] dval_nonneg [of b xs] assms
  by (simp_all add: dval_Cons algebra_simps)

lemma lead_digit_ge:
  assumes "digits_ok b (y # ys)" "0 < b" "k * b ^ length ys \<le> dval b (y # ys)"
  shows "k \<le> int y"
proof (rule ccontr)
  assume "\<not> k \<le> int y"
  then have "int y + 1 \<le> k" by simp
  then have "(int y + 1) * b ^ length ys \<le> k * b ^ length ys"
    using assms(2) by (intro mult_right_mono) auto
  then show False using dval_lead(2) [OF assms(1,2)] assms(3) by linarith
qed

lemma window_full_take: "window xs 0 n = take n xs"
  by (simp add: window_def)

lemma normalise_eq:
  assumes b: "2 \<le> b"
    and vp: "snd v = int z" and vb: "fst v = blk_v"
    and vs: "window (s blk_v) z leb = v0 # vrest" "z + leb \<le> length (s blk_v)"
    and vok: "digits_ok b (v0 # vrest)" "v0 \<noteq> 0"
    and us: "usize \<le> length (s blk_u)" "0 < usize" "s blk_u ! 0 = 0"
    and uok: "digits_ok b (window (s blk_u) 0 usize)"
  shows "\<exists>ys_u ys_v. normalise exact s v leb b usize =
        Some (s(blk_u := put_window (s blk_u) 0 ys_u, blk_v := put_window (s blk_v) z ys_v))
     \<and> length ys_u = usize \<and> digits_ok b ys_u
     \<and> dval b ys_u = int (norm_of exact b v0) * dval b (window (s blk_u) 0 usize)
     \<and> length ys_v = leb \<and> digits_ok b ys_v
     \<and> dval b ys_v = int (norm_of exact b v0) * dval b (v0 # vrest)
     \<and> int (norm_of exact b v0) = b div (int v0 + 1)
     \<and> 1 \<le> norm_of exact b v0"
proof -
  have b0: "0 < b" using b by simp
  have v0b: "1 \<le> int v0" "int v0 < b" using vok by simp_all
  note nl = norm_lead_digit [OF v0b]
  define norm where "norm = norm_of exact b v0"
  have sd: "b sdiv (int v0 + 1) = b div (int v0 + 1)"
    using b0 by (intro sdiv_nonneg) simp_all
  have norm: "int norm = b div (int v0 + 1)"
    using nl(2) sd unfolding norm_def norm_of_def by simp
  have norm1: "1 \<le> norm" using nl(2) norm by linarith
  have lv: "length (v0 # vrest) = leb"
    using vs length_window [of z leb "s blk_v"] by (metis)
  have rdv: "rd s v = Some v0"
  proof -
    have "z < length (s blk_v)" using vs lv by auto
    moreover have "s blk_v ! z = v0"
      using vs(1) \<open>z < length (s blk_v)\<close> lv
      by (metis window_Cons list.inject Suc_pred length_greater_0_conv list.distinct(1) length_Cons zero_less_Suc)
    ultimately show ?thesis using vp vb by (simp add: rd_at [where n = z])
  qed
  define A where "A = dval b (window (s blk_u) 0 usize)"
  have Alt: "A < b ^ (usize - 1)"
  proof -
    obtain m where m: "usize = Suc m" using us(2) by (cases usize) auto
    have "0 < length (s blk_u)" using us by linarith
    then have "window (s blk_u) 0 usize = 0 # window (s blk_u) 1 m"
      using window_Cons [of 0 "s blk_u" m] us(3) m by simp
    then have "A = dval b (window (s blk_u) 1 m)" "digits_ok b (window (s blk_u) 1 m)"
      using uok by (simp_all add: A_def dval_Cons)
    moreover have "length (window (s blk_u) 1 m) = m"
      using us m by (simp add: length_window)
    ultimately show ?thesis using dval_less [of b "window (s blk_u) 1 m"] m by simp
  qed
  have uov: "int norm * A < b ^ usize"
  proof -
    have "int norm \<le> b"
      using nl(3) v0b norm b0
      by (smt (verit) mult_le_cancel_right1 mult.commute)
    moreover have "0 \<le> A" unfolding A_def using b0 by (intro dval_nonneg) simp
    ultimately have "int norm * A \<le> b * A" by (intro mult_right_mono) auto
    also have "\<dots> < b * b ^ (usize - 1)" using Alt b0 by simp
    also have "\<dots> = b ^ usize" using us(2) by (cases usize) auto
    finally show ?thesis .
  qed
  have vov: "int norm * dval b (v0 # vrest) < b ^ leb"
  proof -
    have "dval b (v0 # vrest) < (int v0 + 1) * b ^ length vrest"
      by (rule dval_lead(2) [OF vok(1) b0])
    then have "int norm * dval b (v0 # vrest) < int norm * ((int v0 + 1) * b ^ length vrest)"
      using norm1 by simp
    also have "\<dots> = ((int v0 + 1) * (b div (int v0 + 1))) * b ^ length vrest"
      by (simp add: norm algebra_simps)
    also have "\<dots> \<le> b * b ^ length vrest"
      using nl(3) b0 by (intro mult_right_mono) auto
    also have "\<dots> = b ^ leb" using lv by auto
    finally show ?thesis .
  qed
  show ?thesis
  proof (cases "norm = 1")
    case True
    have "normalise exact s v leb b usize = Some s"
      using rdv True by (simp add: normalise_def norm_def)
    moreover have "put_window (s blk_u) 0 (window (s blk_u) 0 usize) = s blk_u"
      "put_window (s blk_v) z (window (s blk_v) z leb) = s blk_v"
      using us(1) vs(2) by simp_all
    then have "s = s(blk_u := put_window (s blk_u) 0 (window (s blk_u) 0 usize),
        blk_v := put_window (s blk_v) z (window (s blk_v) z leb))"
      by (simp add: fun_eq_iff)
    ultimately show ?thesis
      using True uok vok vs us lv norm norm1 unfolding norm_def [symmetric]
      by (intro exI [of _ "window (s blk_u) 0 usize"] exI [of _ "v0 # vrest"])
         (simp add: length_window)
  next
    case False
    obtain ys_u where yu: "shmul exact s (blk_u, 0) usize norm (blk_u, 0) b =
        Some (s(fst (blk_u, 0::int) := put_window (s (fst (blk_u, 0::int))) 0 ys_u))"
      "length ys_u = usize" "digits_ok b ys_u"
      "dval b ys_u = int norm * dval b (window (s (fst (blk_u, 0::int))) 0 usize)"
      using shmul_in_place [of "(blk_u, 0)" 0 usize s b norm] us uok uov b0
      by (auto simp: A_def)
    define s' where "s' = s(blk_u := put_window (s blk_u) 0 ys_u)"
    have s'v: "s' (fst v) = s blk_v"
      using vb by (simp add: s'_def blk_defs)
    obtain ys_v where yv: "shmul exact s' v leb norm v b =
        Some (s'(fst v := put_window (s' (fst v)) z ys_v))"
      "length ys_v = leb" "digits_ok b ys_v"
      "dval b ys_v = int norm * dval b (window (s' (fst v)) z leb)"
      using shmul_in_place [of v z leb s' b norm] vp vs vok vov b0
      by (auto simp: s'v)
    have "normalise exact s v leb b usize =
        Some (s(blk_u := put_window (s blk_u) 0 ys_u, blk_v := put_window (s blk_v) z ys_v))"
      using rdv False yu(1) yv(1) vb
      by (simp add: normalise_def s'_def norm_def s'v [unfolded s'_def])
    then show ?thesis
      using yu yv norm norm1 vs unfolding norm_def [symmetric]
      by (intro exI [of _ ys_u] exI [of _ ys_v]) (simp add: s'v)
  qed
qed

lemma div_shift:
  fixes W V b r :: int
  assumes "0 < V" "0 < b" "0 \<le> r" "r < b"
  shows "(W * b + r) div (V * b) = W div V"
proof -
  have "(W * b + r) div (V * b) = (W * b + r) div (b * V)" by (simp add: mult.commute)
  also have "\<dots> = ((W * b + r) div b) div V"
    using assms(1) by (intro zdiv_zmult2_eq) simp
  also have "(W * b + r) div b = W"
    using assms by (simp add: div_pos_pos_trivial)
  finally show ?thesis .
qed

lemma window_3:
  assumes "i + m + 3 \<le> length xs"
  shows "window xs i (Suc (Suc (Suc m))) = xs ! i # xs ! (i + 1) # xs ! (i + 2) # window xs (i + 3) m"
  using assms window_Cons [of i xs "Suc (Suc m)"] window_Cons [of "Suc i" xs "Suc m"]
    window_Cons [of "Suc (Suc i)" xs m]
  by (simp add: numeral_3_eq_3)

lemma window_2:
  assumes "i + m + 2 \<le> length xs"
  shows "window xs i (Suc (Suc m)) = xs ! i # xs ! (i + 1) # window xs (i + 2) m"
  using assms window_Cons [of i xs "Suc m"] window_Cons [of "Suc i" xs m]
  by simp

lemma digits_ok_window:
  "digits_ok b xs \<Longrightarrow> digits_ok b (window xs p n)"
  unfolding digits_ok_def window_def list_all_iff
  by (auto dest: in_set_takeD in_set_dropD)

lemma digits_ok_nth: "digits_ok b xs \<Longrightarrow> n < length xs \<Longrightarrow> int (xs ! n) < b"
  by (simp add: digits_ok_def list_all_length)

lemma window_step:
  assumes "i + leb < length us"
  shows "dval b (window us i (Suc leb)) = dval b (window us i leb) * b + int (us ! (i + leb))"
  using window_snoc [OF assms] by simp

lemma guess_bounds:
  assumes st: "div_static b V1 z leb"
    and inv: "div_inv b U1 V1 z leb j0 s q i"
    and room: "i + leb + 2 < length U1"
  shows "\<exists>q0 qg. trial_digit exact b (V1 ! z) (s blk_u ! i) (s blk_u ! (i + 1)) = Some q0
     \<and> qg = refine exact b (V1 ! z) (V1 ! (z + 1)) (s blk_u ! i) (s blk_u ! (i + 1)) (s blk_u ! (i + 2)) q0
     \<and> guess exact s (blk_v, int z) b i = Some qg
     \<and> dval b (window (s blk_u) i (Suc leb)) div dval b (window V1 z leb) \<le> int qg
     \<and> int qg \<le> dval b (window (s blk_u) i (Suc leb)) div dval b (window V1 z leb) + 1
     \<and> int qg < b"
proof -
  define us where "us = s blk_u"
  define W V where "W = dval b (window us i (Suc leb))" and "V = dval b (window V1 z leb)"
  have b: "2 \<le> b" "0 < b" and leb: "1 \<le> leb" and zl: "z + leb < length V1"
    and pad: "V1 ! (z + leb) = 0" and vok: "digits_ok b (window V1 z leb)"
    and nrm: "b \<le> 2 * int (V1 ! z) + 1"
    using st by (simp_all add: div_static_def)
  have sv: "s blk_v = V1" and lu: "length us = length U1" and uok: "digits_ok b us"
    and rem: "dval b (window us i leb) < V"
    using inv by (simp_all add: div_inv_def us_def V_def)
  define v0 v1 ui ui1 ui2 where "v0 = V1 ! z" and "v1 = V1 ! (z + 1)"
    and "ui = us ! i" and "ui1 = us ! (i + 1)" and "ui2 = us ! (i + 2)"
  have reads: "rd s (blk_v, int z) = Some v0" "rd s (idx (blk_v, int z) 1) = Some v1"
    "rd s (blk_u, int i) = Some ui" "rd s (blk_u, int i + 1) = Some ui1"
    "rd s (blk_u, int i + 2) = Some ui2"
    using zl leb room lu sv
    by (simp_all add: rd_at [where n = z] rd_at [where n = "z + 1"] rd_at [where n = i]
        rd_at [where n = "i + 1"] rd_at [where n = "i + 2"]
        v0_def v1_def ui_def ui1_def ui2_def us_def)
  have dig: "int ui1 < b" "int ui2 < b" "int v0 < b" "1 \<le> v0"
  proof -
    show "int ui1 < b" "int ui2 < b"
      using uok room lu by (simp_all add: ui1_def ui2_def digits_ok_nth)
    have "window V1 z leb ! 0 = v0"
      using zl leb by (simp add: window_def v0_def)
    moreover have "0 < length (window V1 z leb)" using zl leb by (simp add: length_window)
    ultimately show "int v0 < b" using digits_ok_nth [OF vok, of 0] by simp
    show "1 \<le> v0" using nrm b by (simp add: v0_def)
  qed
  have WV: "W < b * V"
  proof -
    have "W = dval b (window us i leb) * b + int (us ! (i + leb))"
      unfolding W_def using room lu by (intro window_step) simp
    moreover have "int (us ! (i + leb)) < b"
      using uok room lu by (simp add: digits_ok_nth)
    moreover have "(dval b (window us i leb) + 1) * b \<le> V * b"
      using rem b(2) by (intro mult_right_mono) auto
    ultimately show ?thesis by (simp add: algebra_simps)
  qed
  have Vpos: "0 < V"
  proof -
    have "0 \<le> dval b (window us i leb)" using b(2) by (intro dval_nonneg) simp
    then show ?thesis using rem by linarith
  qed
  have "\<exists>q0. trial_digit exact b v0 ui ui1 = Some q0
     \<and> W div V \<le> int (refine exact b v0 v1 ui ui1 ui2 q0)
     \<and> int (refine exact b v0 v1 ui ui1 ui2 q0) \<le> W div V + 1
     \<and> int (refine exact b v0 v1 ui ui1 ui2 q0) < b"
  proof (cases "leb = 1")
    case True
    have v1z: "v1 = 0" using pad True by (simp add: v1_def)
    have Vv: "V = int v0"
      using True zl by (simp add: V_def window_def v0_def take_Suc_conv_app_nth [of 0] hd_drop_conv_nth dval_Cons)
    have Ww: "W = int ui * b + int ui1"
      using window_2 [of i 0 us] room lu True
      by (simp add: W_def ui_def ui1_def dval_Cons window_def)
    define W' V' where "W' = (int ui * b * b + int ui1 * b + int ui2) * 1 + 0"
      and "V' = (int v0 * b + int v1) * 1 + 0"
    have e: "W' = W * b + int ui2" "V' = V * b"
      by (simp_all add: W'_def V'_def Ww Vv v1z algebra_simps)
    have lt: "W' < b * V'"
    proof -
      have "(W + 1) * b \<le> (b * V) * b" using WV b(2) by (intro mult_right_mono) auto
      then show ?thesis using dig(2) unfolding e by (simp add: algebra_simps)
    qed
    have "W' div V' = W div V"
      unfolding e using Vpos b(2) dig(2) by (intro div_shift) simp_all
    moreover have "\<exists>q0. trial_digit exact b v0 ui ui1 = Some q0
       \<and> W' div V' \<le> int (refine exact b v0 v1 ui ui1 ui2 q0)
       \<and> int (refine exact b v0 v1 ui ui1 ui2 q0) \<le> W' div V' + 1
       \<and> int (refine exact b v0 v1 ui ui1 ui2 q0) < b"
      using dig nrm b lt v1z
      by (intro refine_bounds [where P = 1 and Wr = 0 and Vr = 0])
         (simp_all add: W'_def V'_def v0_def)
    ultimately show ?thesis by simp
  next
    case False
    then obtain m where m: "leb = Suc (Suc m)" using leb by (cases leb; cases "leb - 1") auto
    define P Wr Vr where "P = b ^ m" and "Wr = dval b (window us (i + 3) m)"
      and "Vr = dval b (window V1 (z + 2) m)"
    have wu: "window us i (Suc leb) = ui # ui1 # ui2 # window us (i + 3) m"
      unfolding m ui_def ui1_def ui2_def using room lu m by (intro window_3) simp
    have wv: "window V1 z leb = v0 # v1 # window V1 (z + 2) m"
      unfolding m v0_def v1_def using zl m by (intro window_2) simp
    have lw: "length (window us (i + 3) m) = m" "length (window V1 (z + 2) m) = m"
      using room lu zl m by (simp_all add: length_window)
    have W: "W = (int ui * b * b + int ui1 * b + int ui2) * P + Wr"
      unfolding W_def wu using lw by (simp add: dval_Cons P_def Wr_def algebra_simps)
    have V: "V = (int v0 * b + int v1) * P + Vr"
      unfolding V_def wv using lw by (simp add: dval_Cons P_def Vr_def algebra_simps)
    have v1b: "int v1 < b"
      using vok unfolding wv by simp
    have r: "0 \<le> Wr" "Wr < P" "0 \<le> Vr" "Vr < P" "0 < P"
    proof -
      show "0 \<le> Wr" "0 \<le> Vr" unfolding Wr_def Vr_def using b(2) by (simp_all add: dval_nonneg)
      have "digits_ok b (window us (i + 3) m)" using uok by (rule digits_ok_window)
      then show "Wr < P" using dval_less [of b "window us (i + 3) m"] lw by (simp add: Wr_def P_def)
      have "digits_ok b (window V1 (z + 2) m)" using vok unfolding wv by simp
      then show "Vr < P" using dval_less [of b "window V1 (z + 2) m"] lw by (simp add: Vr_def P_def)
      show "0 < P" using b(2) by (simp add: P_def)
    qed
    show ?thesis
      using dig v1b nrm r W V WV
      by (intro refine_bounds [where P = P and Wr = Wr and Vr = Vr]) (simp_all add: v0_def)
  qed
  then obtain q0 where q0: "trial_digit exact b v0 ui ui1 = Some q0"
    "W div V \<le> int (refine exact b v0 v1 ui ui1 ui2 q0)"
    "int (refine exact b v0 v1 ui ui1 ui2 q0) \<le> W div V + 1"
    "int (refine exact b v0 v1 ui ui1 ui2 q0) < b"
    by blast
  have "guess exact s (blk_v, int z) b i = Some (refine exact b v0 v1 ui ui1 ui2 q0)"
    unfolding guess_def reads by (simp add: q0(1))
  then show ?thesis
    using q0 unfolding W_def V_def us_def v0_def v1_def ui_def ui1_def ui2_def
    by (intro exI [of _ q0] exI [of _ "refine exact b (V1 ! z) (V1 ! (z + 1)) (s blk_u ! i) (s blk_u ! (i + 1)) (s blk_u ! (i + 2)) q0"]) simp
qed

lemma mul_then_sub:
  assumes st: "div_static b V1 z leb"
    and sv: "s blk_v = V1" and tl: "leb < length (s blk_t)"
    and uok: "digits_ok b (s blk_u)" and room: "i + leb < length (s blk_u)"
    and qb: "int qg < b"
  shows "\<exists>ts' zs borrow.
       arb_mul_core exact s (blk_v, int z) leb qg (blk_t, 0) b = Some (s(blk_t := ts'))
     \<and> long_sub exact (s(blk_t := ts')) (blk_u, int leb) (int i) (blk_t, 0) leb b
         = Some (s(blk_t := ts', blk_u := put_window (s blk_u) i zs), borrow)
     \<and> length ts' = length (s blk_t) \<and> length zs = Suc leb \<and> digits_ok b zs
     \<and> dval b zs = dval b (window (s blk_u) i (Suc leb)) - int qg * dval b (window V1 z leb)
                     + borrow * b ^ Suc leb
     \<and> borrow = (if dval b (window (s blk_u) i (Suc leb)) < int qg * dval b (window V1 z leb)
                  then 1 else 0)
     \<and> digits_ok b (window ts' 0 (Suc leb))"
proof -
  define us where "us = s blk_u"
  define W V where "W = dval b (window us i (Suc leb))" and "V = dval b (window V1 z leb)"
  have b: "2 \<le> b" "0 < b" and leb: "1 \<le> leb" and zl: "z + leb < length V1"
    and vok: "digits_ok b (window V1 z leb)"
    using st by (simp_all add: div_static_def)
  have lvw: "length (window V1 z leb) = leb" using zl by (simp add: length_window)
  have Vlt: "V < b ^ leb" using dval_less [OF vok] lvw by (simp add: V_def)
  have V0: "0 \<le> V" unfolding V_def using b(2) by (intro dval_nonneg) simp
  \<comment> \<open>the product in \<open>temp\<close>\<close>
  obtain ys c' where r: "scale_digits b qg (rev (window V1 z leb)) 0 = (ys, c')"
    by (cases "scale_digits b qg (rev (window V1 z leb)) 0")
  have val: "dval b (rev ys) + c' * b ^ leb = int qg * V" "digits_ok b ys" "0 \<le> c'" "length ys = leb"
    using scale_digits_value [OF b(2) _ r] lvw by (simp_all add: V_def)
  define T where "T = nat c' # rev ys"
  have lT: "length T = Suc leb" using val(4) by (simp add: T_def)
  have c'b: "c' < b"
  proof (rule ccontr)
    assume "\<not> c' < b"
    then have "b * b ^ leb \<le> c' * b ^ leb" using b(2) by (intro mult_right_mono) auto
    moreover have "0 \<le> dval b (rev ys)" using b(2) by (intro dval_nonneg) simp
    moreover have "int qg * V \<le> b * V" using qb V0 by (intro mult_right_mono) auto
    moreover have "b * V < b * b ^ leb" using Vlt b(2) by simp
    ultimately show False using val(1) by linarith
  qed
  have Tok: "digits_ok b T" using val(2,3) c'b by (simp add: T_def)
  have Tval: "dval b T = int qg * V"
    using val(1,3,4) by (simp add: T_def dval_Cons algebra_simps)
  define ts' where "ts' = put_window (s blk_t) 0 T"
  define s1 where "s1 = s(blk_t := ts')"
  have mul: "arb_mul_core exact s (blk_v, int z) leb qg (blk_t, 0) b = Some s1"
    unfolding arb_mul_core_def s1_def ts'_def T_def
    using arb_mul_loop_eq [of "(blk_v, int z)" "(blk_t, 0)" z leb s 0 b 0 qg ys c'] r zl tl sv b(2)
    by simp
  have lts: "length ts' = length (s blk_t)"
    using tl lT by (simp add: ts'_def)
  have wT: "window ts' 0 (Suc leb) = T"
    using window_put_window [of 0 T "s blk_t"] tl lT by (simp add: ts'_def)
  \<comment> \<open>the subtraction\<close>
  define wu where "wu = window us i (Suc leb)"
  have lwu: "length wu = Suc leb" using room by (simp add: wu_def us_def length_window)
  have wuok: "digits_ok b wu" unfolding wu_def using uok us_def by (intro digits_ok_window) simp
  obtain zs c2 where r2: "sub_digits b (rev wu) (rev T) 0 = (zs, c2)"
    by (cases "sub_digits b (rev wu) (rev T) 0")
  have sval: "dval b (rev zs) = W - int qg * V - 0 + c2 * b ^ length (rev wu)"
    "digits_ok b zs" "c2 = 0 \<or> c2 = 1" "length zs = length (rev wu)"
    using sub_digits_value [of "rev wu" "rev T" b 0 zs c2] r2 lwu lT wuok Tok Tval
    by (simp_all add: W_def wu_def)
  have s1u: "s1 blk_u = us" and s1t: "s1 blk_t = ts'"
    by (simp_all add: s1_def us_def)
  have sub: "long_sub exact s1 (blk_u, int leb) (int i) (blk_t, 0) leb b =
      Some (s1(fst (blk_u, int leb) := put_window (s1 (fst (blk_u, int leb))) (leb + i - leb) (rev zs)), c2)"
    unfolding long_sub_def
  proof (rule long_sub_loop_eq [where vo = 0])
    show "fst (blk_u, int leb) \<noteq> fst (blk_t, 0::int)" by simp
    show "snd (blk_u, int leb) + int i = int (leb + i)" by simp
    show "leb \<le> leb + i" by simp
    show "leb + i < length (s1 (fst (blk_u, int leb)))" using room by (simp add: s1u us_def add.commute)
    show "snd (blk_t, 0::int) = int 0" by simp
    show "0 + leb < length (s1 (fst (blk_t, 0::int)))" using tl lts by (simp add: s1t)
    show "sub_digits b (rev (window (s1 (fst (blk_u, int leb))) (leb + i - leb) (Suc leb)))
        (rev (window (s1 (fst (blk_t, 0::int))) 0 (Suc leb))) 0 = (zs, c2)"
      using r2 by (simp add: s1u s1t wT wu_def)
  qed
  have zs_bounds: "0 \<le> dval b (rev zs)" "dval b (rev zs) < b ^ Suc leb"
    using dval_nonneg [of b "rev zs"] dval_less [of b "rev zs"] sval(2,4) lwu b(2) by simp_all
  have c2: "c2 = (if W < int qg * V then 1 else 0)"
  proof (cases "W < int qg * V")
    case True
    then show ?thesis using sval(1,3) zs_bounds(1) by auto
  next
    case False
    then show ?thesis using sval(1,3) zs_bounds(2) lwu by auto
  qed
  have Tw: "digits_ok b (window ts' 0 (Suc leb))" using Tok by (simp only: wT)
  show ?thesis
    using mul sub lts sval c2 lwu Tw
    unfolding s1_def W_def V_def us_def
    by (intro exI [of _ ts'] exI [of _ "rev zs"] exI [of _ c2]) (simp add: fun_upd_twist)
qed

lemma top_digit_unique:
  fixes t t' :: int
  assumes "0 \<le> lo" "lo < B" "0 \<le> lo'" "lo' < B" "t * B + lo = t' * B + lo'"
  shows "t = t'" "lo = lo'"
proof -
  have B: "0 < B" using assms by linarith
  have e: "(t - t') * B = lo' - lo" using assms(5) by (simp add: algebra_simps)
  show "t = t'"
  proof (rule ccontr)
    assume "t \<noteq> t'"
    then consider "1 \<le> t - t'" | "t - t' \<le> - 1" by linarith
    then show False
    proof cases
      case 1
      then have "1 * B \<le> (t - t') * B" using B by (intro mult_right_mono) auto
      then show False using e assms by linarith
    next
      case 2
      then have "(t - t') * B \<le> (- 1) * B" using B by (intro mult_right_mono) auto
      then show False using e assms by linarith
    qed
  qed
  then show "lo = lo'" using assms(5) by simp
qed

lemma digits_ok_put_window:
  "digits_ok b xs \<Longrightarrow> digits_ok b ys \<Longrightarrow> digits_ok b (put_window xs p ys)"
  unfolding digits_ok_def put_window_def list_all_iff
  by (auto dest: in_set_takeD in_set_dropD)

lemma digits_ok_update:
  "digits_ok b xs \<Longrightarrow> int x < b \<Longrightarrow> digits_ok b (xs[n := x])"
  unfolding digits_ok_def list_all_iff
  by (auto dest: set_update_subset_insert [THEN subsetD])

lemma drop_put_window:
  "p + length ys \<le> length xs \<Longrightarrow> p + length ys \<le> n \<Longrightarrow> drop n (put_window xs p ys) = drop n xs"
  by (simp add: put_window_def)

lemma window_put_window_tail:
  assumes "p + Suc (length ys) \<le> length xs"
  shows "window (put_window xs p (y # ys)) (Suc p) (length ys) = ys"
  using assms by (simp add: put_window_def window_def)

lemma window_split_top:
  assumes "i + leb < length us"
  shows "window us i (Suc leb) = us ! i # window us (Suc i) leb"
  using assms by (intro window_Cons) simp

lemma add_back:
  assumes st: "div_static b V1 z leb"
    and sv: "s blk_v = V1"
    and room: "i + leb < length (s blk_u)"
    and wok: "digits_ok b (window (s blk_u) i (Suc leb))"
    and val: "dval b (window (s blk_u) i (Suc leb)) = R - dval b (window V1 z leb) + b ^ Suc leb"
    and R: "0 \<le> R" "R < dval b (window V1 z leb)"
  shows "\<exists>zs. long_add exact s (blk_u, int leb) (int i) (blk_v, int z) (leb - 1) b
        = Some (s(blk_u := put_window (s blk_u) (Suc i) zs), 1)
     \<and> length zs = leb \<and> digits_ok b zs \<and> dval b zs = R"
proof -
  define us where "us = s blk_u"
  define V where "V = dval b (window V1 z leb)"
  have b: "2 \<le> b" "0 < b" and leb: "1 \<le> leb" and zl: "z + leb < length V1"
    and vok: "digits_ok b (window V1 z leb)"
    using st by (simp_all add: div_static_def)
  have lvw: "length (window V1 z leb) = leb" using zl by (simp add: length_window)
  have Vlt: "V < b ^ leb" using dval_less [OF vok] lvw by (simp add: V_def)
  define low where "low = window us (Suc i) leb"
  have ll: "length low = leb" using room by (simp add: low_def us_def length_window)
  have sp: "window us i (Suc leb) = us ! i # low"
    unfolding low_def using room by (intro window_split_top) (simp add: us_def)
  have lok: "digits_ok b low" "int (us ! i) < b"
    using wok unfolding us_def [symmetric] sp by simp_all
  have lowb: "0 \<le> dval b low" "dval b low < b ^ leb"
    using dval_nonneg [of b low] dval_less [OF lok(1)] b(2) ll by simp_all
  have "int (us ! i) * b ^ leb + dval b low = (b - 1) * b ^ leb + (R - V + b ^ leb)"
    using val unfolding us_def [symmetric] sp V_def [symmetric]
    by (simp add: dval_Cons ll algebra_simps)
  moreover have "0 \<le> R - V + b ^ leb" "R - V + b ^ leb < b ^ leb"
    using R Vlt by (simp_all add: V_def)
  ultimately have lowv: "dval b low = R - V + b ^ leb"
    using top_digit_unique(2) [of "dval b low" "b ^ leb" "R - V + b ^ leb" "int (us ! i)" "b - 1"] lowb
    by simp
  obtain zs c where r: "add_digits b (rev low) (rev (window V1 z leb)) 0 = (zs, c)"
    by (cases "add_digits b (rev low) (rev (window V1 z leb)) 0")
  have av: "dval b (rev zs) = dval b low + V + 0 - c * b ^ length (rev low)"
    "digits_ok b zs" "c = 0 \<or> c = 1" "length zs = length (rev low)"
    using add_digits_value [of "rev low" "rev (window V1 z leb)" b 0 zs c] r ll lvw lok vok
    by (simp_all add: V_def)
  have zb: "0 \<le> dval b (rev zs)" "dval b (rev zs) < b ^ leb"
    using dval_nonneg [of b "rev zs"] dval_less [of b "rev zs"] av(2,4) ll b(2) by simp_all
  have c1: "c = 1"
    using av(1,3) zb(2) lowv R(1) ll by auto
  have zv: "dval b (rev zs) = R"
    using av(1) c1 lowv ll by simp
  obtain k where k: "leb = Suc k" using leb by (cases leb) auto
  have "long_add exact s (blk_u, int leb) (int i) (blk_v, int z) (leb - 1) b =
      Some (s(fst (blk_u, int leb) := put_window (s (fst (blk_u, int leb))) (leb + i - k) (rev zs)), c)"
    unfolding long_add_def k diff_Suc_1
  proof (rule long_add_loop_eq [where vo = z])
    show "fst (blk_u, int (Suc k)) \<noteq> fst (blk_v, int z)" by simp
    show "snd (blk_u, int (Suc k)) + int i = int (Suc k + i)" by simp
    show "k \<le> Suc k + i" by simp
    show "Suc k + i < length (s (fst (blk_u, int (Suc k))))" using room k by (simp add: add.commute)
    show "snd (blk_v, int z) = int z" by simp
    show "z + k < length (s (fst (blk_v, int z)))" using zl k sv by simp
    show "add_digits b (rev (window (s (fst (blk_u, int (Suc k)))) (Suc k + i - k) (Suc k)))
        (rev (window (s (fst (blk_v, int z))) z (Suc k))) 0 = (zs, c)"
      using r k sv by (simp add: low_def us_def)
  qed
  moreover have "leb + i - k = Suc i" using k by simp
  ultimately show ?thesis
    using av(2,4) zv c1 ll
    by (intro exI [of _ "rev zs"]) simp
qed

lemma mul_sub_step:
  assumes st: "div_static b V1 z leb"
    and sv: "s blk_v = V1" and tl: "leb < length (s blk_t)"
    and uok: "digits_ok b (s blk_u)" and room: "i + leb < length (s blk_u)"
    and rem: "dval b (window (s blk_u) i leb) < dval b (window V1 z leb)"
    and q1: "dval b (window (s blk_u) i (Suc leb)) div dval b (window V1 z leb) \<le> int qg"
    and q2: "int qg \<le> dval b (window (s blk_u) i (Suc leb)) div dval b (window V1 z leb) + 1"
    and q3: "int qg < b"
  shows "\<exists>ts' us'. mul_sub exact s (blk_v, int z) leb b i qg =
        Some (s(blk_t := ts', blk_u := us'),
              nat (dval b (window (s blk_u) i (Suc leb)) div dval b (window V1 z leb)))
     \<and> length ts' = length (s blk_t) \<and> length us' = length (s blk_u) \<and> digits_ok b us'
     \<and> drop (Suc (i + leb)) us' = drop (Suc (i + leb)) (s blk_u)
     \<and> dval b (window us' (Suc i) leb)
         = dval b (window (s blk_u) i (Suc leb)) mod dval b (window V1 z leb)"
proof -
  define us where "us = s blk_u"
  define W V where "W = dval b (window us i (Suc leb))" and "V = dval b (window V1 z leb)"
  have b: "2 \<le> b" "0 < b" and leb: "1 \<le> leb" and zl: "z + leb < length V1"
    and vok: "digits_ok b (window V1 z leb)"
    using st by (simp_all add: div_static_def)
  have lvw: "length (window V1 z leb) = leb" using zl by (simp add: length_window)
  have Vlt: "V < b ^ leb" using dval_less [OF vok] lvw by (simp add: V_def)
  have Vpos: "0 < V"
  proof -
    have "0 \<le> dval b (window us i leb)" using b(2) by (intro dval_nonneg) simp
    then show ?thesis using rem by (simp add: V_def us_def)
  qed
  have W0: "0 \<le> W" unfolding W_def using b(2) by (intro dval_nonneg) simp
  have q0: "0 \<le> W div V" using W0 Vpos by (simp add: pos_imp_zdiv_nonneg_iff)
  have modb: "0 \<le> W mod V" "W mod V < V" using Vpos by simp_all
  have mm: "W mod V = W - W div V * V" by (simp add: minus_div_mult_eq_mod)
  have sp: "window us i (Suc leb) = us ! i # window us (Suc i) leb"
    using room by (intro window_split_top) (simp add: us_def)
  have ll: "length (window us (Suc i) leb) = leb" using room by (simp add: us_def length_window)
  have wok: "digits_ok b (window us i (Suc leb))" using uok us_def by (intro digits_ok_window) simp
  have q1': "W div V \<le> int qg" and q2': "int qg \<le> W div V + 1"
    using q1 q2 by (simp_all add: W_def V_def us_def)
  show ?thesis
  proof (cases "qg = 0")
    case True
    have d0: "W div V = 0" using q1' q0 True by simp
    then have WV: "W mod V = W" using mm by simp
    have "mul_sub exact s (blk_v, int z) leb b i qg = Some (s(blk_t := s blk_t, blk_u := us), nat (W div V))"
      using True d0 by (simp add: mul_sub_def us_def)
    moreover have "dval b (window us (Suc i) leb) = W mod V"
    proof -
      have lo: "0 \<le> dval b (window us (Suc i) leb)" "dval b (window us (Suc i) leb) < b ^ leb"
        using dval_nonneg [of b "window us (Suc i) leb"] dval_less [of b "window us (Suc i) leb"]
          wok ll b(2) unfolding sp by simp_all
      have "int (us ! i) * b ^ leb + dval b (window us (Suc i) leb) = 0 * b ^ leb + W"
        unfolding W_def sp by (simp add: dval_Cons ll)
      moreover have "W < b ^ leb" using WV modb Vlt by linarith
      ultimately show ?thesis
        using top_digit_unique(2) [of "dval b (window us (Suc i) leb)" "b ^ leb" W "int (us ! i)" 0] lo W0 WV
        by simp
    qed
    ultimately show ?thesis
      using uok unfolding W_def V_def us_def
      by (intro exI [of _ "s blk_t"] exI [of _ "s blk_u"]) simp
  next
    case False
    obtain ts' zs borrow where ms:
      "arb_mul_core exact s (blk_v, int z) leb qg (blk_t, 0) b = Some (s(blk_t := ts'))"
      "long_sub exact (s(blk_t := ts')) (blk_u, int leb) (int i) (blk_t, 0) leb b
         = Some (s(blk_t := ts', blk_u := put_window us i zs), borrow)"
      "length ts' = length (s blk_t)" "length zs = Suc leb" "digits_ok b zs"
      "dval b zs = W - int qg * V + borrow * b ^ Suc leb"
      "borrow = (if W < int qg * V then 1 else 0)"
      using mul_then_sub [OF st sv tl uok room q3] unfolding W_def V_def us_def by blast
    define us2 where "us2 = put_window us i zs"
    define s2 where "s2 = s(blk_t := ts', blk_u := us2)"
    have fit: "i + length zs \<le> length us" using room ms(4) by (simp add: us_def)
    have lus2: "length us2 = length us" using fit by (simp add: us2_def)
    have us2ok: "digits_ok b us2" unfolding us2_def using uok ms(5) us_def by (intro digits_ok_put_window) simp_all
    have dr2: "drop (Suc (i + leb)) us2 = drop (Suc (i + leb)) us"
      unfolding us2_def using fit ms(4) by (intro drop_put_window) simp_all
    obtain t low where zs: "zs = t # low" "length low = leb"
      using ms(4) by (cases zs) auto
    have w2: "window us2 (Suc i) leb = low"
      using window_put_window_tail [of i low us t] fit zs by (simp add: us2_def)
    have lob: "0 \<le> dval b low" "dval b low < b ^ leb"
      using dval_nonneg [of b low] dval_less [of b low] ms(5) zs b(2) by simp_all
    show ?thesis
    proof (cases "W < int qg * V")
      case nb: False
      have bo: "borrow = 0" using ms(7) nb by simp
      have "int qg \<le> W div V" using nb Vpos by (intro int_div_ge) simp_all
      then have qg: "int qg = W div V" using q1' by simp
      have zv: "dval b zs = W mod V" using ms(6) by (simp add: mm bo qg)
      have "int t * b ^ leb + dval b low = 0 * b ^ leb + W mod V"
        using zv zs by (simp add: dval_Cons)
      moreover have "W mod V < b ^ leb" using modb Vlt by linarith
      ultimately have lowv: "dval b low = W mod V"
        using top_digit_unique(2) [of "dval b low" "b ^ leb" "W mod V" "int t" 0] lob modb by simp
      have "mul_sub exact s (blk_v, int z) leb b i qg = Some (s2, qg)"
        using False ms(1,2) bo by (simp add: mul_sub_def s2_def us2_def)
      moreover have "qg = nat (W div V)" using qg by simp
      ultimately show ?thesis
        using ms(3) lus2 us2ok dr2 w2 lowv unfolding W_def V_def us_def s2_def
        by (intro exI [of _ ts'] exI [of _ us2]) simp
    next
      case bw: True
      have bo: "borrow = 1" using ms(7) bw by simp
      have "W div V < int qg" using bw Vpos by (intro int_div_less) (simp_all add: algebra_simps)
      then have qg: "int qg = W div V + 1" using q2' by simp
      have zv: "dval b zs = W mod V - V + b ^ Suc leb"
        using ms(6) by (simp add: mm bo qg algebra_simps)
      have s2u: "s2 blk_u = us2" and s2v: "s2 blk_v = V1" using sv by (simp_all add: s2_def)
      have wz: "window us2 i (Suc leb) = zs"
        using window_put_window [of i zs us] fit ms(4) by (simp add: us2_def)
      obtain zs2 where ab:
        "long_add exact s2 (blk_u, int leb) (int i) (blk_v, int z) (leb - 1) b
           = Some (s2(blk_u := put_window (s2 blk_u) (Suc i) zs2), 1)"
        "length zs2 = leb" "digits_ok b zs2" "dval b zs2 = W mod V"
        using add_back [where s = s2 and b = b and ?V1.0 = V1 and z = z and leb = leb and i = i
            and R = "W mod V"] st s2v room lus2 ms(5) zv modb
        by (auto simp: s2u wz V_def us_def)
      define us3 where "us3 = put_window us2 (Suc i) zs2"
      define us4 where "us4 = us3[0 := 0]"
      have fit3: "Suc i + length zs2 \<le> length us2" using room lus2 ab(2) by (simp add: us_def)
      have lus3: "length us3 = length us" using fit3 lus2 by (simp add: us3_def)
      have w3: "window us3 (Suc i) leb = zs2"
        using window_put_window [of "Suc i" zs2 us2] fit3 ab(2) by (simp add: us3_def)
      have w4: "window us4 (Suc i) leb = zs2"
        unfolding us4_def using w3 by (simp add: window_update_outside)
      have ok4: "digits_ok b us4"
        unfolding us4_def us3_def using us2ok ab(3) b(2)
        by (intro digits_ok_update digits_ok_put_window) simp_all
      have dr4: "drop (Suc (i + leb)) us4 = drop (Suc (i + leb)) us"
      proof -
        have "drop (Suc (i + leb)) us3 = drop (Suc (i + leb)) us2"
          unfolding us3_def using fit3 ab(2) by (intro drop_put_window) simp_all
        then show ?thesis using dr2 by (simp add: us4_def)
      qed
      have "0 < length us3" using lus3 room unfolding us_def by linarith
      then have wr0: "wr (s2(blk_u := us3)) (blk_u, 0) 0 = Some (s2(blk_u := us4))"
        by (simp add: wr_at [where n = 0] us4_def)
      have "mul_sub exact s (blk_v, int z) leb b i qg = Some (s2(blk_u := us4), qg - 1)"
        using False ms(1,2) bo ab(1) wr0
        by (simp add: mul_sub_def s2_def [symmetric] us2_def [symmetric] s2u us3_def [symmetric])
      moreover have "qg - 1 = nat (W div V)" using qg by simp
      moreover have "s2(blk_u := us4) = s(blk_t := ts', blk_u := us4)" by (simp add: s2_def)
      ultimately show ?thesis
        using ms(3) lus3 ok4 dr4 w4 ab(4) unfolding W_def V_def us_def us4_def [symmetric]
        by (intro exI [of _ ts'] exI [of _ us4]) (simp add: us4_def us_def)
    qed
  qed
qed

lemma drop_nth_eq:
  assumes "drop n xs = drop n ys" "length xs = length ys" "n \<le> m" "m < length xs"
  shows "xs ! m = ys ! m"
proof -
  have "n \<le> length xs" "n \<le> length ys" using assms by simp_all
  then have "drop n xs ! (m - n) = xs ! (n + (m - n))" "drop n ys ! (m - n) = ys ! (n + (m - n))"
    by (simp_all add: nth_drop)
  then show ?thesis using assms(1,3) by simp
qed

lemma drop_more:
  assumes "drop n xs = drop n ys"
  shows "drop (Suc n) xs = drop (Suc n) ys"
proof -
  have "drop (Suc n) xs = drop 1 (drop n xs)" by simp
  also have "\<dots> = drop 1 (drop n ys)" using assms by simp
  finally show ?thesis by simp
qed

lemma div_step_inv:
  assumes st: "div_static b V1 z leb"
    and inv: "div_inv b U1 V1 z leb j0 s q i"
    and room: "i + leb + 2 < length U1"
    and jroom: "j0 + i < length (number q)"
  shows "\<exists>s' q'. div_step exact s (blk_v, int z) leb b q i (j0 + i) = Some (s', q')
     \<and> div_inv b U1 V1 z leb j0 s' q' (Suc i)
     \<and> lp q' = lp q \<and> len q' = len q \<and> length (number q') = length (number q)
     \<and> drop (Suc (j0 + i)) (number q') = drop (Suc (j0 + i)) (number q)"
proof -
  define us where "us = s blk_u"
  define W V where "W = dval b (window us i (Suc leb))" and "V = dval b (window V1 z leb)"
  define R Q where "R = dval b (window us i leb)" and "Q = dval b (take (j0 + i) (number q))"
  have b: "2 \<le> b" "0 < b"
    using st by (simp_all add: div_static_def)
  have sv: "s blk_v = V1" and tl: "leb < length (s blk_t)"
    and lu: "length us = length U1" and uok: "digits_ok b us"
    and dr: "drop (i + leb) us = drop (i + leb) U1"
    and rem: "R < V"
    and acc: "dval b (take (i + leb) U1) = Q * V + R"
    and qok: "digits_ok b (take (j0 + i) (number q))"
    using inv by (simp_all add: div_inv_def us_def V_def R_def Q_def)
  have R0: "0 \<le> R" unfolding R_def using b(2) by (intro dval_nonneg) simp
  have Vpos: "0 < V" using R0 rem by linarith
  have W0: "0 \<le> W" unfolding W_def using b(2) by (intro dval_nonneg) simp
  have q0: "0 \<le> W div V" using W0 Vpos by (simp add: pos_imp_zdiv_nonneg_iff)
  obtain qg where g: "guess exact s (blk_v, int z) b i = Some qg"
    "W div V \<le> int qg" "int qg \<le> W div V + 1" "int qg < b"
    using guess_bounds [OF st inv room] unfolding W_def V_def us_def by blast
  have room': "i + leb < length (s blk_u)" using room lu by (simp add: us_def)
  obtain ts' us' where m:
    "mul_sub exact s (blk_v, int z) leb b i qg = Some (s(blk_t := ts', blk_u := us'), nat (W div V))"
    "length ts' = length (s blk_t)" "length us' = length us" "digits_ok b us'"
    "drop (Suc (i + leb)) us' = drop (Suc (i + leb)) us"
    "dval b (window us' (Suc i) leb) = W mod V"
    using mul_sub_step [where i = i and qg = qg, OF st sv tl] room' uok rem g(2,3,4)
    unfolding W_def V_def us_def R_def by blast
  define qd where "qd = nat (W div V)"
  define q' where "q' = q\<lparr>number := (number q)[j0 + i := qd]\<rparr>"
  define s' where "s' = s(blk_t := ts', blk_u := us')"
  have sd: "set_digit q (j0 + i) qd = Some q'"
    using jroom by (simp add: set_digit_def q'_def)
  have step: "div_step exact s (blk_v, int z) leb b q i (j0 + i) = Some (s', q')"
    using g(1) m(1) sd by (simp add: div_step_def s'_def qd_def)
  have qdb: "int qd = W div V" "int qd < b"
    using q0 g(2,4) by (simp_all add: qd_def)
  have tk: "take (j0 + Suc i) (number q') = take (j0 + i) (number q) @ [qd]"
    using jroom by (simp add: q'_def take_Suc_conv_app_nth)
  have Wst: "W = R * b + int (U1 ! (i + leb))"
  proof -
    have "us ! (i + leb) = U1 ! (i + leb)"
      using dr lu room by (intro drop_nth_eq [where n = "i + leb"]) simp_all
    then show ?thesis
      unfolding W_def R_def using window_step [of i leb us b] room lu by simp
  qed
  have acc': "dval b (take (Suc i + leb) U1) = (Q * b + W div V) * V + W mod V"
  proof -
    have "take (Suc i + leb) U1 = take (i + leb) U1 @ [U1 ! (i + leb)]"
      using room by (simp add: take_Suc_conv_app_nth)
    then have "dval b (take (Suc i + leb) U1) = (Q * V + R) * b + int (U1 ! (i + leb))"
      using acc by simp
    also have "\<dots> = Q * b * V + W" using Wst by (simp add: algebra_simps)
    also have "W = W div V * V + W mod V" by simp
    finally show ?thesis by (simp add: algebra_simps)
  qed
  have inv': "div_inv b U1 V1 z leb j0 s' q' (Suc i)"
    unfolding div_inv_def
  proof (intro conjI)
    show "s' blk_v = V1" using sv by (simp add: s'_def)
    show "leb < length (s' blk_t)" using tl m(2) by (simp add: s'_def)
    show "length (s' blk_u) = length U1" using m(3) lu by (simp add: s'_def)
    show "digits_ok b (s' blk_u)" using m(4) by (simp add: s'_def)
    show "drop (Suc i + leb) (s' blk_u) = drop (Suc i + leb) U1"
      using m(5) drop_more [OF dr] by (simp add: s'_def)
    show "dval b (window (s' blk_u) (Suc i) leb) < dval b (window V1 z leb)"
      using m(6) Vpos by (simp add: s'_def V_def)
    show "dval b (take (Suc i + leb) U1) =
        dval b (take (j0 + Suc i) (number q')) * dval b (window V1 z leb)
          + dval b (window (s' blk_u) (Suc i) leb)"
      unfolding tk using acc' m(6) qdb(1) by (simp add: s'_def V_def Q_def)
    show "digits_ok b (take (j0 + Suc i) (number q'))"
      unfolding tk using qok qdb(2) by simp
  qed
  show ?thesis
    using step inv' by (intro exI [of _ s'] exI [of _ q']) (simp add: q'_def)
qed

lemma div_iter_inv:
  assumes st: "div_static b V1 z leb"
    and inv0: "div_inv b U1 V1 z leb j0 s0 q0 0"
    and room: "bound + leb + 2 < length U1"
    and jroom: "j0 + bound < length (number q0)"
    and n: "n \<le> Suc bound"
  shows "\<exists>s q. div_iter exact s0 (blk_v, int z) leb b q0 j0 n = Some (s, q)
     \<and> div_inv b U1 V1 z leb j0 s q n
     \<and> lp q = lp q0 \<and> len q = len q0 \<and> length (number q) = length (number q0)
     \<and> drop (j0 + n) (number q) = drop (j0 + n) (number q0)"
  using n
proof (induction n)
  case 0
  then show ?case using inv0 by simp
next
  case (Suc n)
  then obtain s q where IH: "div_iter exact s0 (blk_v, int z) leb b q0 j0 n = Some (s, q)"
    "div_inv b U1 V1 z leb j0 s q n"
    "lp q = lp q0" "len q = len q0" "length (number q) = length (number q0)"
    "drop (j0 + n) (number q) = drop (j0 + n) (number q0)"
    by auto
  have r: "n + leb + 2 < length U1" "j0 + n < length (number q)"
    using Suc.prems room jroom IH(5) by simp_all
  obtain s' q' where step: "div_step exact s (blk_v, int z) leb b q n (j0 + n) = Some (s', q')"
    "div_inv b U1 V1 z leb j0 s' q' (Suc n)"
    "lp q' = lp q" "len q' = len q" "length (number q') = length (number q)"
    "drop (Suc (j0 + n)) (number q') = drop (Suc (j0 + n)) (number q)"
    using div_step_inv [OF st IH(2) r] by blast
  have "drop (Suc (j0 + n)) (number q) = drop (Suc (j0 + n)) (number q0)"
    by (rule drop_more [OF IH(6)])
  then show ?case
    using IH step by simp
qed

lemma div_iter_None:
  assumes "div_iter mc s v leb b q j n = None" "n \<le> m"
  shows "div_iter mc s v leb b q j m = None"
  using assms(2)
proof (induction m)
  case 0
  then show ?case using assms(1) by simp
next
  case (Suc m)
  show ?case
  proof (cases "n = Suc m")
    case True
    then show ?thesis using assms(1) by simp
  next
    case False
    then have "n \<le> m" using Suc.prems by simp
    then have "div_iter mc s v leb b q j m = None" by (rule Suc.IH)
    then show ?thesis by simp
  qed
qed

lemma div_loop_iter:
  assumes "i \<le> Suc bound" "div_iter mc s0 v leb b q0 j i = Some (s, q)"
  shows "div_loop mc s v leb b bound q i (j + i) = div_iter mc s0 v leb b q0 j (Suc bound)"
  using assms
proof (induction "Suc bound - i" arbitrary: i s q)
  case 0
  have "i = Suc bound" using 0(1,2) by simp
  then show ?case using 0(3) by (subst div_loop.simps) simp
next
  case (Suc k)
  have le: "i \<le> bound" using Suc.hyps(2) by simp
  show ?case
  proof (cases "div_step mc s v leb b q i (j + i)")
    case None
    then have n1: "div_iter mc s0 v leb b q0 j (Suc i) = None" using Suc.prems(2) by simp
    have n2: "Suc i \<le> Suc bound" using le by simp
    have "div_iter mc s0 v leb b q0 j (Suc bound) = None"
      by (rule div_iter_None [OF n1 n2])
    then show ?thesis using None le by (subst div_loop.simps) simp
  next
    case (Some r)
    obtain s' q' where r: "r = (s', q')" by (cases r)
    have it: "div_iter mc s0 v leb b q0 j (Suc i) = Some (s', q')"
      using Some r Suc.prems(2) by simp
    have k: "k = Suc bound - Suc i" using Suc.hyps(2) by simp
    have le': "Suc i \<le> Suc bound" using le by simp
    have "div_loop mc s' v leb b bound q' (Suc i) (j + Suc i) = div_iter mc s0 v leb b q0 j (Suc bound)"
      by (rule Suc.hyps(1) [OF k le' it])
    then show ?thesis using Some r le by (subst div_loop.simps) simp
  qed
qed

lemma div_loop_from_start:
  "div_loop mc s v leb b bound q 0 j = div_iter mc s v leb b q j (Suc bound)"
  using div_loop_iter [of 0 bound mc s v leb b q j s q] by simp

lemma int_div_eq:
  fixes h r B :: int
  assumes "0 \<le> r" "r < B"
  shows "(h * B + r) div B = h"
proof -
  have B: "0 < B" using assms by linarith
  have "h \<le> (h * B + r) div B" using assms B by (intro int_div_ge) simp_all
  moreover have "(h * B + r) div B < h + 1"
    using assms B by (intro int_div_less) (simp_all add: algebra_simps)
  ultimately show ?thesis by simp
qed

lemma dval_take:
  assumes "n \<le> length xs" "digits_ok b xs" "0 < b"
  shows "dval b (take n xs) = dval b xs div b ^ (length xs - n)"
proof -
  define hi lo where "hi = take n xs" and "lo = drop n xs"
  have xs: "xs = hi @ lo" by (simp add: hi_def lo_def)
  have ll: "length lo = length xs - n" by (simp add: lo_def)
  have lok: "digits_ok b lo" using assms(2) xs by (metis digits_ok_simps(3))
  have lob: "0 \<le> dval b lo" "dval b lo < b ^ length lo"
    using dval_nonneg [of b lo] dval_less [OF lok] assms(3) by simp_all
  have "dval b xs = dval b hi * b ^ length lo + dval b lo"
    by (subst xs) (rule dval_append)
  then have "dval b xs div b ^ length lo = dval b hi"
    using int_div_eq [OF lob, of "dval b hi"] by simp
  then show ?thesis by (simp add: hi_def ll)
qed

lemma arb_div_work_loop:
  assumes "loop_entry mc junk num den q b scale = Some (s1, v, leb, q1, j)"
    "\<not> leb > lea_of num den + scale"
  shows "arb_div_work mc junk num den q b scale =
     map_option (\<lambda>(s2, q2). remove_leading_zeros q2)
       (div_iter mc s1 v leb b q1 j (Suc (lea_of num den + scale - leb)))"
proof -
  obtain s where p: "arb_div_prepare junk num den scale = Some (s, v, leb)"
    and n: "normalise mc s v leb b
               (nat (int (lea_of num den) + uscal_of num den + int (offset_of num den scale) + 1)) = Some s1"
    and q1: "q1 = set_shape q (quodig_of leb (lea_of num den) scale) scale"
    and j: "j = (if leb > lea_of num den then leb - lea_of num den else 0)"
    using assms(1) unfolding loop_entry_def
    by (auto simp: bind_eq_Some_conv split: prod.splits)
  show ?thesis
    unfolding arb_div_work_def Let_def p
    using assms(2) n q1 j
    by (simp add: out_of_scale_of_def div_loop_from_start map_option_case split: option.splits)
qed

lemma arb_div_work_early:
  assumes "arb_div_prepare junk num den scale = Some (s, v, leb)"
    "leb > lea_of num den + scale"
  shows "arb_div_work mc junk num den q b scale =
     Some (remove_leading_zeros (set_shape q (scale + 1) scale))"
  unfolding arb_div_work_def Let_def assms(1)
  using assms(2) by (simp add: out_of_scale_of_def quodig_of_def)

lemma usize_eq:
  assumes "fx_ok b num" "fx_ok b den"
  shows "nat (int (lea_of num den) + uscal_of num den + int off + 1) = len num + off + 1"
  using assms by (simp add: lea_of_def uscal_of_def rl_def rr_def fx_ok_def)

lemma dval_append_zeros: "dval b (xs @ replicate n 0) = dval b xs * b ^ n"
  by (simp add: dval_append)

lemma length_arb_malloc [simp]: "length (arb_malloc junk n) = n"
  by (simp add: arb_malloc_def)

lemma divisor_facts:
  assumes okd: "fx_ok b den" and nz: "iszero den \<noteq> 0" and b: "0 < b"
  shows "\<exists>d rest. divisor_digits den = d # rest \<and> d \<noteq> 0"
    and "length (divisor_digits den) = leb_of den"
    and "digits_ok b (divisor_digits den)"
    and "dval b (divisor_digits den) = fx_int b den"
    and "lead_zeros (fx_digits den) + leb_of den = len den"
    and "fx_digits den = replicate (lead_zeros (fx_digits den)) 0 @ divisor_digits den"
proof -
  define z where "z = lead_zeros (fx_digits den)"
  have nzl: "\<not> list_all (\<lambda>d. d = 0) (fx_digits den)"
    using nz by (simp add: iszero_def fx_digits_def split: if_splits)
  obtain d rest where dr: "fx_digits den = replicate z 0 @ d # rest" "d \<noteq> 0"
    using split_lead_zeros [OF nzl] unfolding z_def by blast
  have dd: "divisor_digits den = d # rest"
    unfolding divisor_digits_def z_def [symmetric] by (subst dr(1)) simp
  show "\<exists>d rest. divisor_digits den = d # rest \<and> d \<noteq> 0" using dd dr(2) by blast
  have l: "length (fx_digits den) = len den" using okd by (rule length_fx_digits)
  have zl: "z \<le> len den" using dr(1) l by (metis length_append length_replicate le_add1)
  show "length (divisor_digits den) = leb_of den"
    unfolding divisor_digits_def leb_of_def using l by simp
  show "digits_ok b (divisor_digits den)"
    using okd dr(1) dd by (simp add: fx_ok_def)
  show "dval b (divisor_digits den) = fx_int b den"
    unfolding fx_int_def dd by (subst dr(1)) simp
  show "lead_zeros (fx_digits den) + leb_of den = len den"
    using zl by (simp add: leb_of_def z_def)
  show "fx_digits den = replicate (lead_zeros (fx_digits den)) 0 @ divisor_digits den"
    using dr(1) dd by (simp add: z_def)
qed

lemma put_window_front: "length ys \<le> length xs \<Longrightarrow> put_window xs 0 ys = ys @ drop (length ys) xs"
  by (simp add: put_window_def)

lemma put_window_middle:
  "length ys = length ms \<Longrightarrow> put_window (as @ ms @ cs) (length as) ys = as @ ys @ cs"
  by (simp add: put_window_def)

lemma window_middle: "window (as @ ms @ cs) (length as) (length ms) = ms"
  by (simp add: window_def)

lemma replicate_two: "replicate (Suc (Suc n)) x = replicate n x @ [x, x]"
  by (induction n) auto

lemma digits_ok_replicate [simp]: "0 < b \<Longrightarrow> digits_ok b (replicate n 0)"
  by (simp add: digits_ok_def list_all_iff)

lemma loop_entry_store:
  assumes okn: "fx_ok b num" and okd: "fx_ok b den" and nz: "iszero den \<noteq> 0" and b: "2 \<le> b"
  shows "\<exists>s1 ys_u ys_v norm.
      loop_entry exact junk num den q b scale =
        Some (s1, (blk_v, int (lead_zeros (fx_digits den))), leb_of den,
              set_shape q (quodig_of (leb_of den) (lea_of num den) scale) scale,
              (if leb_of den > lea_of num den then leb_of den - lea_of num den else 0))
    \<and> s1 blk_u = ys_u @ [0, 0]
    \<and> s1 blk_v = replicate (lead_zeros (fx_digits den)) 0 @ ys_v
                   @ replicate (offset_of num den scale + 3) 0
    \<and> length (s1 blk_t) = len den + 1
    \<and> length ys_u = len num + offset_of num den scale + 1 \<and> digits_ok b ys_u
    \<and> dval b ys_u = int norm * (fx_int b num * b ^ offset_of num den scale)
    \<and> length ys_v = leb_of den \<and> digits_ok b ys_v
    \<and> dval b ys_v = int norm * fx_int b den
    \<and> int norm = b div (int (hd (divisor_digits den)) + 1) \<and> 1 \<le> norm"
proof -
  define z off leb usize where "z = lead_zeros (fx_digits den)" and "off = offset_of num den scale"
    and "leb = leb_of den" and "usize = len num + off + 1"
  define s0 where "s0 = setup_store junk num den off"
  have b0: "0 < b" using b by simp
  note df = divisor_facts [OF okd nz b0]
  obtain d rest where dv: "divisor_digits den = d # rest" "d \<noteq> 0" using df(1) by blast
  have ln: "length (fx_digits num) = len num" using okn by (rule length_fx_digits)
  have s0u: "s0 blk_u = (0 # fx_digits num @ replicate off 0) @ [0, 0]"
    and s0v: "s0 blk_v = replicate z 0 @ divisor_digits den @ replicate (off + 3) 0"
    and s0t: "length (s0 blk_t) = len den + 1"
    using df(6) by (simp_all add: s0_def setup_store_def blk_defs z_def replicate_two del: replicate_Suc)
  have prep: "arb_div_prepare junk num den scale = Some (s0, (blk_v, int z), leb)"
    using arb_div_prepare_eq [OF okn okd nz] by (simp add: s0_def z_def off_def leb_def leb_of_def)
  have us: "nat (int (lea_of num den) + uscal_of num den + int off + 1) = usize"
    using usize_eq [OF okn okd] by (simp add: usize_def)
  have wv: "window (s0 blk_v) z leb = d # rest"
    using window_middle [of "replicate z 0" "divisor_digits den" "replicate (off + 3) 0"] df(2)
    by (simp add: s0v dv leb_def)
  have wu: "window (s0 blk_u) 0 usize = 0 # fx_digits num @ replicate off 0"
    using ln by (simp add: s0u window_def usize_def)
  have A: "dval b (window (s0 blk_u) 0 usize) = fx_int b num * b ^ off"
    unfolding wu by (simp add: dval_Cons dval_append fx_int_def)
  obtain ys_u ys_v where nrm:
    "normalise exact s0 (blk_v, int z) leb b usize =
        Some (s0(blk_u := put_window (s0 blk_u) 0 ys_u, blk_v := put_window (s0 blk_v) z ys_v))"
    "length ys_u = usize" "digits_ok b ys_u"
    "dval b ys_u = int (norm_of exact b d) * dval b (window (s0 blk_u) 0 usize)"
    "length ys_v = leb" "digits_ok b ys_v"
    "dval b ys_v = int (norm_of exact b d) * dval b (d # rest)"
    "int (norm_of exact b d) = b div (int d + 1)" "1 \<le> norm_of exact b d"
  proof -
    have "\<exists>ys_u ys_v. normalise exact s0 (blk_v, int z) leb b usize =
        Some (s0(blk_u := put_window (s0 blk_u) 0 ys_u, blk_v := put_window (s0 blk_v) z ys_v))
     \<and> length ys_u = usize \<and> digits_ok b ys_u
     \<and> dval b ys_u = int (norm_of exact b d) * dval b (window (s0 blk_u) 0 usize)
     \<and> length ys_v = leb \<and> digits_ok b ys_v
     \<and> dval b ys_v = int (norm_of exact b d) * dval b (d # rest)
     \<and> int (norm_of exact b d) = b div (int d + 1)
     \<and> 1 \<le> norm_of exact b d"
    proof (rule normalise_eq [where s = s0 and v = "(blk_v, int z)" and z = z and leb = leb
          and ?v0.0 = d and vrest = rest and usize = usize, OF b])
      show "snd (blk_v, int z) = int z" "fst (blk_v, int z) = blk_v" by simp_all
      show "window (s0 blk_v) z leb = d # rest" by (rule wv)
      show "z + leb \<le> length (s0 blk_v)" using df(2) by (simp add: s0v leb_def)
      show "digits_ok b (d # rest)" using df(3) dv by simp
      show "d \<noteq> 0" by (rule dv(2))
      show "usize \<le> length (s0 blk_u)" using ln by (simp add: s0u usize_def)
      show "0 < usize" by (simp add: usize_def)
      show "s0 blk_u ! 0 = 0" by (simp add: s0u)
      show "digits_ok b (window (s0 blk_u) 0 usize)"
        unfolding wu using okn b0 by (simp add: fx_ok_def)
    qed
    then show ?thesis using that by blast
  qed
  define s1 where "s1 = s0(blk_u := put_window (s0 blk_u) 0 ys_u, blk_v := put_window (s0 blk_v) z ys_v)"
  have le: "loop_entry exact junk num den q b scale =
        Some (s1, (blk_v, int z), leb,
              set_shape q (quodig_of leb (lea_of num den) scale) scale,
              (if leb > lea_of num den then leb - lea_of num den else 0))"
    unfolding loop_entry_def prep off_def [symmetric]
    using nrm(1) us by (simp add: s1_def)
  have s1u: "s1 blk_u = ys_u @ [0, 0]"
  proof -
    have "drop usize (s0 blk_u) = [0, 0]"
      using ln by (simp add: s0u usize_def)
    then show ?thesis
      using put_window_front [of ys_u "s0 blk_u"] nrm(2) ln by (simp add: s1_def s0u usize_def)
  qed
  have s1v: "s1 blk_v = replicate z 0 @ ys_v @ replicate (off + 3) 0"
    using put_window_middle [of ys_v "divisor_digits den" "replicate z 0" "replicate (off + 3) 0"]
      nrm(5) df(2) by (simp add: s1_def s0v leb_def)
  have s1t: "length (s1 blk_t) = len den + 1" using s0t by (simp add: s1_def)
  show ?thesis
    using le s1u s1v s1t nrm(2-9) A df(4) dv
    unfolding z_def off_def leb_def usize_def
    by (intro exI [of _ s1] exI [of _ ys_u] exI [of _ ys_v] exI [of _ "norm_of exact b d"]) simp
qed

lemma sizes:
  assumes "fx_ok b num" "fx_ok b den"
  shows "lea_of num den + scale \<le> len num + offset_of num den scale"
    and "uscal_of num den < int scale \<Longrightarrow>
           len num + offset_of num den scale = lea_of num den + scale
           \<and> offset_of num den scale + rr num = rr den + scale"
    and "\<not> uscal_of num den < int scale \<Longrightarrow>
           offset_of num den scale = 0
           \<and> len num - (lea_of num den + scale) + rr den + scale = rr num"
  using assms
  by (auto simp: lea_of_def uscal_of_def offset_of_def rl_def rr_def fx_ok_def)

lemma prefix_less:
  assumes "digits_ok b w" "0 < b" "leb \<le> length w" "1 \<le> leb" "w ! 0 = 0" "b ^ (leb - 1) \<le> D"
  shows "dval b w < D * b ^ (length w - leb)"
proof (rule ccontr)
  assume "\<not> dval b w < D * b ^ (length w - leb)"
  then have "D * b ^ (length w - leb) \<le> dval b w" by simp
  then have "D \<le> dval b w div b ^ (length w - leb)"
    using assms(2) by (intro int_div_ge) simp_all
  also have "\<dots> = dval b (take leb w)"
    using dval_take [OF assms(3,1,2)] by simp
  finally have D: "D \<le> dval b (take leb w)" .
  obtain m where m: "leb = Suc m" using assms(4) by (cases leb) auto
  obtain x xs where w: "w = x # xs" using assms(3,4) by (cases w) auto
  have x0: "x = 0" using assms(5) w by simp
  have "dval b (take leb w) = dval b (take m xs)"
    by (simp add: w m x0 dval_Cons)
  moreover have "digits_ok b (take m xs)"
    using assms(1) w by (simp add: digits_ok_def list_all_iff) (meson in_set_takeD)
  then have "dval b (take m xs) < b ^ length (take m xs)" by (rule dval_less)
  moreover have "length (take m xs) = m" using assms(3) w m by simp
  ultimately show False using D assms(6) m by simp
qed

lemma entry_static:
  assumes b: "2 \<le> b"
    and V1: "V1 = replicate z 0 @ ys_v @ replicate (off + 3) 0"
    and yv: "length ys_v = leb" "digits_ok b ys_v" "dval b ys_v = int norm * dval b (d # rest)"
    and dv: "digits_ok b (d # rest)" "d \<noteq> 0" "length (d # rest) = leb"
    and norm: "int norm = b div (int d + 1)"
  shows "div_static b V1 z leb"
proof -
  have b0: "0 < b" using b by simp
  obtain y ys' where y: "ys_v = y # ys'" using yv(1) dv(3) by (cases ys_v) auto
  have ly: "length ys' = length rest" using yv(1) dv(3) y by simp
  have d1: "1 \<le> int d" "int d < b" using dv by simp_all
  note nl = norm_lead_digit [OF d1]
  have n0: "0 \<le> int norm" by simp
  have "int norm * (int d * b ^ length rest) \<le> int norm * dval b (d # rest)"
    using dval_lead(1) [OF dv(1) b0] n0 by (intro mult_left_mono) auto
  then have "(int norm * int d) * b ^ length ys' \<le> dval b (y # ys')"
    using yv(3) y ly by (simp add: algebra_simps)
  then have "int norm * int d \<le> int y"
    using yv(2) y b0 by (intro lead_digit_ge [where ys = ys' and b = b]) simp_all
  then have lead: "b \<le> 2 * int y + 1"
    using nl(1) norm by (simp add: algebra_simps)
  have win: "window V1 z leb = ys_v"
    unfolding V1 using window_middle [of "replicate z 0" ys_v "replicate (off + 3) 0"] yv(1) by simp
  have "V1 ! z = y"
    unfolding V1 y by (simp add: nth_append)
  moreover have "V1 ! (z + leb) = 0"
    unfolding V1 using yv(1) by (simp add: nth_append)
  moreover have "z + leb < length V1" unfolding V1 using yv(1) by simp
  moreover have "1 \<le> leb" using dv(3) by auto
  ultimately show ?thesis
    unfolding div_static_def using b win yv(2) lead by simp
qed

lemma engine_entry:
  fixes num den q :: fxdpnt and scale :: nat
  defines "z \<equiv> lead_zeros (fx_digits den)" and "leb \<equiv> leb_of den"
    and "lea \<equiv> lea_of num den"
  defines "off \<equiv> offset_of num den scale"
    and "j0 \<equiv> (if leb > lea then leb - lea else 0)"
    and "q1 \<equiv> set_shape q (quodig_of leb lea scale) scale"
  assumes okn: "fx_ok b num" and okd: "fx_ok b den" and nz: "iszero den \<noteq> 0" and b: "2 \<le> b"
    and ins: "leb \<le> lea + scale"
    and qz: "number q = replicate Lq 0"
  shows "\<exists>s1 norm. loop_entry exact junk num den q b scale = Some (s1, (blk_v, int z), leb, q1, j0)
      \<and> div_static b (s1 blk_v) z leb
      \<and> div_inv b (s1 blk_u) (s1 blk_v) z leb j0 s1 q1 0
      \<and> length (s1 blk_u) = len num + off + 3
      \<and> digits_ok b (take (len num + off + 1) (s1 blk_u))
      \<and> dval b (take (len num + off + 1) (s1 blk_u)) = int norm * (fx_int b num * b ^ off)
      \<and> dval b (window (s1 blk_v) z leb) = int norm * fx_int b den
      \<and> 1 \<le> norm \<and> int norm = b div (int (hd (divisor_digits den)) + 1)"
proof -
  have b0: "0 < b" using b by simp
  note df = divisor_facts [OF okd nz b0]
  obtain d rest where dv: "divisor_digits den = d # rest" "d \<noteq> 0" using df(1) by blast
  obtain s1 ys_u ys_v norm where e:
    "loop_entry exact junk num den q b scale = Some (s1, (blk_v, int z), leb, q1, j0)"
    "s1 blk_u = ys_u @ [0, 0]"
    "s1 blk_v = replicate z 0 @ ys_v @ replicate (off + 3) 0"
    "length (s1 blk_t) = len den + 1"
    "length ys_u = len num + off + 1" "digits_ok b ys_u"
    "dval b ys_u = int norm * (fx_int b num * b ^ off)"
    "length ys_v = leb" "digits_ok b ys_v"
    "dval b ys_v = int norm * fx_int b den"
    "int norm = b div (int (hd (divisor_digits den)) + 1)" "1 \<le> norm"
    using loop_entry_store [OF okn okd nz b, of junk q scale]
    unfolding z_def leb_def lea_def off_def j0_def q1_def by blast
  define usize where "usize = len num + off + 1"
  have st: "div_static b (s1 blk_v) z leb"
  proof (rule entry_static [OF b e(3) e(8,9)])
    show "dval b ys_v = int norm * dval b (d # rest)" using e(10) df(4) dv by simp
    show "digits_ok b (d # rest)" using df(3) dv by simp
    show "d \<noteq> 0" by (rule dv(2))
    show "length (d # rest) = leb" using df(2) dv by (simp add: leb_def)
    show "int norm = b div (int d + 1)" using e(11) dv by simp
  qed
  have win: "window (s1 blk_v) z leb = ys_v"
    unfolding e(3) using window_middle [of "replicate z 0" ys_v "replicate (off + 3) 0"] e(8) by simp
  have leb1: "1 \<le> leb" using st by (simp add: div_static_def)
  have lebu: "leb \<le> usize"
    using ins sizes(1) [OF okn okd, of scale] by (simp add: usize_def lea_def off_def)
  have tk: "window (s1 blk_u) 0 leb = take leb ys_u"
    using lebu e(5) by (simp add: e(2) window_def usize_def)
  \<comment> \<open>the dividend before normalization, with its leading zero\<close>
  define w where "w = 0 # fx_digits num @ replicate off 0"
  have lw: "length w = usize" using length_fx_digits [OF okn] by (simp add: w_def usize_def)
  have wok: "digits_ok b w" using okn b0 by (simp add: w_def fx_ok_def)
  have wv: "dval b w = fx_int b num * b ^ off"
    by (simp add: w_def dval_Cons dval_append fx_int_def)
  have Dlo: "b ^ (leb - 1) \<le> fx_int b den"
  proof -
    have "int d * b ^ length rest \<le> dval b (d # rest)"
      using df(3) dv b0 by (intro dval_lead(1)) simp_all
    moreover have "1 * b ^ length rest \<le> int d * b ^ length rest"
      using dv(2) b0 by (intro mult_right_mono) auto
    moreover have "length rest = leb - 1" using df(2) dv by (simp add: leb_def)
    ultimately show ?thesis using df(4) dv by simp
  qed
  have Alt: "dval b w < fx_int b den * b ^ (usize - leb)"
    using prefix_less [OF wok b0 _ leb1 _ Dlo] lebu lw by (simp add: w_def)
  have rem: "dval b (window (s1 blk_u) 0 leb) < dval b (window (s1 blk_v) z leb)"
  proof -
    have "dval b (take leb ys_u) = dval b ys_u div b ^ (usize - leb)"
      using dval_take [of leb ys_u b] lebu e(5,6) b0 by (simp add: usize_def)
    moreover have "int norm * dval b w < int norm * (fx_int b den * b ^ (usize - leb))"
      using Alt e(12) by simp
    then have "dval b ys_u div b ^ (usize - leb) < int norm * fx_int b den"
      using b0 e(7) wv by (intro int_div_less) (simp_all add: algebra_simps)
    ultimately show ?thesis unfolding tk win using e(10) by simp
  qed
  have tq: "take j0 (number q1) = replicate (min j0 Lq) 0"
    using qz by (simp add: q1_def set_shape_def)
  have inv: "div_inv b (s1 blk_u) (s1 blk_v) z leb j0 s1 q1 0"
    unfolding div_inv_def
  proof (intro conjI)
    show "s1 blk_v = s1 blk_v" by simp
    show "leb < length (s1 blk_t)" using e(4) df(5) by (simp add: leb_def)
    show "length (s1 blk_u) = length (s1 blk_u)" by simp
    show "digits_ok b (s1 blk_u)" using e(6) b0 by (simp add: e(2))
    show "drop (0 + leb) (s1 blk_u) = drop (0 + leb) (s1 blk_u)" by simp
    show "dval b (window (s1 blk_u) 0 leb) < dval b (window (s1 blk_v) z leb)" by (rule rem)
    show "dval b (take (0 + leb) (s1 blk_u)) =
        dval b (take (j0 + 0) (number q1)) * dval b (window (s1 blk_v) z leb)
          + dval b (window (s1 blk_u) 0 leb)"
      using tq by (simp add: window_def)
    show "digits_ok b (take (j0 + 0) (number q1))" using tq b0 by simp
  qed
  have "take (len num + off + 1) (s1 blk_u) = ys_u" using e(5) by (simp add: e(2))
  then show ?thesis
    using e(1,5,6,7,10,11,12) st inv win
    by (intro exI [of _ s1] exI [of _ norm]) (simp add: e(2))
qed

lemma quodig_split:
  assumes "leb \<le> lea + scale"
  shows "(if leb > lea then leb - lea else 0) + (lea + scale - leb) + 1 = quodig_of leb lea scale"
  using assms by (simp add: quodig_of_def)

lemma engine_iteration:
  fixes num den q :: fxdpnt and scale :: nat
  defines "z \<equiv> lead_zeros (fx_digits den)" and "leb \<equiv> leb_of den"
    and "lea \<equiv> lea_of num den"
  defines "off \<equiv> offset_of num den scale"
    and "j0 \<equiv> (if leb > lea then leb - lea else 0)"
    and "q1 \<equiv> set_shape q (quodig_of leb lea scale) scale"
  assumes okn: "fx_ok b num" and okd: "fx_ok b den" and nz: "iszero den \<noteq> 0" and b: "2 \<le> b"
    and ins: "leb \<le> lea + scale"
    and qz: "number q = replicate Lq 0" and Lq: "quodig_of leb lea scale \<le> Lq"
    and n: "n \<le> Suc (lea + scale - leb)"
  shows "\<exists>s1 norm s qn. loop_entry exact junk num den q b scale = Some (s1, (blk_v, int z), leb, q1, j0)
      \<and> div_static b (s1 blk_v) z leb
      \<and> length (s1 blk_u) = len num + off + 3
      \<and> digits_ok b (take (len num + off + 1) (s1 blk_u))
      \<and> dval b (take (len num + off + 1) (s1 blk_u)) = int norm * (fx_int b num * b ^ off)
      \<and> dval b (window (s1 blk_v) z leb) = int norm * fx_int b den
      \<and> 1 \<le> norm
      \<and> engine_state_at exact junk num den q b scale n = Some (s, qn)
      \<and> div_inv b (s1 blk_u) (s1 blk_v) z leb j0 s qn n
      \<and> lp qn = lp q1 \<and> len qn = len q1 \<and> length (number qn) = Lq
      \<and> drop (j0 + n) (number qn) = replicate (Lq - (j0 + n)) 0"
proof -
  obtain s1 norm where e:
    "loop_entry exact junk num den q b scale = Some (s1, (blk_v, int z), leb, q1, j0)"
    "div_static b (s1 blk_v) z leb"
    "div_inv b (s1 blk_u) (s1 blk_v) z leb j0 s1 q1 0"
    "length (s1 blk_u) = len num + off + 3"
    "digits_ok b (take (len num + off + 1) (s1 blk_u))"
    "dval b (take (len num + off + 1) (s1 blk_u)) = int norm * (fx_int b num * b ^ off)"
    "dval b (window (s1 blk_v) z leb) = int norm * fx_int b den"
    "1 \<le> norm"
    using engine_entry [OF okn okd nz b, of scale q Lq junk] ins qz
    unfolding z_def leb_def lea_def off_def j0_def q1_def by blast
  define bound where "bound = lea + scale - leb"
  have room: "bound + leb + 2 < length (s1 blk_u)"
    using sizes(1) [OF okn okd, of scale] ins e(4) by (simp add: bound_def lea_def off_def)
  have nq1: "number q1 = replicate Lq 0" using qz by (simp add: q1_def set_shape_def)
  have jroom: "j0 + bound < length (number q1)"
    using quodig_split [OF ins] Lq nq1 by (simp add: j0_def bound_def)
  obtain s qn where it: "div_iter exact s1 (blk_v, int z) leb b q1 j0 n = Some (s, qn)"
    "div_inv b (s1 blk_u) (s1 blk_v) z leb j0 s qn n"
    "lp qn = lp q1" "len qn = len q1" "length (number qn) = length (number q1)"
    "drop (j0 + n) (number qn) = drop (j0 + n) (number q1)"
    using div_iter_inv [OF e(2,3) room jroom] n unfolding bound_def by blast
  have "engine_state_at exact junk num den q b scale n = Some (s, qn)"
    using e(1) it(1) by (simp add: engine_state_at_def)
  then show ?thesis
    using e it nq1
    by (intro exI [of _ s1] exI [of _ norm] exI [of _ s] exI [of _ qn]) simp
qed

lemma int_div_unique:
  fixes a q r v :: int
  assumes "a = q * v + r" "0 \<le> r" "r < v"
  shows "a div v = q"
  unfolding assms(1) by (rule int_div_eq [OF assms(2,3)])

lemma cancel_norm_div:
  fixes A D n B :: int
  assumes "1 \<le> n" "0 < B" "0 < D" "0 \<le> A"
  shows "((n * A) div B) div (n * D) = A div (B * D)"
proof -
  have "((n * A) div B) div (n * D) = (n * A) div (B * (n * D))"
    using assms(1,3) by (subst zdiv_zmult2_eq) simp_all
  also have "B * (n * D) = n * (B * D)" by (simp add: algebra_simps)
  also have "(n * A) div (n * (B * D)) = A div (B * D)"
    using assms(1) by simp
  finally show ?thesis .
qed

lemma engine_result:
  fixes num den q :: fxdpnt and scale :: nat
  defines "leb \<equiv> leb_of den" and "lea \<equiv> lea_of num den"
  defines "off \<equiv> offset_of num den scale"
    and "quodig \<equiv> quodig_of leb lea scale"
  assumes okn: "fx_ok b num" and okd: "fx_ok b den" and nz: "iszero den \<noteq> 0" and b: "2 \<le> b"
    and ins: "leb \<le> lea + scale"
    and qz: "number q = replicate Lq 0" and Lq: "quodig \<le> Lq"
  shows "\<exists>s2 q2. engine_state_at exact junk num den q b scale (Suc (lea + scale - leb)) = Some (s2, q2)
     \<and> arb_div_work exact junk num den q b scale = Some (remove_leading_zeros q2)
     \<and> lp q2 = quodig - scale \<and> len q2 = quodig \<and> length (number q2) = Lq
     \<and> digits_ok b (fx_digits q2)
     \<and> fx_int b q2 = (fx_int b num * b ^ off)
                        div (b ^ (len num + off - (lea + scale)) * fx_int b den)"
proof -
  define z where "z = lead_zeros (fx_digits den)"
  define j0 where "j0 = (if leb > lea then leb - lea else 0)"
  define q1 where "q1 = set_shape q quodig scale"
  define bound where "bound = lea + scale - leb"
  have b0: "0 < b" using b by simp
  obtain s1 norm s2 q2 where e:
    "loop_entry exact junk num den q b scale = Some (s1, (blk_v, int z), leb, q1, j0)"
    "length (s1 blk_u) = len num + off + 3"
    "digits_ok b (take (len num + off + 1) (s1 blk_u))"
    "dval b (take (len num + off + 1) (s1 blk_u)) = int norm * (fx_int b num * b ^ off)"
    "dval b (window (s1 blk_v) z leb) = int norm * fx_int b den"
    "1 \<le> norm"
    "engine_state_at exact junk num den q b scale (Suc bound) = Some (s2, q2)"
    "div_inv b (s1 blk_u) (s1 blk_v) z leb j0 s2 q2 (Suc bound)"
    "lp q2 = lp q1" "len q2 = len q1" "length (number q2) = Lq"
    using engine_iteration [OF okn okd nz b, of scale q Lq "Suc bound" junk] ins qz Lq
    unfolding z_def leb_def lea_def off_def j0_def q1_def bound_def quodig_def by blast
  have qd: "j0 + Suc bound = quodig"
    using quodig_split [OF ins] by (simp add: j0_def bound_def quodig_def)
  have shape: "lp q2 = quodig - scale" "len q2 = quodig"
    using e(9,10) ins by (auto simp add: q1_def set_shape_def quodig_def quodig_of_def)
  define V Q R where "V = dval b (window (s1 blk_v) z leb)"
    and "Q = dval b (take (j0 + Suc bound) (number q2))"
    and "R = dval b (window (s2 blk_u) (Suc bound) leb)"
  have inv: "R < V" "dval b (take (Suc bound + leb) (s1 blk_u)) = Q * V + R"
    "digits_ok b (take (j0 + Suc bound) (number q2))"
    using e(8) by (simp_all add: div_inv_def V_def Q_def R_def)
  have R0: "0 \<le> R" unfolding R_def using b0 by (intro dval_nonneg) simp
  have fq: "fx_digits q2 = take (j0 + Suc bound) (number q2)"
    using shape(2) qd by (simp add: fx_digits_def)
  have Qd: "Q = dval b (take (Suc bound + leb) (s1 blk_u)) div V"
    using int_div_unique [OF inv(2) R0 inv(1)] by simp
  define ys_u where "ys_u = take (len num + off + 1) (s1 blk_u)"
  have lys: "length ys_u = len num + off + 1" using e(2) by (simp add: ys_u_def)
  have sz: "lea + scale \<le> len num + off"
    using sizes(1) [OF okn okd, of scale] by (simp add: lea_def off_def)
  have bl: "Suc bound + leb = lea + scale + 1" using ins by (simp add: bound_def)
  have "take (Suc bound + leb) (s1 blk_u) = take (lea + scale + 1) ys_u"
    using sz bl by (simp add: ys_u_def min_def)
  also have "dval b \<dots> = dval b ys_u div b ^ (length ys_u - (lea + scale + 1))"
    using sz lys e(3) b0 by (intro dval_take) (simp_all add: ys_u_def)
  also have "length ys_u - (lea + scale + 1) = len num + off - (lea + scale)"
    using lys by simp
  finally have pre: "dval b (take (Suc bound + leb) (s1 blk_u)) =
      (int norm * (fx_int b num * b ^ off)) div b ^ (len num + off - (lea + scale))"
    using e(4) by (simp add: ys_u_def)
  have Dpos: "0 < fx_int b den"
  proof -
    have "0 < V" using R0 inv(1) by linarith
    then show ?thesis using e(5,6) unfolding V_def by (simp add: zero_less_mult_iff)
  qed
  have N0: "0 \<le> fx_int b num * b ^ off"
    using b0 dval_nonneg [of b "fx_digits num"] by (simp add: fx_int_def)
  have "Q = ((int norm * (fx_int b num * b ^ off)) div b ^ (len num + off - (lea + scale)))
              div (int norm * fx_int b den)"
    unfolding Qd pre V_def e(5) by simp
  also have "\<dots> = (fx_int b num * b ^ off) div (b ^ (len num + off - (lea + scale)) * fx_int b den)"
    using e(6) b0 Dpos N0 by (intro cancel_norm_div) simp_all
  finally have Qv: "fx_int b q2 =
      (fx_int b num * b ^ off) div (b ^ (len num + off - (lea + scale)) * fx_int b den)"
    by (simp add: fx_int_def fq Q_def)
  have "\<not> leb > lea_of num den + scale" using ins by (simp add: lea_def)
  then have "arb_div_work exact junk num den q b scale =
     map_option (\<lambda>(s2, q2). remove_leading_zeros q2)
       (div_iter exact s1 (blk_v, int z) leb b q1 j0 (Suc (lea_of num den + scale - leb)))"
    by (rule arb_div_work_loop [OF e(1)])
  moreover have "div_iter exact s1 (blk_v, int z) leb b q1 j0 (Suc bound) = Some (s2, q2)"
    using e(7) e(1) by (simp add: engine_state_at_def)
  ultimately have work: "arb_div_work exact junk num den q b scale = Some (remove_leading_zeros q2)"
    by (simp add: bound_def lea_def)
  have dq: "digits_ok b (fx_digits q2)" using inv(3) by (simp only: fq)
  show ?thesis
    using e(7,11) work shape dq Qv unfolding bound_def
    by (intro exI [of _ s2] exI [of _ q2]) simp
qed

lemma rlz_props:
  assumes "lp c \<le> len c" "len c \<le> length (number c)"
  shows "rr (remove_leading_zeros c) = rr c
     \<and> fx_int b (remove_leading_zeros c) = fx_int b c
     \<and> lp (remove_leading_zeros c) \<le> len (remove_leading_zeros c)
     \<and> len (remove_leading_zeros c) \<le> length (number (remove_leading_zeros c))
     \<and> (digits_ok b (fx_digits c) \<longrightarrow> digits_ok b (fx_digits (remove_leading_zeros c)))
     \<and> (lp (remove_leading_zeros c) \<le> 1 \<or> number (remove_leading_zeros c) ! 0 \<noteq> 0)
     \<and> (1 \<le> lp c \<longrightarrow> 1 \<le> lp (remove_leading_zeros c))"
  using assms
proof (induction c rule: remove_leading_zeros.induct)
  case (1 c)
  show ?case
  proof (cases "number c")
    case Nil
    then have "remove_leading_zeros c = c" using remove_leading_zeros.simps [of c] by simp
    then show ?thesis using "1.prems" Nil by simp
  next
    case (Cons d ds)
    show ?thesis
    proof (cases "1 < lp c \<and> d = 0")
      case True
      define c' where "c' = c\<lparr>number := ds, lp := lp c - 1, len := len c - 1\<rparr>"
      have t: "1 < lp c" "d = 0" using True by simp_all
      have r: "remove_leading_zeros c = remove_leading_zeros c'"
        using remove_leading_zeros.simps [of c] t by (simp add: Cons c'_def)
      have p: "lp c' \<le> len c'" "len c' \<le> length (number c')"
        using "1.prems" Cons t(1) by (simp_all add: c'_def)
      have IH: "rr (remove_leading_zeros c') = rr c'
         \<and> fx_int b (remove_leading_zeros c') = fx_int b c'
         \<and> lp (remove_leading_zeros c') \<le> len (remove_leading_zeros c')
         \<and> len (remove_leading_zeros c') \<le> length (number (remove_leading_zeros c'))
         \<and> (digits_ok b (fx_digits c') \<longrightarrow> digits_ok b (fx_digits (remove_leading_zeros c')))
         \<and> (lp (remove_leading_zeros c') \<le> 1 \<or> number (remove_leading_zeros c') ! 0 \<noteq> 0)
         \<and> (1 \<le> lp c' \<longrightarrow> 1 \<le> lp (remove_leading_zeros c'))"
        unfolding c'_def by (rule "1.IH" [OF Cons True p [unfolded c'_def]])
      have ln: "len c = Suc (len c - 1)" using "1.prems" t(1) by simp
      have fd: "fx_digits c = 0 # fx_digits c'"
        unfolding fx_digits_def by (subst ln) (simp add: Cons t(2) c'_def)
      have "rr c' = rr c" using "1.prems" t(1) by (simp add: rr_def c'_def)
      moreover have "fx_int b c' = fx_int b c" by (simp add: fx_int_def fd dval_Cons)
      moreover have "digits_ok b (fx_digits c) \<longrightarrow> digits_ok b (fx_digits c')" by (simp add: fd)
      moreover have "1 \<le> lp c'" using t(1) by (simp add: c'_def)
      ultimately show ?thesis using IH unfolding r by simp
    next
      case False
      then have "remove_leading_zeros c = c"
        using remove_leading_zeros.simps [of c] by (auto simp add: Cons)
      then show ?thesis using "1.prems" Cons False by auto
    qed
  qed
qed

lemma quotient_scaled:
  fixes num den :: fxdpnt and scale :: nat and N D b :: int
  assumes okn: "fx_ok b num" and okd: "fx_ok b den" and b: "0 < b"
  shows "(N * b ^ offset_of num den scale)
           div (b ^ (len num + offset_of num den scale - (lea_of num den + scale)) * D)
         = (N * b ^ (rr den + scale)) div (D * b ^ rr num)"
proof (cases "uscal_of num den < int scale")
  case True
  have e: "len num + offset_of num den scale = lea_of num den + scale"
    and o: "offset_of num den scale + rr num = rr den + scale"
    using sizes(2) [OF okn okd True] by simp_all
  have x: "N * b ^ (rr den + scale) = (N * b ^ offset_of num den scale) * b ^ rr num"
    unfolding o [symmetric] by (simp add: power_add)
  have "(N * b ^ (rr den + scale)) div (D * b ^ rr num)
      = ((N * b ^ offset_of num den scale) * b ^ rr num) div (D * b ^ rr num)"
    by (simp only: x)
  also have "\<dots> = (N * b ^ offset_of num den scale) div D"
    using b by (intro div_mult_mult2) simp
  finally show ?thesis by (simp add: e)
next
  case False
  define e where "e = len num - (lea_of num den + scale)"
  define k where "k = rr den + scale"
  have o: "offset_of num den scale = 0" and r: "e + k = rr num"
    using sizes(3) [OF okn okd False] by (simp_all add: e_def k_def)
  have x: "D * b ^ rr num = (b ^ e * D) * b ^ k"
    unfolding r [symmetric] by (simp add: power_add)
  have "(N * b ^ k) div (D * b ^ rr num) = (N * b ^ k) div ((b ^ e * D) * b ^ k)"
    by (simp only: x)
  also have "\<dots> = N div (b ^ e * D)"
    using b by (intro div_mult_mult2) simp
  finally show ?thesis by (simp add: o e_def k_def)
qed

lemma divisor_lower:
  assumes okd: "fx_ok b den" and nz: "iszero den \<noteq> 0" and b: "0 < b"
  shows "b ^ (leb_of den - 1) \<le> fx_int b den" "1 \<le> leb_of den" "leb_of den \<le> len den"
proof -
  obtain d rest where dd: "divisor_digits den = d # rest" "d \<noteq> 0"
    using divisor_facts(1) [OF okd nz b] by blast
  have l: "length rest = leb_of den - 1" "1 \<le> leb_of den"
    using divisor_facts(2) [OF okd nz b] dd(1) by simp_all
  have "digits_ok b (d # rest)" using divisor_facts(3) [OF okd nz b] dd(1) by simp
  then have "int d * b ^ length rest \<le> dval b (d # rest)" using b by (rule dval_lead(1))
  moreover have "1 * b ^ length rest \<le> int d * b ^ length rest"
    using dd(2) b by (intro mult_right_mono) simp_all
  ultimately show "b ^ (leb_of den - 1) \<le> fx_int b den"
    using divisor_facts(4) [OF okd nz b] dd(1) l(1) by simp
  show "1 \<le> leb_of den" by (rule l(2))
  show "leb_of den \<le> len den" using divisor_facts(5) [OF okd nz b] by simp
qed

lemma early_quotient_zero:
  fixes num den :: fxdpnt and scale :: nat
  assumes okn: "fx_ok b num" and okd: "fx_ok b den" and nz: "iszero den \<noteq> 0" and b: "0 < b"
    and early: "leb_of den > lea_of num den + scale"
  shows "(fx_int b num * b ^ (rr den + scale)) div (fx_int b den * b ^ rr num) = 0"
proof -
  define N D where "N = fx_int b num" and "D = fx_int b den"
  have N: "0 \<le> N" "N < b ^ len num"
    using dval_nonneg [of b "fx_digits num"] dval_less [of b "fx_digits num"] okn b
    by (simp_all add: N_def fx_int_def fx_ok_def length_fx_digits [OF okn])
  have D: "b ^ (leb_of den - 1) \<le> D" unfolding D_def by (rule divisor_lower(1) [OF okd nz b])
  have ln: "len num = rl num + rr num" using okn by (simp add: fx_ok_def rl_def rr_def)
  have le: "lea_of num den + scale \<le> leb_of den - 1" using early by simp
  have "N * b ^ (rr den + scale) < b ^ len num * b ^ (rr den + scale)"
    using N(2) b by (intro mult_strict_right_mono) simp_all
  also have "\<dots> = b ^ (lea_of num den + scale) * b ^ rr num"
    by (simp add: ln lea_of_def power_add)
  also have "\<dots> \<le> b ^ (leb_of den - 1) * b ^ rr num"
    using b le by (intro mult_right_mono power_increasing) simp_all
  also have "\<dots> \<le> D * b ^ rr num"
    using D b by (intro mult_right_mono) simp_all
  finally have "N * b ^ (rr den + scale) < D * b ^ rr num" .
  moreover have "0 \<le> N * b ^ (rr den + scale)" using N(1) b by simp
  ultimately show ?thesis unfolding N_def D_def by (rule div_pos_pos_trivial [rotated])
qed

lemma early_out_eq:
  assumes "fx_ok b num" "fx_ok b den" "iszero den \<noteq> 0"
  shows "early_out junk num den scale =
     Some (if leb_of den > lea_of num den + scale then 1 else 0)"
  unfolding early_out_def arb_div_prepare_eq [OF assms]
  by (simp add: out_of_scale_of_def leb_of_def)

lemma arb_div_outcome:
  fixes num den :: fxdpnt and scale :: nat
  defines "leb \<equiv> leb_of den" and "lea \<equiv> lea_of num den"
  defines "L \<equiv> len num + len den + scale"
  assumes okn: "fx_ok b num" and okd: "fx_ok b den" and nz: "iszero den \<noteq> 0" and b: "2 \<le> b"
  shows "leb > lea + scale \<Longrightarrow>
           arb_div exact junk num den b scale = Inr \<lparr>number = replicate L 0, lp = 1, len = scale + 1\<rparr>"
    and "leb \<le> lea + scale \<Longrightarrow>
           \<exists>s2 q2. engine_state_at exact junk num den (arb_expand L) b scale (Suc (lea + scale - leb))
                     = Some (s2, q2)
             \<and> arb_div exact junk num den b scale = Inr (remove_leading_zeros q2)
             \<and> lp q2 = quodig_of leb lea scale - scale \<and> len q2 = quodig_of leb lea scale
             \<and> length (number q2) = L \<and> digits_ok b (fx_digits q2)
             \<and> fx_int b q2 = (fx_int b num * b ^ (rr den + scale)) div (fx_int b den * b ^ rr num)"
proof -
  have b0: "0 < b" using b by simp
  have prep: "arb_div_prepare junk num den scale =
     Some (setup_store junk num den (offset_of num den scale),
           (blk_v, int (lead_zeros (fx_digits den))), leb)"
    unfolding leb_def leb_of_def by (rule arb_div_prepare_eq [OF okn okd nz])
  have lb: "1 \<le> leb" "leb \<le> len den"
    unfolding leb_def by (rule divisor_lower(2,3) [OF okd nz b0])+
  {
    assume early: "leb > lea + scale"
    have "arb_div_work exact junk num den (arb_expand L) b scale =
       Some (remove_leading_zeros (set_shape (arb_expand L) (scale + 1) scale))"
      using early unfolding lea_def by (intro arb_div_work_early [OF prep])
    moreover have "set_shape (arb_expand L) (scale + 1) scale =
        \<lparr>number = replicate L 0, lp = 1, len = scale + 1\<rparr>"
      by (simp add: set_shape_def arb_expand_def)
    moreover have "remove_leading_zeros \<lparr>number = replicate L 0, lp = 1, len = scale + 1\<rparr> =
        \<lparr>number = replicate L 0, lp = 1, len = scale + 1\<rparr>"
      using remove_leading_zeros.simps [of "\<lparr>number = replicate L 0, lp = 1, len = scale + 1\<rparr>"]
      by (simp split: list.splits)
    ultimately show "arb_div exact junk num den b scale =
        Inr \<lparr>number = replicate L 0, lp = 1, len = scale + 1\<rparr>"
      using nz by (simp add: arb_div_def arb_div_inter_def L_def)
  }
  {
    assume ins: "leb \<le> lea + scale"
    have lea_le: "lea \<le> len num + len den"
      using okn okd by (auto simp add: lea_def lea_of_def rl_def rr_def fx_ok_def)
    have Lq: "quodig_of leb lea scale \<le> L"
      using lb lea_le by (auto simp add: quodig_of_def L_def)
    have qz: "number (arb_expand L) = replicate L 0" by (simp add: arb_expand_def)
    obtain s2 q2 where r:
      "engine_state_at exact junk num den (arb_expand L) b scale (Suc (lea + scale - leb)) = Some (s2, q2)"
      "arb_div_work exact junk num den (arb_expand L) b scale = Some (remove_leading_zeros q2)"
      "lp q2 = quodig_of leb lea scale - scale" "len q2 = quodig_of leb lea scale"
      "length (number q2) = L" "digits_ok b (fx_digits q2)"
      "fx_int b q2 = (fx_int b num * b ^ offset_of num den scale)
                        div (b ^ (len num + offset_of num den scale - (lea + scale)) * fx_int b den)"
      using engine_result [OF okn okd nz b, of scale "arb_expand L" L junk] ins qz Lq
      unfolding leb_def lea_def by blast
    have "fx_int b q2 = (fx_int b num * b ^ (rr den + scale)) div (fx_int b den * b ^ rr num)"
      unfolding r(7) lea_def by (rule quotient_scaled [OF okn okd b0])
    then show "\<exists>s2 q2. engine_state_at exact junk num den (arb_expand L) b scale (Suc (lea + scale - leb))
                     = Some (s2, q2)
             \<and> arb_div exact junk num den b scale = Inr (remove_leading_zeros q2)
             \<and> lp q2 = quodig_of leb lea scale - scale \<and> len q2 = quodig_of leb lea scale
             \<and> length (number q2) = L \<and> digits_ok b (fx_digits q2)
             \<and> fx_int b q2 = (fx_int b num * b ^ (rr den + scale)) div (fx_int b den * b ^ rr num)"
      using r(1-6) nz
      by (intro exI [of _ s2] exI [of _ q2]) (simp add: arb_div_def arb_div_inter_def L_def)
  }
qed

lemma arb_div_meaning:
  fixes num den :: fxdpnt and scale :: nat
  assumes okn: "fx_ok b num" and okd: "fx_ok b den" and nz: "iszero den \<noteq> 0" and b: "2 \<le> b"
  shows "\<exists>q. arb_div exact junk num den b scale = Inr q
     \<and> fx_ok b q \<and> rr q = scale \<and> 1 \<le> lp q \<and> (lp q \<le> 1 \<or> number q ! 0 \<noteq> 0)
     \<and> fx_int b q = (fx_int b num * b ^ (rr den + scale)) div (fx_int b den * b ^ rr num)"
proof (cases "leb_of den > lea_of num den + scale")
  case True
  define L where "L = len num + len den + scale"
  define q where "q = \<lparr>number = replicate L 0, lp = 1, len = scale + 1\<rparr>"
  have b0: "0 < b" using b by simp
  have r: "arb_div exact junk num den b scale = Inr q"
    unfolding q_def L_def by (rule arb_div_outcome(1) [OF okn okd nz b True])
  have "1 \<le> len den" using divisor_lower(2,3) [OF okd nz b0] by linarith
  then have ok: "fx_ok b q" using b0
    by (simp add: fx_ok_def q_def L_def fx_digits_def del: replicate_Suc)
  have z: "fx_int b q = 0" by (simp add: fx_int_def fx_digits_def q_def min_def)
  show ?thesis
    using r ok z early_quotient_zero [OF okn okd nz b0 True]
    by (intro exI [of _ q]) (simp add: q_def rr_def)
next
  case False
  then have ins: "leb_of den \<le> lea_of num den + scale" by simp
  obtain s2 q2 where r:
    "arb_div exact junk num den b scale = Inr (remove_leading_zeros q2)"
    "lp q2 = quodig_of (leb_of den) (lea_of num den) scale - scale"
    "len q2 = quodig_of (leb_of den) (lea_of num den) scale"
    "length (number q2) = len num + len den + scale" "digits_ok b (fx_digits q2)"
    "fx_int b q2 = (fx_int b num * b ^ (rr den + scale)) div (fx_int b den * b ^ rr num)"
    using arb_div_outcome(2) [OF okn okd nz b ins, where junk = junk] by blast
  have b0: "0 < b" using b by simp
  have lb: "1 \<le> leb_of den" "leb_of den \<le> len den"
    by (rule divisor_lower(2,3) [OF okd nz b0])+
  have lea_le: "lea_of num den \<le> len num + len den"
    using okn okd by (auto simp add: lea_of_def rl_def rr_def fx_ok_def)
  have qd: "scale + 1 \<le> quodig_of (leb_of den) (lea_of num den) scale"
    "quodig_of (leb_of den) (lea_of num den) scale \<le> len num + len den + scale"
    using lb lea_le by (auto simp add: quodig_of_def)
  have sh: "lp q2 \<le> len q2" "len q2 \<le> length (number q2)" "1 \<le> lp q2" "rr q2 = scale"
    using r(2,3,4) qd by (simp_all add: rr_def)
  note p = rlz_props [OF sh(1,2), of b]
  have "fx_ok b (remove_leading_zeros q2)" using p r(5) by (simp add: fx_ok_def)
  then show ?thesis
    using r(1,6) p sh(3,4)
    by (intro exI [of _ "remove_leading_zeros q2"]) simp
qed

lemma rlz_id: "lp c \<le> 1 \<Longrightarrow> remove_leading_zeros c = c"
  using remove_leading_zeros.simps [of c] by (simp split: list.splits)

lemma prepared_leb:
  assumes "fx_ok b num" "fx_ok b den" "iszero den \<noteq> 0"
  shows "map_option (snd \<circ> snd) (arb_div_prepare junk num den scale) = Some (leb_of den)"
  unfolding arb_div_prepare_eq [OF assms] by (simp add: leb_of_def)

lemma quodig_fits:
  assumes okn: "fx_ok b num" and okd: "fx_ok b den" and nz: "iszero den \<noteq> 0" and b: "0 < b"
  shows "quodig_of (leb_of den) (lea_of num den) scale \<le> len num + len den + scale"
proof -
  have lb: "1 \<le> leb_of den" "leb_of den \<le> len den"
    by (rule divisor_lower(2,3) [OF okd nz b])+
  have "lea_of num den \<le> len num + len den"
    using okn okd by (auto simp add: lea_of_def rl_def rr_def fx_ok_def)
  then show ?thesis using lb by (auto simp add: quodig_of_def)
qed








section \<open>The engine in exact arithmetic\<close>

lemma shmul_exact_result:
  assumes "fst num \<noteq> fst result \<or> num = result"
    and "snd num = int so" and "so + n \<le> length (s (fst num))"
    and "snd result = int (Suc ro)" and "Suc ro + n \<le> length (s (fst result))"
    and "0 < b"
  shows "shmul exact s num n d result b =
     Some (s(fst result := put_window (s (fst result)) ro
             (scale_spec b d (s (fst result) ! ro) (window (s (fst num)) so n))))"
proof -
  define rs src where "rs = s (fst result)" and "src = window (s (fst num)) so n"
  have ls: "length src = n"
    using assms by (simp add: src_def length_window)
  have ali: "fst result \<noteq> fst num \<or> result = num"
    using assms(1) by auto
  consider "d = 0" | "d = 1" | "d \<noteq> 0" "d \<noteq> 1" by blast
  then show ?thesis
  proof cases
    case 1
    have "shmul exact s num n d result b = Some (s(fst result := put_window rs (Suc ro) (replicate n 0)))"
      using 1 assms arb_memset_eq [of result "Suc ro" n s 0] by (simp add: shmul_def rs_def)
    moreover have "put_window rs (Suc ro) (replicate n 0) = put_window rs ro (scale_spec b d (rs ! ro) src)"
      using 1 assms ls put_window_keep [of ro "replicate n 0" rs] by (simp add: scale_spec_def rs_def)
    ultimately show ?thesis by (simp add: rs_def src_def)
  next
    case 2
    have "shmul exact s num n d result b = Some (s(fst result := put_window rs (Suc ro) src))"
      using 2 arb_copy_core_eq [OF ali assms(2-5)] by (simp add: shmul_def rs_def src_def)
    moreover have "put_window rs (Suc ro) src = put_window rs ro (scale_spec b d (rs ! ro) src)"
      using 2 assms ls put_window_keep [of ro src rs] by (simp add: scale_spec_def rs_def)
    ultimately show ?thesis by (simp add: rs_def src_def)
  next
    case 3
    obtain ys c where r: "scale_digits b d (rev src) 0 = (ys, c)"
      by (cases "scale_digits b d (rev src) 0")
    have ly: "length ys = n"
      using length_scale_digits [OF r] ls by simp
    define s1 where "s1 = s(fst result := put_window rs (Suc ro) (rev ys))"
    have loop: "shmul_loop exact s num d result b n 0 = Some (s1, c)"
      unfolding s1_def rs_def
      using assms r by (intro shmul_loop_eq) (simp_all add: src_def)
    have fit: "ro + Suc (length (rev ys)) \<le> length rs"
      using assms ly by (simp add: rs_def)
    show ?thesis
    proof (cases "c = 0")
      case True
      have "shmul exact s num n d result b = Some s1"
        using 3 loop True by (simp add: shmul_def)
      moreover have "put_window rs (Suc ro) (rev ys) = put_window rs ro (scale_spec b d (rs ! ro) src)"
        using 3 True r put_window_keep [OF fit] by (simp add: scale_spec_def)
      ultimately show ?thesis by (simp add: s1_def rs_def src_def)
    next
      case False
      have "length (s1 (fst result)) = length rs"
        using fit by (simp add: s1_def)
      then have "wr s1 (idx result (- 1)) (nat c) =
          Some (s1(fst result := (s1 (fst result))[ro := nat c]))"
        using assms(4) fit by (simp add: wr_at [where n = ro])
      then have "shmul exact s num n d result b = Some (s1(fst result := (s1 (fst result))[ro := nat c]))"
        using 3 loop False by (simp add: shmul_def)
      moreover have "(s1 (fst result))[ro := nat c] = put_window rs ro (scale_spec b d (rs ! ro) src)"
        using 3 False r put_window_then_update [OF fit, of "nat c"] by (simp add: scale_spec_def s1_def)
      ultimately show ?thesis by (simp add: s1_def rs_def src_def)
    qed
  qed
qed

lemma sub_then_add_exact:
  assumes "fst u \<noteq> fst v"
    and "snd u + i = int p" and "k \<le> p" and "p < length (s (fst u))"
    and "snd v = int vo" and "vo + k < length (s (fst v))"
    and "digits_ok b (window (s (fst u)) (p - k) (Suc k))"
    and "digits_ok b (window (s (fst v)) vo (Suc k))"
  shows "\<exists>ys borrow. length ys = Suc k \<and> digits_ok b ys
     \<and> long_sub exact s u i v k b = Some (s(fst u := put_window (s (fst u)) (p - k) ys), borrow)
     \<and> long_add exact (s(fst u := put_window (s (fst u)) (p - k) ys)) u i v k b = Some (s, borrow)
     \<and> (\<forall>n. n < p - k \<or> p < n \<longrightarrow> put_window (s (fst u)) (p - k) ys ! n = s (fst u) ! n)"
proof -
  define xs vs where "xs = s (fst u)" and "vs = s (fst v)"
  define wu wv where "wu = window xs (p - k) (Suc k)" and "wv = window vs vo (Suc k)"
  obtain zs c' where r: "sub_digits b (rev wu) (rev wv) 0 = (zs, c')"
    by (cases "sub_digits b (rev wu) (rev wv) 0")
  have lw: "length wu = Suc k" "length wv = Suc k"
    using assms by (simp_all add: wu_def wv_def xs_def vs_def length_window)
  have lz: "length zs = Suc k"
    using length_sub_digits [of b "rev wu" "rev wv" 0] r lw by simp
  define s1 where "s1 = s(fst u := put_window xs (p - k) (rev zs))"
  have sub: "long_sub exact s u i v k b = Some (s1, c')"
    unfolding long_sub_def s1_def xs_def
    using assms(1-6) r by (intro long_sub_loop_eq) (simp_all add: wu_def wv_def xs_def vs_def)
  have inv: "add_digits b zs (rev wv) 0 = (rev wu, c')"
    using assms(7,8) lw r by (intro add_sub_digits) (simp_all add: wu_def wv_def xs_def vs_def)
  have fit: "p - k + Suc k \<le> length xs"
    using assms by (simp add: xs_def)
  have s1u: "s1 (fst u) = put_window xs (p - k) (rev zs)" and s1v: "s1 (fst v) = vs"
    using assms(1) by (auto simp: s1_def vs_def)
  have w1: "window (s1 (fst u)) (p - k) (Suc k) = rev zs"
    using window_put_window [of "p - k" "rev zs" xs] fit lz by (simp add: s1u)
  have p1: "p < length (s1 (fst u))" and p2: "vo + k < length (s1 (fst v))"
    using assms fit lz by (simp_all add: s1u s1v xs_def vs_def)
  have p3: "add_digits b (rev (window (s1 (fst u)) (p - k) (Suc k)))
        (rev (window (s1 (fst v)) vo (Suc k))) 0 = (rev wu, c')"
    unfolding w1 s1v using inv by (simp add: wv_def)
  have a1: "long_add exact s1 u i v k b =
      Some (s1(fst u := put_window (s1 (fst u)) (p - k) (rev (rev wu))), c')"
    unfolding long_add_def
    by (rule long_add_loop_eq [OF assms(1,2,3) p1 assms(5) p2 p3])
  have a2: "put_window (s1 (fst u)) (p - k) (rev (rev wu)) = xs"
    using fit lz lw by (simp add: s1u wu_def)
  have a3: "s1(fst u := xs) = s"
    by (simp add: s1_def xs_def)
  have add: "long_add exact s1 u i v k b = Some (s, c')"
    unfolding a1 a2 a3 by simp
  have out: "\<forall>n. n < p - k \<or> p < n \<longrightarrow> put_window xs (p - k) (rev zs) ! n = xs ! n"
    using fit lz assms(3) by (auto intro!: nth_put_window_outside)
  have dz: "digits_ok b zs"
    using sub_digits_value [of "rev wu" "rev wv" b 0 zs c'] r lw assms(7,8)
    by (simp add: wu_def wv_def xs_def vs_def)
  show ?thesis
    using sub add out lz dz unfolding s1_def xs_def
    by (intro exI [of _ "rev zs"] exI [of _ c']) simp
qed

lemma hundredth_exact:
  "early_out junk \<lparr>number = [0, 0, 1], lp = 1, len = 3\<rparr> \<lparr>number = [1, 0, 0], lp = 3, len = 3\<rparr> 5 = Some 0
   \<and> (\<exists>st q. engine_state_at exact junk \<lparr>number = [0, 0, 1], lp = 1, len = 3\<rparr>
                 \<lparr>number = [1, 0, 0], lp = 3, len = 3\<rparr> (arb_expand 11) 10 5 4 = Some (st, q)
         \<and> arb_div exact junk \<lparr>number = [0, 0, 1], lp = 1, len = 3\<rparr> \<lparr>number = [1, 0, 0], lp = 3, len = 3\<rparr> 10 5
             = Inr q
         \<and> lp q = 1 \<and> len q = 6 \<and> fx_int 10 q = 10)"
proof -
  define N D where "N = \<lparr>number = [0, 0, 1], lp = 1, len = 3\<rparr>"
    and "D = \<lparr>number = [1, 0, 0 :: nat], lp = 3, len = 3\<rparr>"
  have h: "fx_ok 10 N" "fx_ok 10 D" "iszero D \<noteq> 0" "(2 :: int) \<le> 10"
    by (simp_all add: N_def D_def fx_ok_def fx_digits_def digits_ok_def iszero_def)
  have w: "lea_of N D = 1" "leb_of D = 3" "rr N = 2" "rr D = 0" "len N = 3" "len D = 3"
    "fx_int 10 N = 1" "fx_int 10 D = 100"
    by (simp_all add: N_def D_def lea_of_def leb_of_def rl_def rr_def lead_zeros_def fx_digits_def
        fx_int_def dval_def)
  have i: "leb_of D \<le> lea_of N D + 5" by (simp add: w)
  obtain st q where r:
    "engine_state_at exact junk N D (arb_expand (len N + len D + 5)) 10 5 (Suc (lea_of N D + 5 - leb_of D))
       = Some (st, q)"
    "arb_div exact junk N D 10 5 = Inr (remove_leading_zeros q)"
    "lp q = quodig_of (leb_of D) (lea_of N D) 5 - 5" "len q = quodig_of (leb_of D) (lea_of N D) 5"
    "fx_int 10 q = (fx_int 10 N * 10 ^ (rr D + 5)) div (fx_int 10 D * 10 ^ rr N)"
    using arb_div_outcome(2) [OF h i, where junk = junk] by blast
  have s: "lp q = 1" "len q = 6" "fx_int 10 q = 10"
    using r(3,4,5) by (simp_all add: w quodig_of_def)
  have "remove_leading_zeros q = q" using s(1) by (intro rlz_id) simp
  then have "engine_state_at exact junk N D (arb_expand 11) 10 5 4 = Some (st, q)
      \<and> arb_div exact junk N D 10 5 = Inr q \<and> lp q = 1 \<and> len q = 6 \<and> fx_int 10 q = 10"
    using r(1,2) s by (simp add: w)
  moreover have "early_out junk N D 5 = Some 0"
    by (simp add: early_out_eq [OF h(1-3)] w)
  ultimately show ?thesis unfolding N_def D_def by blast
qed

lemma shape_exact:
  assumes "fx_ok b N" and "fx_ok b D" and "iszero D \<noteq> 0" and "2 \<le> b"
  shows "map_option (snd \<circ> snd) (arb_div_prepare junk N D s) = Some (leb_of D)
   \<and> (lea_of N D + s < leb_of D \<longrightarrow>
        early_out junk N D s = Some 1
        \<and> arb_div exact junk N D b s
            = Inr \<lparr>number = replicate (len N + len D + s) 0, lp = 1, len = s + 1\<rparr>)
   \<and> (leb_of D \<le> lea_of N D + s \<longrightarrow>
        early_out junk N D s = Some 0
        \<and> (\<exists>st q. engine_state_at exact junk N D (arb_expand (len N + len D + s)) b s
                      (lea_of N D + s - leb_of D + 1) = Some (st, q)
              \<and> arb_div exact junk N D b s = Inr (remove_leading_zeros q)
              \<and> len q = lp q + s
              \<and> lp q = (if leb_of D \<le> lea_of N D then lea_of N D - leb_of D + 1 else 1)))"
proof (intro conjI impI)
  show "map_option (snd \<circ> snd) (arb_div_prepare junk N D s) = Some (leb_of D)"
    by (rule prepared_leb [OF assms(1-3)])
next
  assume e: "lea_of N D + s < leb_of D"
  then show "early_out junk N D s = Some 1"
    by (simp add: early_out_eq [OF assms(1-3)])
  show "arb_div exact junk N D b s = Inr \<lparr>number = replicate (len N + len D + s) 0, lp = 1, len = s + 1\<rparr>"
    using e by (rule arb_div_outcome(1) [OF assms])
next
  assume i: "leb_of D \<le> lea_of N D + s"
  then show "early_out junk N D s = Some 0"
    by (simp add: early_out_eq [OF assms(1-3)])
  obtain st q where r:
    "engine_state_at exact junk N D (arb_expand (len N + len D + s)) b s (Suc (lea_of N D + s - leb_of D))
       = Some (st, q)"
    "arb_div exact junk N D b s = Inr (remove_leading_zeros q)"
    "lp q = quodig_of (leb_of D) (lea_of N D) s - s" "len q = quodig_of (leb_of D) (lea_of N D) s"
    using arb_div_outcome(2) [OF assms i, where junk = junk] by blast
  have "len q = lp q + s" "lp q = (if leb_of D \<le> lea_of N D then lea_of N D - leb_of D + 1 else 1)"
    using r(3,4) i by (auto simp add: quodig_of_def)
  then show "\<exists>st q. engine_state_at exact junk N D (arb_expand (len N + len D + s)) b s
                      (lea_of N D + s - leb_of D + 1) = Some (st, q)
              \<and> arb_div exact junk N D b s = Inr (remove_leading_zeros q)
              \<and> len q = lp q + s
              \<and> lp q = (if leb_of D \<le> lea_of N D then lea_of N D - leb_of D + 1 else 1)"
    using r(1,2) by (intro exI [of _ st] exI [of _ q]) simp
qed


lemma truncated_exact:
  assumes "fx_ok b N" and "fx_ok b D" and "iszero D \<noteq> 0" and "2 \<le> b"
  shows "\<exists>q. arb_div exact junk N D b s = Inr q \<and> rr q = s
     \<and> fx_int b q = (fx_int b N * b ^ (rr D + s)) div (fx_int b D * b ^ rr N)
     \<and> fx_int b q * (fx_int b D * b ^ rr N) \<le> fx_int b N * b ^ (rr D + s)
     \<and> fx_int b N * b ^ (rr D + s) < (fx_int b q + 1) * (fx_int b D * b ^ rr N)"
proof -
  have b0: "0 < b" using assms(4) by simp
  obtain q where q: "arb_div exact junk N D b s = Inr q" "rr q = s"
    "fx_int b q = (fx_int b N * b ^ (rr D + s)) div (fx_int b D * b ^ rr N)"
    using arb_div_meaning [OF assms, of junk s] by blast
  have "0 < b ^ (leb_of D - 1)" using b0 by simp
  then have "0 < fx_int b D" using divisor_lower(1) [OF assms(2,3) b0] by linarith
  then have pos: "0 < fx_int b D * b ^ rr N" using b0 by simp
  show ?thesis
    using q int_div_lower [OF pos, of "fx_int b N * b ^ (rr D + s)"]
      int_div_upper [OF pos, of "fx_int b N * b ^ (rr D + s)"]
    by (intro exI [of _ q]) simp
qed

lemma invariant_exact:
  assumes "fx_ok b N" and "fx_ok b D" and "iszero D \<noteq> 0" and "2 \<le> b"
  shows "\<exists>q. arb_div exact junk N D b s = Inr q
     \<and> digits_ok b (fx_digits q) \<and> lp q \<le> len q \<and> len q \<le> length (number q)
     \<and> (lp q \<le> 1 \<or> number q ! 0 \<noteq> 0)"
proof -
  obtain q where q: "arb_div exact junk N D b s = Inr q" "fx_ok b q"
    "lp q \<le> 1 \<or> number q ! 0 \<noteq> 0"
    using arb_div_meaning [OF assms, of junk s] by blast
  show ?thesis using q by (intro exI [of _ q]) (simp add: fx_ok_def)
qed

section \<open>Machine arithmetic\<close>

text \<open>
  On a machine that is wide enough for the base, no conversion in the engine changes a
  value: every cell that is read holds a digit below the base, every value that is stored is
  a digit below the base, and every \<^verbatim>\<open>int\<close> expression stays between \<open>- 4 * b * b\<close> and
  \<open>4 * b * b\<close>. The functions of the engine then return what they return in exact
  arithmetic, from \<^verbatim>\<open>shmul\<close>, \<^verbatim>\<open>_long_sub\<close> and \<^verbatim>\<open>_long_add\<close> up to \<^verbatim>\<open>arb_div\<close>.
\<close>

lemma to_cell_id: "0 \<le> x \<Longrightarrow> x < int (cell_count mc) \<Longrightarrow> to_cell mc x = nat x"
  by (simp add: to_cell_def)

lemma to_int_id: "- int_half mc \<le> x \<Longrightarrow> x < int_half mc \<Longrightarrow> to_int mc x = x"
  by (simp add: to_int_def)

lemma square_bound:
  fixes x y b :: int
  assumes "0 \<le> x" "x < b" "0 \<le> y" "y < b"
  shows "x * y \<le> (b - 1) * (b - 1)"
  using assms by (intro mult_mono) simp_all

lemma digit_product:
  fixes x y b :: int
  assumes "0 \<le> x" "x < b" "0 \<le> y" "y < b"
  shows "x * y < 4 * b * b"
proof -
  have "x * y \<le> x * b" using assms by (intro mult_left_mono) simp_all
  also have "\<dots> < b * b" using assms by (intro mult_strict_right_mono) simp_all
  also have "\<dots> \<le> 4 * b * b" by simp
  finally show ?thesis .
qed

lemma machine_cell:
  assumes "machine_ok mc b" "0 \<le> x" "x < b"
  shows "to_cell mc x = nat x"
  using assms by (intro to_cell_id) (simp_all add: machine_ok_def)

lemma machine_int:
  assumes "machine_ok mc b" "1 \<le> b" "- (4 * b * b) \<le> x" "x < 4 * b * b"
  shows "to_int mc x = x"
  using assms by (intro to_int_id) (simp_all add: machine_ok_def)

lemma small_square:
  fixes b :: int
  assumes "1 \<le> b"
  shows "b \<le> b * b"
  using assms mult_left_mono [of 1 b b] by simp

lemma machine_int_small:
  assumes "machine_ok mc b" "1 \<le> b" "- (2 * b) \<le> x" "x < 2 * b"
  shows "to_int mc x = x"
proof -
  have "2 * b \<le> 4 * b * b" using assms(2) mult_mono [of 2 "4 * b" b b] by simp
  then have "- (4 * b * b) \<le> x" "x < 4 * b * b" using assms(3,4) by linarith+
  then show ?thesis by (rule machine_int [OF assms(1,2)])
qed

lemma rd_wr_other:
  assumes "wr s p x = Some s'" "q \<noteq> p"
  shows "rd s' q = rd s q"
proof -
  have s': "s' = s(fst p := (s (fst p))[nat (snd p) := x])" and ib: "in_block s p"
    using assms(1) by (auto simp add: wr_def split: if_splits)
  show ?thesis
  proof (cases "fst q = fst p")
    case False
    then show ?thesis by (simp add: rd_def in_block_def s')
  next
    case True
    then have ne: "snd q \<noteq> snd p" using assms(2) by (simp add: prod_eq_iff)
    show ?thesis
    proof (cases "in_block s q")
      case False
      then show ?thesis using True by (auto simp add: rd_def in_block_def s')
    next
      case q: True
      have "nat (snd q) \<noteq> nat (snd p)" using ne q ib by (auto simp add: in_block_def eq_nat_nat_iff)
      then show ?thesis using True q by (simp add: rd_def in_block_def s')
    qed
  qed
qed

lemma wr_frame:
  assumes "wr s p x = Some s'" "blk \<noteq> fst p"
  shows "s' blk = s blk"
  using assms by (auto simp add: wr_def split: if_splits)

lemma rd_digit:
  assumes "digits_ok b (s (fst p))" "rd s p = Some x"
  shows "int x < b"
proof -
  have ib: "in_block s p" and x: "x = s (fst p) ! nat (snd p)"
    using assms(2) by (auto simp add: rd_def split: if_splits)
  have "nat (snd p) < length (s (fst p))" using ib by (auto simp add: in_block_def nat_less_iff)
  then show ?thesis unfolding x using assms(1) by (intro digits_ok_nth)
qed

lemma rd_in_window:
  assumes "digits_ok b (window (s (fst q)) p n)" "snd q = int (p + j)" "j < n" "rd s q = Some x"
  shows "int x < b"
proof -
  have n: "nat (snd q) = p + j" by (simp only: assms(2) nat_int)
  have "in_block s q" "x = s (fst q) ! nat (snd q)"
    using assms(4) by (auto simp add: rd_def split: if_splits)
  then have ib: "p + j < length (s (fst q))" and x: "x = s (fst q) ! (p + j)"
    unfolding n using assms(2) by (simp_all add: in_block_def)
  have "j < length (window (s (fst q)) p n)" using ib assms(3) by (simp add: window_def)
  moreover have "window (s (fst q)) p n ! j = x" using ib assms(3) by (simp add: window_def x)
  ultimately show ?thesis using assms(1) by (auto simp add: digits_ok_def list_all_length)
qed

lemma shmul_loop_machine:
  assumes ok: "machine_ok mc b" and b: "1 \<le> b" and d: "int d < b"
    and al: "fst num \<noteq> fst result \<or> num = result"
  shows "0 \<le> c \<Longrightarrow> c < b
     \<Longrightarrow> (\<And>j x. j < n \<Longrightarrow> rd s (idx num (int j)) = Some x \<Longrightarrow> int x < b)
     \<Longrightarrow> shmul_loop mc s num d result b n c = shmul_loop exact s num d result b n c
         \<and> (\<forall>s' c'. shmul_loop exact s num d result b n c = Some (s', c') \<longrightarrow> 0 \<le> c' \<and> c' < b)"
proof (induction n arbitrary: s c)
  case 0
  then show ?case by simp
next
  case (Suc n)
  show ?case
  proof (cases "rd s (idx num (int n))")
    case None
    then show ?thesis using b by simp
  next
    case (Some x)
    have xb: "int x < b" using Suc.prems(3) [of n x] Some by simp
    define val where "val = int x * int d + c"
    have v0: "0 \<le> val" using Suc.prems(1) by (simp add: val_def)
    have "int x * int d \<le> (b - 1) * (b - 1)" using xb d by (intro square_bound) simp_all
    then have vb: "val < b * b" using Suc.prems(2) b by (simp add: val_def algebra_simps)
    have bb: "b * b \<le> 4 * b * b" using b by simp
    have ti: "to_int mc val = val" using ok b v0 vb bb by (intro machine_int [where b = b]) simp_all
    have sm: "val smod b = val mod b" "val sdiv b = val div b"
      using v0 b by (simp_all add: smod_nonneg sdiv_nonneg)
    have tc: "to_cell mc (val mod b) = nat (val mod b)"
      using ok b by (intro machine_cell [where b = b]) simp_all
    have c1: "0 \<le> val div b" "val div b < b"
    proof -
      show "0 \<le> val div b" using v0 b by (simp add: pos_imp_zdiv_nonneg_iff)
      show "val div b < b" using vb b by (intro int_div_less) simp_all
    qed
    show ?thesis
    proof (cases "wr s (idx result (int n)) (nat (val mod b))")
      case None
      then show ?thesis using Some b ti sm tc by (simp add: val_def Let_def)
    next
      case w: (Some s')
      have rds: "rd s' (idx num (int j)) = Some y \<Longrightarrow> int y < b" if "j < n" for j y
      proof -
        have "idx num (int j) \<noteq> idx result (int n)"
          using al that by (auto simp add: idx_def prod_eq_iff)
        then have "rd s' (idx num (int j)) = rd s (idx num (int j))"
          using w by (intro rd_wr_other)
        then show "rd s' (idx num (int j)) = Some y \<Longrightarrow> int y < b"
          using Suc.prems(3) [of j y] that by simp
      qed
      note IH = Suc.IH [OF c1 rds]
      have b0: "b \<noteq> 0" using b by simp
      have st_mc: "shmul_loop mc s num d result b (Suc n) c = shmul_loop mc s' num d result b n (val div b)"
        using Some w b0 ti sm tc by (simp add: val_def Let_def)
      have st_ex: "shmul_loop exact s num d result b (Suc n) c = shmul_loop exact s' num d result b n (val div b)"
        using Some w b0 sm by (simp add: val_def Let_def)
      show ?thesis unfolding st_mc st_ex by (rule IH)
    qed
  qed
qed

lemma shmul_machine:
  assumes ok: "machine_ok mc b" and b: "1 \<le> b" and d: "int d < b"
    and al: "fst num \<noteq> fst result \<or> num = result"
    and dg: "\<And>j x. j < n \<Longrightarrow> rd s (idx num (int j)) = Some x \<Longrightarrow> int x < b"
  shows "shmul mc s num n d result b = shmul exact s num n d result b"
proof -
  have z: "(0::int) \<le> 0" "0 < b" using b by simp_all
  have l: "shmul_loop mc s num d result b n 0 = shmul_loop exact s num d result b n 0
         \<and> (\<forall>s' c'. shmul_loop exact s num d result b n 0 = Some (s', c') \<longrightarrow> 0 \<le> c' \<and> c' < b)"
    by (rule shmul_loop_machine [OF ok b d al z]) (rule dg, assumption+)
  have eq: "shmul_loop mc s num d result b n 0 = shmul_loop exact s num d result b n 0"
    by (rule conjunct1 [OF l])
  show ?thesis
  proof (cases "shmul_loop exact s num d result b n 0")
    case None
    then show ?thesis using eq by (simp add: shmul_def)
  next
    case (Some r)
    obtain s' c' where r: "r = (s', c')" by (cases r)
    have "shmul_loop exact s num d result b n 0 = Some (s', c')" using Some r by simp
    then have "0 \<le> c' \<and> c' < b" using conjunct2 [OF l] by blast
    then have "0 \<le> c'" "c' < b" by simp_all
    then have "to_cell mc c' = nat c'" using ok by (intro machine_cell [where b = b])
    then show ?thesis using eq Some r by (simp add: shmul_def)
  qed
qed

lemma arb_memset_frame:
  "arb_memset s p x n = Some s' \<Longrightarrow> blk \<noteq> fst p \<Longrightarrow> s' blk = s blk"
proof (induction n arbitrary: s p)
  case 0
  then show ?case by simp
next
  case (Suc n)
  then obtain s1 where w: "wr s p x = Some s1" and r: "arb_memset s1 (idx p 1) x n = Some s'"
    by (auto simp add: bind_eq_Some_conv)
  have "s' blk = s1 blk" using Suc.IH [OF r] Suc.prems(2) by simp
  then show ?case using wr_frame [OF w Suc.prems(2)] by simp
qed

lemma arb_copy_core_frame:
  "arb_copy_core s dst src n = Some s' \<Longrightarrow> blk \<noteq> fst dst \<Longrightarrow> s' blk = s blk"
proof (induction n arbitrary: s dst src)
  case 0
  then show ?case by simp
next
  case (Suc n)
  then obtain y s1 where w: "wr s dst y = Some s1"
    and r: "arb_copy_core s1 (idx dst 1) (idx src 1) n = Some s'"
    by (auto simp add: bind_eq_Some_conv)
  have "s' blk = s1 blk" using Suc.IH [OF r] Suc.prems(2) by simp
  then show ?case using wr_frame [OF w Suc.prems(2)] by simp
qed

lemma shmul_loop_frame:
  "shmul_loop mc s num d result b n c = Some (s', c') \<Longrightarrow> blk \<noteq> fst result \<Longrightarrow> s' blk = s blk"
proof (induction n arbitrary: s c)
  case 0
  then show ?case by simp
next
  case (Suc n)
  then obtain y s1 c1 where w: "wr s (idx result (int n)) y = Some s1"
    and r: "shmul_loop mc s1 num d result b n c1 = Some (s', c')"
    by (auto simp add: bind_eq_Some_conv Let_def split: if_splits)
  have "s' blk = s1 blk" using Suc.IH [OF r] Suc.prems(2) by simp
  moreover have "blk \<noteq> fst (idx result (int n))" using Suc.prems(2) by simp
  ultimately show ?case using wr_frame [OF w] by simp
qed

lemma shmul_frame:
  assumes "shmul mc s num n d result b = Some s'" "blk \<noteq> fst result"
  shows "s' blk = s blk"
proof -
  consider "d = 0" | "d = 1" | "d \<noteq> 0" "d \<noteq> 1" by blast
  then show ?thesis
  proof cases
    case 1
    then show ?thesis using assms arb_memset_frame [of s result 0 n s' blk] by (simp add: shmul_def)
  next
    case 2
    then show ?thesis using assms arb_copy_core_frame [of s result num n s' blk] by (simp add: shmul_def)
  next
    case 3
    then obtain s1 c1 where l: "shmul_loop mc s num d result b n 0 = Some (s1, c1)"
      and f: "(if c1 \<noteq> 0 then wr s1 (idx result (- 1)) (to_cell mc c1) else Some s1) = Some s'"
      using assms(1) by (auto simp add: shmul_def bind_eq_Some_conv)
    have a: "s1 blk = s blk" by (rule shmul_loop_frame [OF l assms(2)])
    have "blk \<noteq> fst (idx result (- 1))" using assms(2) by simp
    then have "s' blk = s1 blk" using f wr_frame [of s1 "idx result (- 1)" "to_cell mc c1" s' blk]
      by (auto split: if_splits)
    then show ?thesis using a by simp
  qed
qed

lemma long_sub_loop_machine:
  assumes ok: "machine_ok mc b" and b: "1 \<le> b" and uv: "fst u \<noteq> fst v"
  shows "c = 0 \<or> c = 1
     \<Longrightarrow> (\<And>j x. j \<le> k \<Longrightarrow> rd s (idx u (i - int j)) = Some x \<Longrightarrow> int x < b)
     \<Longrightarrow> (\<And>j y. j \<le> k \<Longrightarrow> rd s (idx v (int j)) = Some y \<Longrightarrow> int y < b)
     \<Longrightarrow> long_sub_loop mc s u i v k b c = long_sub_loop exact s u i v k b c"
proof (induction k arbitrary: s i c)
  case 0
  note e1 = long_sub_loop.simps [of mc s u i v 0 b c]
  note e2 = long_sub_loop.simps [of exact s u i v 0 b c]
  show ?case
  proof (cases "rd s (idx u i)")
    case None
    then show ?thesis unfolding e1 e2 by simp
  next
    case x: (Some x)
    show ?thesis
    proof (cases "rd s (idx v (int 0))")
      case None
      then show ?thesis unfolding e1 e2 using x by simp
    next
      case y: (Some y)
      have xb: "int x < b" using "0.prems"(2) [of 0 x] x by simp
      have yb: "int y < b" using "0.prems"(3) [of 0 y] y by simp
      let ?val = "int x - int y - c"
      have vr: "- b \<le> ?val" "?val < b" using xb yb "0.prems"(1) by auto
      have ti: "to_int mc ?val = ?val"
        using vr b by (intro machine_int_small [OF ok b]) simp_all
      have ti2: "to_int mc (?val + b) = ?val + b"
        using vr b by (intro machine_int_small [OF ok b]) simp_all
      have tc: "?val < 0 \<Longrightarrow> to_cell mc (?val + b) = nat (?val + b)"
        "\<not> ?val < 0 \<Longrightarrow> to_cell mc ?val = nat ?val"
        using ok vr by (simp_all add: machine_cell [where b = b])
      show ?thesis unfolding e1 e2 using x y ti ti2 tc
        by (simp add: Let_def)
    qed
  qed
next
  case (Suc k)
  note e1 = long_sub_loop.simps [of mc s u i v "Suc k" b c]
  note e2 = long_sub_loop.simps [of exact s u i v "Suc k" b c]
  show ?case
  proof (cases "rd s (idx u i)")
    case None
    then show ?thesis unfolding e1 e2 by simp
  next
    case x: (Some x)
    show ?thesis
    proof (cases "rd s (idx v (int (Suc k)))")
      case None
      then show ?thesis unfolding e1 e2 using x by simp
    next
      case y: (Some y)
      have xb: "int x < b" using Suc.prems(2) [of 0 x] x by simp
      have yb: "int y < b" using Suc.prems(3) [of "Suc k" y] y by simp
      let ?val = "int x - int y - c"
      have vr: "- b \<le> ?val" "?val < b" using xb yb Suc.prems(1) by auto
      have ti: "to_int mc ?val = ?val"
        using vr b by (intro machine_int_small [OF ok b]) simp_all
      have ti2: "to_int mc (?val + b) = ?val + b"
        using vr b by (intro machine_int_small [OF ok b]) simp_all
      have tc: "?val < 0 \<Longrightarrow> to_cell mc (?val + b) = nat (?val + b)"
        "\<not> ?val < 0 \<Longrightarrow> to_cell mc ?val = nat ?val"
        using ok vr by (simp_all add: machine_cell [where b = b])
      have rest: "long_sub_loop mc s' u (i - 1) v k b c1 = long_sub_loop exact s' u (i - 1) v k b c1"
        if w: "wr s (idx u i) dg = Some s'" and c1: "c1 = 0 \<or> c1 = 1" for s' dg c1
      proof -
        have ru: "rd s' (idx u (i - 1 - int j)) = Some z \<Longrightarrow> int z < b" if "j \<le> k" for j z
        proof -
          have "idx u (i - 1 - int j) \<noteq> idx u i" by (simp add: idx_def)
          then have "rd s' (idx u (i - 1 - int j)) = rd s (idx u (i - int (Suc j)))"
            using w by (simp add: rd_wr_other algebra_simps)
          then show "rd s' (idx u (i - 1 - int j)) = Some z \<Longrightarrow> int z < b"
            using Suc.prems(2) [of "Suc j" z] that by simp
        qed
        have rv: "rd s' (idx v (int j)) = Some z \<Longrightarrow> int z < b" if "j \<le> k" for j z
        proof -
          have "idx v (int j) \<noteq> idx u i" using uv by (auto simp add: idx_def)
          then have "rd s' (idx v (int j)) = rd s (idx v (int j))"
            using w by (intro rd_wr_other)
          then show "rd s' (idx v (int j)) = Some z \<Longrightarrow> int z < b"
            using Suc.prems(3) [of j z] that by simp
        qed
        show ?thesis by (rule Suc.IH [OF c1 ru rv])
      qed
      show ?thesis
      proof (cases "?val < 0")
        case True
        show ?thesis
        proof (cases "wr s (idx u i) (nat (?val + b))")
          case None
          then show ?thesis unfolding e1 e2 using x y ti ti2 tc(1) [OF True] True by (simp add: Let_def)
        next
          case (Some s')
          have r: "long_sub_loop mc s' u (i - 1) v k b 1 = long_sub_loop exact s' u (i - 1) v k b 1"
            using Some by (intro rest) simp_all
          show ?thesis unfolding e1 e2 using x y ti ti2 tc(1) [OF True] True Some r by (simp add: Let_def)
        qed
      next
        case False
        show ?thesis
        proof (cases "wr s (idx u i) (nat ?val)")
          case None
          then show ?thesis unfolding e1 e2 using x y ti tc(2) [OF False] False by (simp add: Let_def)
        next
          case (Some s')
          have r: "long_sub_loop mc s' u (i - 1) v k b 0 = long_sub_loop exact s' u (i - 1) v k b 0"
            using Some by (intro rest) simp_all
          show ?thesis unfolding e1 e2 using x y ti tc(2) [OF False] False Some r by (simp add: Let_def)
        qed
      qed
    qed
  qed
qed

lemma long_add_loop_machine:
  assumes ok: "machine_ok mc b" and b: "1 \<le> b" and uv: "fst u \<noteq> fst v"
  shows "c = 0 \<or> c = 1
     \<Longrightarrow> (\<And>j x. j \<le> k \<Longrightarrow> rd s (idx u (i - int j)) = Some x \<Longrightarrow> int x < b)
     \<Longrightarrow> (\<And>j y. j \<le> k \<Longrightarrow> rd s (idx v (int j)) = Some y \<Longrightarrow> int y < b)
     \<Longrightarrow> long_add_loop mc s u i v k b c = long_add_loop exact s u i v k b c"
proof (induction k arbitrary: s i c)
  case 0
  note e1 = long_add_loop.simps [of mc s u i v 0 b c]
  note e2 = long_add_loop.simps [of exact s u i v 0 b c]
  show ?case
  proof (cases "rd s (idx u i)")
    case None
    then show ?thesis unfolding e1 e2 by simp
  next
    case x: (Some x)
    show ?thesis
    proof (cases "rd s (idx v (int 0))")
      case None
      then show ?thesis unfolding e1 e2 using x by simp
    next
      case y: (Some y)
      have xb: "int x < b" using "0.prems"(2) [of 0 x] x by simp
      have yb: "int y < b" using "0.prems"(3) [of 0 y] y by simp
      let ?val = "int x + int y + c"
      have vr: "0 \<le> ?val" "?val < 2 * b" using xb yb "0.prems"(1) by auto
      have ti: "to_int mc ?val = ?val"
        using vr b by (intro machine_int_small [OF ok b]) simp_all
      have ti2: "to_int mc (?val - b) = ?val - b"
        using vr b by (intro machine_int_small [OF ok b]) simp_all
      have tc: "b \<le> ?val \<Longrightarrow> to_cell mc (?val - b) = nat (?val - b)"
        "\<not> b \<le> ?val \<Longrightarrow> to_cell mc ?val = nat ?val"
        using ok vr by (simp_all add: machine_cell [where b = b])
      show ?thesis unfolding e1 e2 using x y ti ti2 tc
        by (simp add: Let_def)
    qed
  qed
next
  case (Suc k)
  note e1 = long_add_loop.simps [of mc s u i v "Suc k" b c]
  note e2 = long_add_loop.simps [of exact s u i v "Suc k" b c]
  show ?case
  proof (cases "rd s (idx u i)")
    case None
    then show ?thesis unfolding e1 e2 by simp
  next
    case x: (Some x)
    show ?thesis
    proof (cases "rd s (idx v (int (Suc k)))")
      case None
      then show ?thesis unfolding e1 e2 using x by simp
    next
      case y: (Some y)
      have xb: "int x < b" using Suc.prems(2) [of 0 x] x by simp
      have yb: "int y < b" using Suc.prems(3) [of "Suc k" y] y by simp
      let ?val = "int x + int y + c"
      have vr: "0 \<le> ?val" "?val < 2 * b" using xb yb Suc.prems(1) by auto
      have ti: "to_int mc ?val = ?val"
        using vr b by (intro machine_int_small [OF ok b]) simp_all
      have ti2: "to_int mc (?val - b) = ?val - b"
        using vr b by (intro machine_int_small [OF ok b]) simp_all
      have tc: "b \<le> ?val \<Longrightarrow> to_cell mc (?val - b) = nat (?val - b)"
        "\<not> b \<le> ?val \<Longrightarrow> to_cell mc ?val = nat ?val"
        using ok vr by (simp_all add: machine_cell [where b = b])
      have rest: "long_add_loop mc s' u (i - 1) v k b c1 = long_add_loop exact s' u (i - 1) v k b c1"
        if w: "wr s (idx u i) dg = Some s'" and c1: "c1 = 0 \<or> c1 = 1" for s' dg c1
      proof -
        have ru: "rd s' (idx u (i - 1 - int j)) = Some z \<Longrightarrow> int z < b" if "j \<le> k" for j z
        proof -
          have "idx u (i - 1 - int j) \<noteq> idx u i" by (simp add: idx_def)
          then have "rd s' (idx u (i - 1 - int j)) = rd s (idx u (i - int (Suc j)))"
            using w by (simp add: rd_wr_other algebra_simps)
          then show "rd s' (idx u (i - 1 - int j)) = Some z \<Longrightarrow> int z < b"
            using Suc.prems(2) [of "Suc j" z] that by simp
        qed
        have rv: "rd s' (idx v (int j)) = Some z \<Longrightarrow> int z < b" if "j \<le> k" for j z
        proof -
          have "idx v (int j) \<noteq> idx u i" using uv by (auto simp add: idx_def)
          then have "rd s' (idx v (int j)) = rd s (idx v (int j))"
            using w by (intro rd_wr_other)
          then show "rd s' (idx v (int j)) = Some z \<Longrightarrow> int z < b"
            using Suc.prems(3) [of j z] that by simp
        qed
        show ?thesis by (rule Suc.IH [OF c1 ru rv])
      qed
      show ?thesis
      proof (cases "b \<le> ?val")
        case True
        show ?thesis
        proof (cases "wr s (idx u i) (nat (?val - b))")
          case None
          then show ?thesis unfolding e1 e2 using x y ti ti2 tc(1) [OF True] True by (simp add: Let_def)
        next
          case (Some s')
          have r: "long_add_loop mc s' u (i - 1) v k b 1 = long_add_loop exact s' u (i - 1) v k b 1"
            using Some by (intro rest) simp_all
          show ?thesis unfolding e1 e2 using x y ti ti2 tc(1) [OF True] True Some r by (simp add: Let_def)
        qed
      next
        case False
        show ?thesis
        proof (cases "wr s (idx u i) (nat ?val)")
          case None
          then show ?thesis unfolding e1 e2 using x y ti tc(2) [OF False] False by (simp add: Let_def)
        next
          case (Some s')
          have r: "long_add_loop mc s' u (i - 1) v k b 0 = long_add_loop exact s' u (i - 1) v k b 0"
            using Some by (intro rest) simp_all
          show ?thesis unfolding e1 e2 using x y ti tc(2) [OF False] False Some r by (simp add: Let_def)
        qed
      qed
    qed
  qed
qed

lemma arb_mul_loop_machine:
  assumes ok: "machine_ok mc b" and b: "1 \<le> b" and d: "int d < b"
    and ac: "fst a \<noteq> fst cp"
  shows "0 \<le> c \<Longrightarrow> c < b
     \<Longrightarrow> (\<And>j x. j < n \<Longrightarrow> rd s (idx a (int j)) = Some x \<Longrightarrow> int x < b)
     \<Longrightarrow> arb_mul_loop mc s a d cp b n c = arb_mul_loop exact s a d cp b n c"
proof (induction n arbitrary: s c)
  case 0
  then show ?case using ok by (simp add: machine_cell [where b = b])
next
  case (Suc n)
  show ?case
  proof (cases "rd s (idx a (int n))")
    case None
    then show ?thesis using b by simp
  next
    case (Some x)
    have xb: "int x < b" using Suc.prems(3) [of n x] Some by simp
    define val where "val = int x * int d + c"
    have v0: "0 \<le> val" using Suc.prems(1) by (simp add: val_def)
    have "int x * int d \<le> (b - 1) * (b - 1)" using xb d by (intro square_bound) simp_all
    then have vb: "val < b * b" using Suc.prems(2) b by (simp add: val_def algebra_simps)
    have bb: "b * b \<le> 4 * b * b" using b by simp
    have ti: "to_int mc val = val" using ok b v0 vb bb by (intro machine_int [where b = b]) simp_all
    have sm: "val smod b = val mod b" "val sdiv b = val div b"
      using v0 b by (simp_all add: smod_nonneg sdiv_nonneg)
    have tc: "to_cell mc (val mod b) = nat (val mod b)"
      using ok b by (intro machine_cell [where b = b]) simp_all
    have c1: "0 \<le> val div b" "val div b < b"
    proof -
      show "0 \<le> val div b" using v0 b by (simp add: pos_imp_zdiv_nonneg_iff)
      show "val div b < b" using vb b by (intro int_div_less) simp_all
    qed
    have b0: "b \<noteq> 0" using b by simp
    show ?thesis
    proof (cases "wr s (idx cp (int (Suc n))) (nat (val mod b))")
      case None
      then show ?thesis using Some b0 ti sm tc by (simp add: val_def Let_def)
    next
      case w: (Some s')
      have rds: "rd s' (idx a (int j)) = Some y \<Longrightarrow> int y < b" if "j < n" for j y
      proof -
        have "idx a (int j) \<noteq> idx cp (int (Suc n))"
          using ac by (auto simp add: idx_def prod_eq_iff)
        then have "rd s' (idx a (int j)) = rd s (idx a (int j))"
          using w by (intro rd_wr_other)
        then show "rd s' (idx a (int j)) = Some y \<Longrightarrow> int y < b"
          using Suc.prems(3) [of j y] that by simp
      qed
      note IH = Suc.IH [OF c1 rds]
      have st_mc: "arb_mul_loop mc s a d cp b (Suc n) c = arb_mul_loop mc s' a d cp b n (val div b)"
        using Some w b0 ti sm tc by (simp add: val_def Let_def)
      have st_ex: "arb_mul_loop exact s a d cp b (Suc n) c = arb_mul_loop exact s' a d cp b n (val div b)"
        using Some w b0 sm by (simp add: val_def Let_def)
      show ?thesis unfolding st_mc st_ex by (rule IH)
    qed
  qed
qed

lemma norm_of_machine:
  assumes ok: "machine_ok mc b" and v: "1 \<le> v0" "int v0 < b"
  shows "norm_of mc b v0 = norm_of exact b v0" "int (norm_of exact b v0) < b"
proof -
  have b: "1 \<le> b" using v by linarith
  have t: "to_int mc (int v0 + 1) = int v0 + 1"
    using v b by (intro machine_int_small [OF ok b]) simp_all
  have sd: "b sdiv (int v0 + 1) = b div (int v0 + 1)"
    using b by (intro sdiv_nonneg) simp_all
  have q: "0 \<le> b div (int v0 + 1)" "b div (int v0 + 1) < b"
  proof -
    show "0 \<le> b div (int v0 + 1)" using b by (simp add: pos_imp_zdiv_nonneg_iff)
    have "b < b * (int v0 + 1)" using b v(1) by (simp add: algebra_simps)
    then show "b div (int v0 + 1) < b" by (intro int_div_less) simp_all
  qed
  show "norm_of mc b v0 = norm_of exact b v0"
    using q by (simp add: norm_of_def t sd machine_cell [OF ok])
  show "int (norm_of exact b v0) < b"
    using q by (simp add: norm_of_def sd)
qed

lemma trial_machine:
  assumes ok: "machine_ok mc b" and b: "2 \<le> b" and v0: "1 \<le> v0" "int v0 < b"
    and ui: "ui \<le> v0" and ui1: "int ui1 < b"
  shows "trial_digit mc b v0 ui ui1 = trial_digit exact b v0 ui ui1"
    and "\<exists>q0. trial_digit exact b v0 ui ui1 = Some q0 \<and> int q0 < b
           \<and> 0 \<le> int ui * b + int ui1 - int v0 * int q0
           \<and> int ui * b + int ui1 - int v0 * int q0 < 2 * b"
proof -
  have b1: "1 \<le> b" using b by simp
  define x where "x = int ui * b + int ui1"
  have x0: "0 \<le> x" using b by (simp add: x_def)
  have "int ui * b \<le> (b - 1) * b" using ui v0 b by (intro mult_right_mono) simp_all
  then have xb: "x < b * b" using ui1 by (simp add: x_def algebra_simps)
  have bb: "b * b \<le> 4 * b * b" using b by simp
  have ti: "to_int mc x = x" using ok b1 x0 xb bb by (intro machine_int [where b = b]) simp_all
  have tb: "to_cell mc (b - 1) = nat (b - 1)" using b by (intro machine_cell [OF ok]) simp_all
  show "trial_digit mc b v0 ui ui1 = trial_digit exact b v0 ui ui1"
  proof (cases "v0 = ui")
    case True
    then show ?thesis using tb by (simp add: trial_digit_def)
  next
    case False
    then have lt: "ui < v0" using ui by simp
    have v0p: "0 < int v0" using v0 by simp
    have sd: "x sdiv int v0 = x div int v0" using x0 v0p by (intro sdiv_nonneg) simp_all
    have q0: "0 \<le> x div int v0" using x0 v0p by (simp add: pos_imp_zdiv_nonneg_iff)
    have "int ui * b \<le> (int v0 - 1) * b" using lt b by (intro mult_right_mono) simp_all
    then have "x < b * int v0" using ui1 by (simp add: x_def algebra_simps)
    then have qb: "x div int v0 < b" using v0p by (intro int_div_less) simp_all
    have "to_cell mc (x div int v0) = nat (x div int v0)" using q0 qb by (intro machine_cell [OF ok])
    then show ?thesis using False v0 ti sd by (simp add: trial_digit_def x_def)
  qed
  show "\<exists>q0. trial_digit exact b v0 ui ui1 = Some q0 \<and> int q0 < b
           \<and> 0 \<le> int ui * b + int ui1 - int v0 * int q0
           \<and> int ui * b + int ui1 - int v0 * int q0 < 2 * b"
  proof (cases "v0 = ui")
    case True
    have "trial_digit exact b v0 ui ui1 = Some (nat (b - 1))" using True by (simp add: trial_digit_def)
    moreover have "int (nat (b - 1)) = b - 1" using b by simp
    moreover have "int ui * b + int ui1 - int v0 * (b - 1) = int v0 + int ui1"
      using True by (simp add: algebra_simps)
    ultimately show ?thesis using v0 ui1 by (intro exI [of _ "nat (b - 1)"]) simp
  next
    case False
    then have lt: "ui < v0" using ui by simp
    have v0p: "0 < int v0" using v0 by simp
    have sd: "x sdiv int v0 = x div int v0" using x0 v0p by (intro sdiv_nonneg) simp_all
    have q0: "0 \<le> x div int v0" using x0 v0p by (simp add: pos_imp_zdiv_nonneg_iff)
    have "int ui * b \<le> (int v0 - 1) * b" using lt b by (intro mult_right_mono) simp_all
    then have "x < b * int v0" using ui1 by (simp add: x_def algebra_simps)
    then have qb: "x div int v0 < b" using v0p by (intro int_div_less) simp_all
    have tr: "trial_digit exact b v0 ui ui1 = Some (nat (x div int v0))"
      using False v0 sd by (simp add: trial_digit_def x_def)
    have iq: "int (nat (x div int v0)) = x div int v0" using q0 by simp
    have md: "x - int v0 * (x div int v0) = x mod int v0"
      by (simp add: minus_mult_div_eq_mod)
    have "0 \<le> x mod int v0" "x mod int v0 < int v0" using v0p by simp_all
    then have A: "0 \<le> x - int v0 * (x div int v0)" "x - int v0 * (x div int v0) < 2 * b"
      unfolding md using v0 by linarith+
    have "trial_digit exact b v0 ui ui1 = Some (nat (x div int v0))
        \<and> int (nat (x div int v0)) < b
        \<and> 0 \<le> x - int v0 * int (nat (x div int v0))
        \<and> x - int v0 * int (nat (x div int v0)) < 2 * b"
      unfolding iq using tr qb A by (intro conjI)
    then show ?thesis unfolding x_def by blast
  qed
qed

lemma overshoots_machine:
  assumes ok: "machine_ok mc b" and b: "1 \<le> b"
    and d: "int v1 < b" "int qg < b" "int ui2 < b"
    and r: "0 \<le> int ui * b + int ui1 - int v0 * int qg"
      "int ui * b + int ui1 - int v0 * int qg < 3 * b"
  shows "overshoots mc b v0 v1 ui ui1 ui2 qg = overshoots exact b v0 v1 ui ui1 ui2 qg"
proof -
  define r where "r = int ui * b + int ui1 - int v0 * int qg"
  have rr: "0 \<le> r" "r < 3 * b" using assms(6,7) by (simp_all add: r_def)
  have l: "0 \<le> int v1 * int qg" "int v1 * int qg < 4 * b * b"
    using d by (simp_all add: digit_product)
  have "r * b \<le> (3 * b - 1) * b" using rr b by (intro mult_right_mono) simp_all
  then have X: "r * b \<le> 3 * (b * b) - b" by (simp add: algebra_simps)
  have nb: "0 \<le> b * b" by simp
  have f: "4 * b * b = 4 * (b * b)" by simp
  have h: "r * b + int ui2 < 4 * b * b" unfolding f using X nb d(3) by linarith
  have h0: "0 \<le> r * b + int ui2" using rr b by simp
  have n4: "0 \<le> 4 * b * b" by simp
  have lo1: "- (4 * b * b) \<le> int v1 * int qg" using n4 l(1) by linarith
  have lo2: "- (4 * b * b) \<le> r * b + int ui2" using n4 h0 by linarith
  have t1: "to_int mc (int v1 * int qg) = int v1 * int qg"
    by (rule machine_int [OF ok b lo1 l(2)])
  have t2: "to_int mc (r * b + int ui2) = r * b + int ui2"
    by (rule machine_int [OF ok b lo2 h])
  show ?thesis using t1 t2 by (simp add: overshoots_def r_def)
qed

lemma overshoots_pos:
  assumes "overshoots exact b v0 v1 ui ui1 ui2 qg" "0 \<le> b"
    "0 \<le> int ui * b + int ui1 - int v0 * int qg"
  shows "1 \<le> qg"
proof (rule ccontr)
  assume "\<not> 1 \<le> qg"
  then have z: "qg = 0" by simp
  have "0 \<le> (int ui * b + int ui1) * b + int ui2" using assms(2) by simp
  then show False using assms(1) z by (simp add: overshoots_def)
qed

lemma refine_machine:
  assumes ok: "machine_ok mc b" and b: "2 \<le> b"
    and d: "int v0 < b" "int v1 < b" "int ui2 < b" "int q0 < b"
    and r: "0 \<le> int ui * b + int ui1 - int v0 * int q0"
      "int ui * b + int ui1 - int v0 * int q0 < 2 * b"
  shows "refine mc b v0 v1 ui ui1 ui2 q0 = refine exact b v0 v1 ui ui1 ui2 q0"
proof -
  have b1: "1 \<le> b" "0 \<le> b" using b by simp_all
  have r3: "int ui * b + int ui1 - int v0 * int q0 < 3 * b" using r(2) b by linarith
  have o1: "overshoots mc b v0 v1 ui ui1 ui2 q0 = overshoots exact b v0 v1 ui ui1 ui2 q0"
    by (rule overshoots_machine [OF ok b1(1) d(2,4,3) r(1) r3])
  show ?thesis
  proof (cases "overshoots exact b v0 v1 ui ui1 ui2 q0")
    case False
    then show ?thesis using o1 by (simp add: refine_def)
  next
    case True
    have q1: "1 \<le> q0" by (rule overshoots_pos [OF True b1(2) r(1)])
    have "to_cell mc (int q0 - 1) = nat (int q0 - 1)"
      using q1 d(4) by (intro machine_cell [OF ok]) simp_all
    then have c1: "to_cell mc (int q0 - 1) = q0 - 1" by simp
    have iq: "int (q0 - 1) = int q0 - 1" using q1 by simp
    have e: "int ui * b + int ui1 - int v0 * int (q0 - 1)
         = (int ui * b + int ui1 - int v0 * int q0) + int v0"
      unfolding iq by (simp add: algebra_simps)
    have r1: "0 \<le> int ui * b + int ui1 - int v0 * int (q0 - 1)"
      "int ui * b + int ui1 - int v0 * int (q0 - 1) < 3 * b"
      unfolding e using r d(1) by linarith+
    have qb: "int (q0 - 1) < b" using d(4) by simp
    have o2: "overshoots mc b v0 v1 ui ui1 ui2 (q0 - 1) = overshoots exact b v0 v1 ui ui1 ui2 (q0 - 1)"
      by (rule overshoots_machine [OF ok b1(1) d(2) qb d(3) r1])
    show ?thesis
    proof (cases "overshoots exact b v0 v1 ui ui1 ui2 (q0 - 1)")
      case False
      then show ?thesis using True o1 o2 c1 by (simp add: refine_def Let_def)
    next
      case t2: True
      have q2: "1 \<le> q0 - 1" by (rule overshoots_pos [OF t2 b1(2) r1(1)])
      have "to_cell mc (int (q0 - 1) - 1) = nat (int (q0 - 1) - 1)"
        using q2 qb by (intro machine_cell [OF ok]) simp_all
      then show ?thesis using True t2 o1 o2 c1 by (simp add: refine_def Let_def)
    qed
  qed
qed

lemma guess_machine:
  assumes ok: "machine_ok mc b"
    and st: "div_static b V1 z leb"
    and inv: "div_inv b U1 V1 z leb j0 s q i"
    and room: "i + leb + 2 < length U1"
  shows "guess mc s (blk_v, int z) b i = guess exact s (blk_v, int z) b i"
    and "trial_digit mc b (V1 ! z) (s blk_u ! i) (s blk_u ! (i + 1))
          = trial_digit exact b (V1 ! z) (s blk_u ! i) (s blk_u ! (i + 1))"
    and "trial_digit exact b (V1 ! z) (s blk_u ! i) (s blk_u ! (i + 1)) = Some t
          \<Longrightarrow> refine mc b (V1 ! z) (V1 ! (z + 1)) (s blk_u ! i) (s blk_u ! (i + 1)) (s blk_u ! (i + 2)) t
            = refine exact b (V1 ! z) (V1 ! (z + 1)) (s blk_u ! i) (s blk_u ! (i + 1)) (s blk_u ! (i + 2)) t"
proof -
  define us where "us = s blk_u"
  define V where "V = dval b (window V1 z leb)"
  have b: "2 \<le> b" "0 < b" and leb: "1 \<le> leb" and zl: "z + leb < length V1"
    and pad: "V1 ! (z + leb) = 0" and vok: "digits_ok b (window V1 z leb)"
    and nrm: "b \<le> 2 * int (V1 ! z) + 1"
    using st by (simp_all add: div_static_def)
  have sv: "s blk_v = V1" and lu: "length us = length U1" and uok: "digits_ok b us"
    and rem: "dval b (window us i leb) < V"
    using inv by (simp_all add: div_inv_def us_def V_def)
  define v0 v1 ui ui1 ui2 where "v0 = V1 ! z" and "v1 = V1 ! (z + 1)"
    and "ui = us ! i" and "ui1 = us ! (i + 1)" and "ui2 = us ! (i + 2)"
  have reads: "rd s (blk_v, int z) = Some v0" "rd s (idx (blk_v, int z) 1) = Some v1"
    "rd s (blk_u, int i) = Some ui" "rd s (blk_u, int i + 1) = Some ui1"
    "rd s (blk_u, int i + 2) = Some ui2"
    using zl leb room lu sv
    by (simp_all add: rd_at [where n = z] rd_at [where n = "z + 1"] rd_at [where n = i]
        rd_at [where n = "i + 1"] rd_at [where n = "i + 2"]
        v0_def v1_def ui_def ui1_def ui2_def us_def)
  obtain m where m: "leb = Suc m" using leb by (cases leb) auto
  have wv: "window V1 z leb = v0 # window V1 (Suc z) m"
    unfolding m v0_def using zl by (intro window_Cons) simp
  have wu: "window us i leb = ui # window us (Suc i) m"
    unfolding m ui_def using room lu by (intro window_Cons) simp
  have lw: "length (window V1 (Suc z) m) = m" "length (window us (Suc i) m) = m"
    using zl room lu m by (simp_all add: length_window)
  have dig: "int ui1 < b" "int ui2 < b" "int v0 < b" "1 \<le> v0"
  proof -
    show "int ui1 < b" "int ui2 < b"
      using uok room lu by (simp_all add: ui1_def ui2_def digits_ok_nth)
    show "int v0 < b" using vok unfolding wv by simp
    show "1 \<le> v0" using nrm b by (simp add: v0_def)
  qed
  have v1b: "int v1 < b"
  proof (cases m)
    case 0
    then have "v1 = 0" using pad m by (simp add: v1_def)
    then show ?thesis using b by simp
  next
    case (Suc m')
    have "window V1 (Suc z) m = V1 ! Suc z # window V1 (Suc (Suc z)) m'"
      unfolding Suc using zl m Suc by (intro window_Cons) simp
    then show ?thesis using vok unfolding wv by (simp add: v1_def)
  qed
  have le: "ui \<le> v0"
  proof -
    have uw: "digits_ok b (ui # window us (Suc i) m)"
      using digits_ok_window [OF uok, of i leb] by (simp add: wu)
    have "int ui * b ^ m \<le> dval b (window us i leb)"
      unfolding wu using dval_lead(1) [OF uw b(2)] lw by simp
    moreover have "V < (int v0 + 1) * b ^ m"
      unfolding V_def using dval_lead(2) [of b v0 "window V1 (Suc z) m"] vok b(2) lw
      by (simp add: wv)
    ultimately have "int ui * b ^ m < (int v0 + 1) * b ^ m" using rem by linarith
    then have "int ui < int v0 + 1" using b(2) by (simp add: mult_less_cancel_right)
    then show ?thesis by simp
  qed
  note tm = trial_machine [OF ok b(1) dig(4,3) le dig(1)]
  obtain q0 where q0: "trial_digit exact b v0 ui ui1 = Some q0" "int q0 < b"
    "0 \<le> int ui * b + int ui1 - int v0 * int q0"
    "int ui * b + int ui1 - int v0 * int q0 < 2 * b"
    using tm(2) by blast
  have rf: "refine mc b v0 v1 ui ui1 ui2 q0 = refine exact b v0 v1 ui ui1 ui2 q0"
    by (rule refine_machine [OF ok b(1) dig(3) v1b dig(2) q0(2,3,4)])
  show "guess mc s (blk_v, int z) b i = guess exact s (blk_v, int z) b i"
    unfolding guess_def reads using tm(1) q0(1) rf by simp
  show "trial_digit mc b (V1 ! z) (s blk_u ! i) (s blk_u ! (i + 1))
          = trial_digit exact b (V1 ! z) (s blk_u ! i) (s blk_u ! (i + 1))"
    using tm(1) by (simp add: v0_def ui_def ui1_def us_def)
  show "refine mc b (V1 ! z) (V1 ! (z + 1)) (s blk_u ! i) (s blk_u ! (i + 1)) (s blk_u ! (i + 2)) t
            = refine exact b (V1 ! z) (V1 ! (z + 1)) (s blk_u ! i) (s blk_u ! (i + 1)) (s blk_u ! (i + 2)) t"
    if "trial_digit exact b (V1 ! z) (s blk_u ! i) (s blk_u ! (i + 1)) = Some t"
  proof -
    have "t = q0" using that q0(1) by (simp add: v0_def ui_def ui1_def us_def)
    then show ?thesis using rf by (simp add: v0_def v1_def ui_def ui1_def ui2_def us_def)
  qed
qed

lemma mul_sub_machine:
  assumes ok: "machine_ok mc b"
    and st: "div_static b V1 z leb"
    and sv: "s blk_v = V1" and tl: "leb < length (s blk_t)"
    and uok: "digits_ok b (s blk_u)" and room: "i + leb < length (s blk_u)"
    and qb: "int qg < b"
  shows "mul_sub mc s (blk_v, int z) leb b i qg = mul_sub exact s (blk_v, int z) leb b i qg"
    and "arb_mul_core mc s (blk_v, int z) leb qg (blk_t, 0) b
          = arb_mul_core exact s (blk_v, int z) leb qg (blk_t, 0) b"
    and "arb_mul_core exact s (blk_v, int z) leb qg (blk_t, 0) b = Some t1
          \<Longrightarrow> long_sub mc t1 (blk_u, int leb) (int i) (blk_t, 0) leb b
            = long_sub exact t1 (blk_u, int leb) (int i) (blk_t, 0) leb b"
    and "arb_mul_core exact s (blk_v, int z) leb qg (blk_t, 0) b = Some t1
          \<Longrightarrow> long_sub exact t1 (blk_u, int leb) (int i) (blk_t, 0) leb b = Some (t2, w)
          \<Longrightarrow> long_add mc t2 (blk_u, int leb) (int i) (blk_v, int z) (leb - 1) b
            = long_add exact t2 (blk_u, int leb) (int i) (blk_v, int z) (leb - 1) b"
proof -
  have b: "2 \<le> b" "1 \<le> b" "0 < b" and leb: "1 \<le> leb"
    and vok: "digits_ok b (window V1 z leb)"
    using st by (simp_all add: div_static_def)
  obtain ts' zs borrow where ms:
    "arb_mul_core exact s (blk_v, int z) leb qg (blk_t, 0) b = Some (s(blk_t := ts'))"
    "long_sub exact (s(blk_t := ts')) (blk_u, int leb) (int i) (blk_t, 0) leb b
       = Some (s(blk_t := ts', blk_u := put_window (s blk_u) i zs), borrow)"
    "digits_ok b zs" "digits_ok b (window ts' 0 (Suc leb))"
    using mul_then_sub [OF st sv tl uok room qb] by blast
  define s1 where "s1 = s(blk_t := ts')"
  define s2 where "s2 = s(blk_t := ts', blk_u := put_window (s blk_u) i zs)"
  have rv: "rd t (idx (blk_v, int z) (int j)) = Some x \<Longrightarrow> int x < b"
    if "t blk_v = V1" "j < leb" for t j x
    using vok that by (intro rd_in_window [where p = z and n = leb and j = j and s = t]) simp_all
  have e_mul: "arb_mul_core mc s (blk_v, int z) leb qg (blk_t, 0) b
      = arb_mul_core exact s (blk_v, int z) leb qg (blk_t, 0) b"
    unfolding arb_mul_core_def
  proof (rule arb_mul_loop_machine [OF ok b(2) qb])
    show "fst (blk_v, int z) \<noteq> fst (blk_t, 0::int)" by simp
    show "(0::int) \<le> 0" "0 < b" using b by simp_all
    show "rd s (idx (blk_v, int z) (int j)) = Some x \<Longrightarrow> int x < b" if "j < leb" for j x
      using sv that by (rule rv)
  qed
  have e_sub: "long_sub mc s1 (blk_u, int leb) (int i) (blk_t, 0) leb b
      = long_sub exact s1 (blk_u, int leb) (int i) (blk_t, 0) leb b"
    unfolding long_sub_def
  proof (rule long_sub_loop_machine [OF ok b(2)])
    show "fst (blk_u, int leb) \<noteq> fst (blk_t, 0::int)" by simp
    show "(0::int) = 0 \<or> (0::int) = 1" by simp
    show "int x < b" if "rd s1 (idx (blk_u, int leb) (int i - int j)) = Some x" for j x
      using that uok by (intro rd_digit [where s = s1 and p = "idx (blk_u, int leb) (int i - int j)"])
        (simp_all add: s1_def)
    show "int y < b" if "j \<le> leb" "rd s1 (idx (blk_t, 0) (int j)) = Some y" for j y
      using that ms(4)
      by (intro rd_in_window [where p = 0 and n = "Suc leb" and j = j and s = s1
            and q = "idx (blk_t, 0) (int j)"]) (simp_all add: s1_def)
  qed
  have u2: "digits_ok b (s2 blk_u)"
    using uok ms(3) by (simp add: s2_def digits_ok_put_window)
  have e_add: "long_add mc s2 (blk_u, int leb) (int i) (blk_v, int z) (leb - 1) b
      = long_add exact s2 (blk_u, int leb) (int i) (blk_v, int z) (leb - 1) b"
    unfolding long_add_def
  proof (rule long_add_loop_machine [OF ok b(2)])
    show "fst (blk_u, int leb) \<noteq> fst (blk_v, int z)" by simp
    show "(0::int) = 0 \<or> (0::int) = 1" by simp
    show "int x < b" if "rd s2 (idx (blk_u, int leb) (int i - int j)) = Some x" for j x
      using that u2 by (intro rd_digit [where s = s2 and p = "idx (blk_u, int leb) (int i - int j)"])
        simp_all
    show "int y < b" if "j \<le> leb - 1" "rd s2 (idx (blk_v, int z) (int j)) = Some y" for j y
    proof -
      have "s2 blk_v = V1" using sv by (simp add: s2_def)
      moreover have "j < leb" using that(1) leb by simp
      ultimately show ?thesis using that(2) by (intro rv [where t = s2 and j = j])
    qed
  qed
  have tq: "to_cell mc (int qg - 1) = nat (int qg - 1)" if "qg \<noteq> 0"
    using qb that by (intro machine_cell [OF ok]) simp_all
  have m1: "arb_mul_core mc s (blk_v, int z) leb qg (blk_t, 0) b = Some s1"
    using e_mul ms(1) by (simp add: s1_def)
  have m2: "long_sub mc s1 (blk_u, int leb) (int i) (blk_t, 0) leb b = Some (s2, borrow)"
    using e_sub ms(2) by (simp add: s1_def s2_def)
  have x1: "arb_mul_core exact s (blk_v, int z) leb qg (blk_t, 0) b = Some s1"
    using ms(1) by (simp add: s1_def)
  have x2: "long_sub exact s1 (blk_u, int leb) (int i) (blk_t, 0) leb b = Some (s2, borrow)"
    using ms(2) by (simp add: s1_def s2_def)
  show "mul_sub mc s (blk_v, int z) leb b i qg = mul_sub exact s (blk_v, int z) leb b i qg"
    using m1 m2 x1 x2 e_add tq by (simp add: mul_sub_def)
  show "arb_mul_core mc s (blk_v, int z) leb qg (blk_t, 0) b
          = arb_mul_core exact s (blk_v, int z) leb qg (blk_t, 0) b"
    by (rule e_mul)
  show "long_sub mc t1 (blk_u, int leb) (int i) (blk_t, 0) leb b
            = long_sub exact t1 (blk_u, int leb) (int i) (blk_t, 0) leb b"
    if "arb_mul_core exact s (blk_v, int z) leb qg (blk_t, 0) b = Some t1"
    using that x1 e_sub by simp
  show "long_add mc t2 (blk_u, int leb) (int i) (blk_v, int z) (leb - 1) b
            = long_add exact t2 (blk_u, int leb) (int i) (blk_v, int z) (leb - 1) b"
    if "arb_mul_core exact s (blk_v, int z) leb qg (blk_t, 0) b = Some t1"
      "long_sub exact t1 (blk_u, int leb) (int i) (blk_t, 0) leb b = Some (t2, w)"
    using that x1 x2 e_add by simp
qed

lemma div_step_machine:
  assumes ok: "machine_ok mc b"
    and st: "div_static b V1 z leb"
    and inv: "div_inv b U1 V1 z leb j0 s q i"
    and room: "i + leb + 2 < length U1"
  shows "div_step mc s (blk_v, int z) leb b q i j = div_step exact s (blk_v, int z) leb b q i j"
proof -
  have sv: "s blk_v = V1" and tl: "leb < length (s blk_t)"
    and lu: "length (s blk_u) = length U1" and uok: "digits_ok b (s blk_u)"
    using inv by (simp_all add: div_inv_def)
  have room': "i + leb < length (s blk_u)" using room lu by simp
  obtain qg where g: "guess exact s (blk_v, int z) b i = Some qg" "int qg < b"
    using guess_bounds [OF st inv room] by blast
  have g': "guess mc s (blk_v, int z) b i = Some qg"
    using guess_machine(1) [OF ok st inv room] g(1) by simp
  have m: "mul_sub mc s (blk_v, int z) leb b i qg = mul_sub exact s (blk_v, int z) leb b i qg"
    by (rule mul_sub_machine(1) [OF ok st sv tl uok room' g(2)])
  show ?thesis by (simp add: div_step_def g g' m)
qed

lemma div_iter_machine:
  assumes ok: "machine_ok mc b"
    and st: "div_static b V1 z leb"
    and inv0: "div_inv b U1 V1 z leb j0 s0 q0 0"
    and room: "bound + leb + 2 < length U1"
    and jroom: "j0 + bound < length (number q0)"
  shows "n \<le> Suc bound
     \<Longrightarrow> div_iter mc s0 (blk_v, int z) leb b q0 j0 n = div_iter exact s0 (blk_v, int z) leb b q0 j0 n"
proof (induction n)
  case 0
  then show ?case by simp
next
  case (Suc n)
  have n: "n \<le> Suc bound" using Suc.prems by simp
  obtain s q where it: "div_iter exact s0 (blk_v, int z) leb b q0 j0 n = Some (s, q)"
    "div_inv b U1 V1 z leb j0 s q n"
    using div_iter_inv [OF st inv0 room jroom n] by blast
  have r: "n + leb + 2 < length U1" using Suc.prems room by simp
  have "div_step mc s (blk_v, int z) leb b q n (j0 + n) = div_step exact s (blk_v, int z) leb b q n (j0 + n)"
    by (rule div_step_machine [OF ok st it(2) r])
  then show ?case using Suc.IH [OF n] it(1) by simp
qed

lemma normalise_machine:
  assumes ok: "machine_ok mc b" and b: "2 \<le> b"
    and r: "rd s v = Some v0" and v0: "1 \<le> v0" "int v0 < b"
    and vb: "fst v = blk_v"
    and uok: "digits_ok b (s blk_u)" and vok: "digits_ok b (s blk_v)"
  shows "normalise mc s v leb b usize = normalise exact s v leb b usize"
    and "shmul mc s (blk_u, 0) usize (norm_of exact b v0) (blk_u, 0) b
          = shmul exact s (blk_u, 0) usize (norm_of exact b v0) (blk_u, 0) b"
    and "shmul exact s (blk_u, 0) usize (norm_of exact b v0) (blk_u, 0) b = Some t
          \<Longrightarrow> shmul mc t v leb (norm_of exact b v0) v b = shmul exact t v leb (norm_of exact b v0) v b"
proof -
  have b1: "1 \<le> b" using b by simp
  note n = norm_of_machine [OF ok v0]
  have u: "shmul mc s (blk_u, 0) usize (norm_of exact b v0) (blk_u, 0) b
      = shmul exact s (blk_u, 0) usize (norm_of exact b v0) (blk_u, 0) b"
  proof (rule shmul_machine [OF ok b1 n(2)])
    show "fst (blk_u, 0::int) \<noteq> fst (blk_u, 0::int) \<or> (blk_u, 0::int) = (blk_u, 0)" by simp
    show "int x < b" if "rd s (idx (blk_u, 0) (int j)) = Some x" for j x
      using that uok by (intro rd_digit [where s = s and p = "idx (blk_u, 0) (int j)"])
        (simp_all add: idx_def)
  qed
  have w: "shmul mc s' v leb (norm_of exact b v0) v b = shmul exact s' v leb (norm_of exact b v0) v b"
    if s': "shmul exact s (blk_u, 0) usize (norm_of exact b v0) (blk_u, 0) b = Some s'" for s'
  proof (rule shmul_machine [OF ok b1 n(2)])
    have fr: "s' blk_v = s blk_v"
      using shmul_frame [OF s', of blk_v] by simp
    show "fst v \<noteq> fst v \<or> v = v" by simp
    show "int x < b" if "rd s' (idx v (int j)) = Some x" for j x
      using that vok fr vb by (intro rd_digit [where s = s' and p = "idx v (int j)"])
        (simp_all add: idx_def)
  qed
  show "normalise mc s v leb b usize = normalise exact s v leb b usize"
    using u w
    by (cases "shmul exact s (blk_u, 0) usize (norm_of exact b v0) (blk_u, 0) b")
      (simp_all add: normalise_def r n(1) Let_def)
  show "shmul mc s (blk_u, 0) usize (norm_of exact b v0) (blk_u, 0) b
          = shmul exact s (blk_u, 0) usize (norm_of exact b v0) (blk_u, 0) b"
    by (rule u)
  show "shmul mc t v leb (norm_of exact b v0) v b = shmul exact t v leb (norm_of exact b v0) v b"
    if "shmul exact s (blk_u, 0) usize (norm_of exact b v0) (blk_u, 0) b = Some t"
    using that by (rule w)
qed

lemma prepared_store:
  assumes okn: "fx_ok b num" and okd: "fx_ok b den" and nz: "iszero den \<noteq> 0" and b: "0 < b"
  shows "\<exists>d. arb_div_prepare junk num den scale =
        Some (setup_store junk num den (offset_of num den scale),
              (blk_v, int (lead_zeros (fx_digits den))), leb_of den)
    \<and> rd (setup_store junk num den (offset_of num den scale))
         (blk_v, int (lead_zeros (fx_digits den))) = Some d
    \<and> 1 \<le> d \<and> int d < b \<and> d = hd (divisor_digits den)
    \<and> digits_ok b (setup_store junk num den (offset_of num den scale) blk_u)
    \<and> digits_ok b (setup_store junk num den (offset_of num den scale) blk_v)"
proof -
  define z off where "z = lead_zeros (fx_digits den)" and "off = offset_of num den scale"
  define s0 where "s0 = setup_store junk num den off"
  note df = divisor_facts [OF okd nz b]
  obtain d rest where dv: "divisor_digits den = d # rest" "d \<noteq> 0" using df(1) by blast
  have s0u: "s0 blk_u = 0 # fx_digits num @ replicate (off + 2) 0"
    and s0v: "s0 blk_v = replicate z 0 @ (d # rest) @ replicate (off + 3) 0"
    using df(6) dv(1) by (simp_all add: s0_def setup_store_def blk_defs z_def)
  have prep: "arb_div_prepare junk num den scale = Some (s0, (blk_v, int z), leb_of den)"
    using arb_div_prepare_eq [OF okn okd nz] by (simp add: s0_def z_def off_def leb_of_def)
  have "rd s0 (blk_v, int z) = Some d"
    by (simp add: rd_def in_block_def s0v nth_append)
  moreover have "int d < b" using df(3) dv(1) by simp
  moreover have "digits_ok b (s0 blk_u)" using okn b by (simp add: s0u fx_ok_def)
  moreover have "digits_ok b (s0 blk_v)" using df(3) dv(1) b by (simp add: s0v)
  ultimately show ?thesis
    using prep dv unfolding s0_def z_def off_def by (intro exI [of _ d]) simp
qed

lemma loop_entry_machine:
  assumes ok: "machine_ok mc b"
    and okn: "fx_ok b num" and okd: "fx_ok b den" and nz: "iszero den \<noteq> 0" and b: "2 \<le> b"
  shows "loop_entry mc junk num den q b scale = loop_entry exact junk num den q b scale"
proof -
  have b0: "0 < b" using b by simp
  obtain d where p:
    "arb_div_prepare junk num den scale =
        Some (setup_store junk num den (offset_of num den scale),
              (blk_v, int (lead_zeros (fx_digits den))), leb_of den)"
    "rd (setup_store junk num den (offset_of num den scale))
         (blk_v, int (lead_zeros (fx_digits den))) = Some d"
    "1 \<le> d" "int d < b"
    "digits_ok b (setup_store junk num den (offset_of num den scale) blk_u)"
    "digits_ok b (setup_store junk num den (offset_of num den scale) blk_v)"
    using prepared_store [OF okn okd nz b0, of junk scale] by blast
  have n: "normalise mc (setup_store junk num den (offset_of num den scale))
          (blk_v, int (lead_zeros (fx_digits den))) (leb_of den) b usize
      = normalise exact (setup_store junk num den (offset_of num den scale))
          (blk_v, int (lead_zeros (fx_digits den))) (leb_of den) b usize" for usize
    by (rule normalise_machine(1) [OF ok b p(2,3,4) _ p(5,6)]) simp
  show ?thesis unfolding loop_entry_def p(1) by (simp add: n)
qed

lemma engine_state_at_machine:
  assumes ok: "machine_ok mc b"
    and okn: "fx_ok b num" and okd: "fx_ok b den" and nz: "iszero den \<noteq> 0" and b: "2 \<le> b"
    and ins: "leb_of den \<le> lea_of num den + scale"
    and qz: "number q = replicate Lq 0"
    and Lq: "quodig_of (leb_of den) (lea_of num den) scale \<le> Lq"
    and n: "n \<le> Suc (lea_of num den + scale - leb_of den)"
  shows "engine_state_at mc junk num den q b scale n = engine_state_at exact junk num den q b scale n"
proof -
  define z leb lea off where "z = lead_zeros (fx_digits den)" and "leb = leb_of den"
    and "lea = lea_of num den" and "off = offset_of num den scale"
  define j0 q1 where "j0 = (if leb > lea then leb - lea else 0)"
    and "q1 = set_shape q (quodig_of leb lea scale) scale"
  obtain s1 where e:
    "loop_entry exact junk num den q b scale = Some (s1, (blk_v, int z), leb, q1, j0)"
    "div_static b (s1 blk_v) z leb"
    "div_inv b (s1 blk_u) (s1 blk_v) z leb j0 s1 q1 0"
    "length (s1 blk_u) = len num + off + 3"
    using engine_entry [OF okn okd nz b ins qz, of junk]
    unfolding z_def leb_def lea_def off_def j0_def q1_def by blast
  have ins': "leb \<le> lea + scale" using ins by (simp add: leb_def lea_def)
  have Lq': "quodig_of leb lea scale \<le> Lq" using Lq by (simp add: leb_def lea_def)
  have n': "n \<le> Suc (lea + scale - leb)" using n by (simp add: leb_def lea_def)
  have sz: "lea + scale \<le> len num + off"
    using sizes(1) [OF okn okd, of scale] by (simp add: lea_def off_def)
  have room: "(lea + scale - leb) + leb + 2 < length (s1 blk_u)"
    using ins' sz by (simp add: e(4))
  have jroom: "j0 + (lea + scale - leb) < length (number q1)"
    using quodig_split [OF ins'] Lq' qz
    by (simp add: j0_def q1_def set_shape_def)
  have it: "div_iter mc s1 (blk_v, int z) leb b q1 j0 n = div_iter exact s1 (blk_v, int z) leb b q1 j0 n"
    by (rule div_iter_machine [OF ok e(2,3) room jroom n'])
  show ?thesis
    unfolding engine_state_at_def loop_entry_machine [OF ok okn okd nz b] e(1) using it by simp
qed

lemma arb_div_work_machine:
  assumes ok: "machine_ok mc b"
    and okn: "fx_ok b num" and okd: "fx_ok b den" and nz: "iszero den \<noteq> 0" and b: "2 \<le> b"
    and qz: "number q = replicate Lq 0"
    and Lq: "len num + len den + scale \<le> Lq"
  shows "arb_div_work mc junk num den q b scale = arb_div_work exact junk num den q b scale"
proof (cases "leb_of den \<le> lea_of num den + scale")
  case True
  define z leb lea off where "z = lead_zeros (fx_digits den)" and "leb = leb_of den"
    and "lea = lea_of num den" and "off = offset_of num den scale"
  define j0 q1 where "j0 = (if leb > lea then leb - lea else 0)"
    and "q1 = set_shape q (quodig_of leb lea scale) scale"
  have ins: "leb \<le> lea + scale" using True by (simp add: leb_def lea_def)
  obtain s1 where e:
    "loop_entry exact junk num den q b scale = Some (s1, (blk_v, int z), leb, q1, j0)"
    "div_static b (s1 blk_v) z leb"
    "div_inv b (s1 blk_u) (s1 blk_v) z leb j0 s1 q1 0"
    "length (s1 blk_u) = len num + off + 3"
    using engine_entry [OF okn okd nz b True qz, of junk]
    unfolding z_def leb_def lea_def off_def j0_def q1_def by blast
  have e': "loop_entry mc junk num den q b scale = Some (s1, (blk_v, int z), leb, q1, j0)"
    using loop_entry_machine [OF ok okn okd nz b] e(1) by simp
  have sz: "lea + scale \<le> len num + off"
    using sizes(1) [OF okn okd, of scale] by (simp add: lea_def off_def)
  have room: "(lea + scale - leb) + leb + 2 < length (s1 blk_u)"
    using ins sz by (simp add: e(4))
  have b0': "0 < b" using b by simp
  have qd: "quodig_of leb lea scale \<le> Lq"
    using quodig_fits [OF okn okd nz b0', of scale] Lq unfolding leb_def lea_def by (rule order_trans)
  have jroom: "j0 + (lea + scale - leb) < length (number q1)"
    using quodig_split [OF ins] qd qz
    by (simp add: j0_def q1_def set_shape_def)
  have it: "div_iter mc s1 (blk_v, int z) leb b q1 j0 (Suc (lea + scale - leb))
      = div_iter exact s1 (blk_v, int z) leb b q1 j0 (Suc (lea + scale - leb))"
    by (rule div_iter_machine [OF ok e(2,3) room jroom]) simp
  have nl: "\<not> leb > lea_of num den + scale" using ins by (simp add: lea_def)
  show ?thesis
    unfolding arb_div_work_loop [OF e' nl] arb_div_work_loop [OF e(1) nl]
    using it by (simp add: lea_def)
next
  case False
  then have gt: "leb_of den > lea_of num den + scale" by simp
  have b0: "0 < b" using b by simp
  obtain d where p:
    "arb_div_prepare junk num den scale =
        Some (setup_store junk num den (offset_of num den scale),
              (blk_v, int (lead_zeros (fx_digits den))), leb_of den)"
    using prepared_store [OF okn okd nz b0, of junk scale] by blast
  show ?thesis
    unfolding arb_div_work_early [OF p gt] by simp
qed

lemma arb_div_machine:
  assumes ok: "machine_ok mc b"
    and okn: "fx_ok b num" and okd: "fx_ok b den" and nz: "iszero den \<noteq> 0" and b: "2 \<le> b"
  shows "arb_div mc junk num den b scale = arb_div exact junk num den b scale"
proof -
  have "arb_div_work mc junk num den (arb_expand (len num + len den + scale)) b scale
      = arb_div_work exact junk num den (arb_expand (len num + len den + scale)) b scale"
    by (rule arb_div_work_machine [OF ok okn okd nz b, where Lq = "len num + len den + scale"])
      (simp_all add: arb_expand_def)
  then show ?thesis by (simp add: arb_div_def arb_div_inter_def)
qed

section \<open>The single-digit multiply\<close>

text \<open>
  C9. \<^verbatim>\<open>shmul\<close> on \<open>n\<close> source cells and a destination that has a spare cell in front of it
  (cell \<open>ro\<close> of its block; the destination starts at \<open>ro + 1\<close>), with source and destination
  in two blocks or at the same place, on a machine whose cells and \<^verbatim>\<open>int\<close> are wide enough for
  the positive base \<open>b\<close>, for source digits and a multiplier digit below the base: the call
  stays inside the blocks and leaves in the destination what the spec says, \<open>scale_spec\<close>:
  zeros for the digit 0, the source for the digit 1, and else the digits \<open>value mod base\<close> of
  the scan from the least significant cell with the carries \<open>value div base\<close>, the last
  carry going to the spare cell when it is not 0. Nothing else changes.
\<close>

theorem shmul_scales:
  assumes "machine_ok mc b" and "0 < b"
    and "fst num \<noteq> fst result \<or> num = result"
    and "snd num = int so" and "so + n \<le> length (s (fst num))"
    and "snd result = int (Suc ro)" and "Suc ro + n \<le> length (s (fst result))"
    and "digits_ok b (window (s (fst num)) so n)" and "int d < b"
  shows "shmul mc s num n d result b =
     Some (s(fst result := put_window (s (fst result)) ro
             (scale_spec b d (s (fst result) ! ro) (window (s (fst num)) so n))))"
proof -
  have b1: "1 \<le> b" using assms(2) by simp
  have "shmul mc s num n d result b = shmul exact s num n d result b"
  proof (rule shmul_machine [OF assms(1) b1 assms(9) assms(3)])
    show "int x < b" if "j < n" "rd s (idx num (int j)) = Some x" for j x
    proof (rule rd_in_window [where p = so and n = n and j = j and s = s
          and q = "idx num (int j)"])
      show "digits_ok b (window (s (fst (idx num (int j)))) so n)" using assms(8) by simp
      show "snd (idx num (int j)) = int (so + j)" using assms(4) by simp
      show "j < n" by (rule that(1))
      show "rd s (idx num (int j)) = Some x" by (rule that(2))
    qed
  qed
  then show ?thesis using shmul_exact_result [OF assms(3-7,2)] by simp
qed

theorem shmul_scales_witness:
  "machine_ok char_cells 10
   \<and> shmul char_cells ((\<lambda>_. [])(0 := [0, 9, 9, 5])) (0, 1) 3 7 (0, 1) 10
        = Some ((\<lambda>_. [])(0 := [6, 9, 6, 5]))
   \<and> shmul char_cells ((\<lambda>_. [])(0 := [4, 2, 5], 1 := [8, 8, 8, 8])) (0, 1) 2 3 (1, 2) 10
        = Some ((\<lambda>_. [])(0 := [4, 2, 5], 1 := [8, 8, 7, 5]))"
  using shmul_scales [where mc = char_cells and b = 10 and num = "(0, 1)" and result = "(0, 1)"
      and so = 1 and n = 3 and s = "(\<lambda>_. [])(0 := [0, 9, 9, 5])" and ro = 0 and d = 7]
    shmul_scales [where mc = char_cells and b = 10 and num = "(0, 1)" and result = "(1, 2)"
      and so = 1 and n = 2 and s = "(\<lambda>_. [])(0 := [4, 2, 5], 1 := [8, 8, 8, 8])" and ro = 1 and d = 3]
  by (simp add: window_def put_window_def scale_spec_def Let_def machine_ok_def char_cells_def)

section \<open>Subtract and add on a window\<close>

text \<open>
  C10. \<^verbatim>\<open>_long_sub\<close> followed by \<^verbatim>\<open>_long_add\<close> on the same window, with the same digits \<open>v\<close>
  kept in another buffer, gives back the store it started from: the \<open>k + 1\<close> cells of \<open>u\<close>
  that end at index \<open>i\<close> (cell \<open>p\<close> of the block) hold their old digits again, the carry that
  the addition returns is the borrow that the subtraction returned, and the subtraction
  changes no cell outside the window. The digits of the window and of \<open>v\<close> are below the
  base, and the cells and \<^verbatim>\<open>int\<close> of the machine are wide enough for the base.
\<close>

theorem long_add_undoes_long_sub:
  assumes "machine_ok mc b"
    and "fst u \<noteq> fst v"
    and "snd u + i = int p" and "k \<le> p" and "p < length (s (fst u))"
    and "snd v = int vo" and "vo + k < length (s (fst v))"
    and "digits_ok b (window (s (fst u)) (p - k) (Suc k))"
    and "digits_ok b (window (s (fst v)) vo (Suc k))"
  shows "\<exists>ys borrow. length ys = Suc k
     \<and> long_sub mc s u i v k b = Some (s(fst u := put_window (s (fst u)) (p - k) ys), borrow)
     \<and> long_add mc (s(fst u := put_window (s (fst u)) (p - k) ys)) u i v k b = Some (s, borrow)
     \<and> (\<forall>n. n < p - k \<or> p < n \<longrightarrow> put_window (s (fst u)) (p - k) ys ! n = s (fst u) ! n)"
proof -
  obtain ys borrow where e: "length ys = Suc k" "digits_ok b ys"
    "long_sub exact s u i v k b = Some (s(fst u := put_window (s (fst u)) (p - k) ys), borrow)"
    "long_add exact (s(fst u := put_window (s (fst u)) (p - k) ys)) u i v k b = Some (s, borrow)"
    "\<forall>n. n < p - k \<or> p < n \<longrightarrow> put_window (s (fst u)) (p - k) ys ! n = s (fst u) ! n"
    using sub_then_add_exact [OF assms(2-9)] by blast
  define s1 where "s1 = s(fst u := put_window (s (fst u)) (p - k) ys)"
  have b1: "1 \<le> b"
  proof -
    have "length (window (s (fst v)) vo (Suc k)) = Suc k"
      using assms(7) by (simp add: length_window)
    then obtain y rest where "window (s (fst v)) vo (Suc k) = y # rest"
      by (cases "window (s (fst v)) vo (Suc k)") auto
    then have "int y < b" using assms(9) by simp
    then show ?thesis by simp
  qed
  have ru: "int x < b"
    if "digits_ok b (window (t (fst u)) (p - k) (Suc k))" "j \<le> k"
      "rd t (idx u (i - int j)) = Some x" for t j x
  proof (rule rd_in_window [where p = "p - k" and n = "Suc k" and j = "k - j" and s = t
        and q = "idx u (i - int j)"])
    show "digits_ok b (window (t (fst (idx u (i - int j)))) (p - k) (Suc k))" using that(1) by simp
    show "snd (idx u (i - int j)) = int (p - k + (k - j))" using assms(3,4) that(2) by simp
    show "k - j < Suc k" by simp
    show "rd t (idx u (i - int j)) = Some x" by (rule that(3))
  qed
  have rv: "int y < b"
    if "t (fst v) = s (fst v)" "j \<le> k" "rd t (idx v (int j)) = Some y" for t j y
  proof (rule rd_in_window [where p = vo and n = "Suc k" and j = j and s = t
        and q = "idx v (int j)"])
    show "digits_ok b (window (t (fst (idx v (int j)))) vo (Suc k))" using assms(9) that(1) by simp
    show "snd (idx v (int j)) = int (vo + j)" using assms(6) by simp
    show "j < Suc k" using that(2) by simp
    show "rd t (idx v (int j)) = Some y" by (rule that(3))
  qed
  have sub: "long_sub mc s u i v k b = long_sub exact s u i v k b"
    unfolding long_sub_def
  proof (rule long_sub_loop_machine [OF assms(1) b1 assms(2)])
    show "(0::int) = 0 \<or> (0::int) = 1" by simp
    show "int x < b" if "j \<le> k" "rd s (idx u (i - int j)) = Some x" for j x
      using assms(8) that by (rule ru)
    show "int y < b" if "j \<le> k" "rd s (idx v (int j)) = Some y" for j y
      using refl that by (rule rv)
  qed
  have fit: "p - k + length ys \<le> length (s (fst u))" using assms(4,5) e(1) by simp
  have w1: "digits_ok b (window (s1 (fst u)) (p - k) (Suc k))"
    using window_put_window [OF fit] e(1,2) by (simp add: s1_def)
  have s1v: "s1 (fst v) = s (fst v)" using assms(2) by (simp add: s1_def)
  have add: "long_add mc s1 u i v k b = long_add exact s1 u i v k b"
    unfolding long_add_def
  proof (rule long_add_loop_machine [OF assms(1) b1 assms(2)])
    show "(0::int) = 0 \<or> (0::int) = 1" by simp
    show "int x < b" if "j \<le> k" "rd s1 (idx u (i - int j)) = Some x" for j x
      using w1 that by (rule ru)
    show "int y < b" if "j \<le> k" "rd s1 (idx v (int j)) = Some y" for j y
      using s1v that by (rule rv)
  qed
  show ?thesis
    using e(1,3,4,5) sub add unfolding s1_def
    by (intro exI [of _ ys] exI [of _ borrow]) simp
qed

theorem long_add_undoes_long_sub_witness:
  "machine_ok char_cells 10
   \<and> (\<exists>ys borrow. length ys = Suc 2
     \<and> long_sub char_cells ((\<lambda>_. [])(0 := [1, 0, 0, 3], 1 := [0, 5, 7])) (0, 1) 2 (1, 0) 2 10
         = Some (((\<lambda>_. [])(0 := [1, 0, 0, 3], 1 := [0, 5, 7]))
                   (0 := put_window [1, 0, 0, 3] 1 ys), borrow)
     \<and> long_add char_cells (((\<lambda>_. [])(0 := [1, 0, 0, 3], 1 := [0, 5, 7]))
                   (0 := put_window [1, 0, 0, 3] 1 ys)) (0, 1) 2 (1, 0) 2 10
         = Some ((\<lambda>_. [])(0 := [1, 0, 0, 3], 1 := [0, 5, 7]), borrow)
     \<and> (\<forall>n. n < 1 \<or> 3 < n \<longrightarrow> put_window [1, 0, 0, 3] 1 ys ! n = [1, 0, 0, 3] ! n))"
  using long_add_undoes_long_sub [where mc = char_cells and u = "(0, 1)" and v = "(1, 0)"
      and i = 2 and p = 3 and k = 2 and s = "(\<lambda>_. [])(0 := [1, 0, 0, 3], 1 := [0, 5, 7])"
      and vo = 0 and b = 10]
  by (simp add: window_def digits_ok_def machine_ok_def char_cells_def)

section \<open>Division by zero\<close>

text \<open>
  C2. The spec asks for a reportable \<open>DivisionByZero\<close> result when the divisor is zero. The
  test of line 121 comes before the working buffers \<^verbatim>\<open>u\<close>, \<^verbatim>\<open>v\<close> and \<^verbatim>\<open>temp\<close> are allocated
  (the quotient itself is allocated earlier, by \<^verbatim>\<open>arb_div\<close> at line 192), but what it does is
  to call \<^verbatim>\<open>arb_error\<close>, which ends the process: dividing 7 by 0 in base 10 gives no result at
  all.
\<close>

theorem arb_div_seven_by_zero_exits:
  "arb_div char_cells [] \<lparr>number = [7], lp = 1, len = 1\<rparr> \<lparr>number = [0], lp = 1, len = 1\<rparr> 10 0
     = Inl (Exit (''divide by zero'' @ [CHR 0x0A]))"
  by (simp add: arb_div_def arb_div_inter_def iszero_def)

section \<open>The scenario 0.01 / 100 at scale 5\<close>

text \<open>
  C4, as the spec states it, fails: in base 10 the quotient of 0.01 by 100 at scale 5 has the
  digits 0.00010, which is not zero, and the early-out flag stays 0.
\<close>

theorem arb_div_hundredth_by_hundred_not_zero:
  "arb_div char_cells [] \<lparr>number = [0, 0, 1], lp = 1, len = 3\<rparr> \<lparr>number = [1, 0, 0], lp = 3, len = 3\<rparr> 10 5
     = Inr \<lparr>number = [0, 0, 0, 0, 1, 0, 0, 0, 0, 0, 0], lp = 1, len = 6\<rparr>
   \<and> fx_int 10 \<lparr>number = [0, 0, 0, 0, 1, 0, 0, 0, 0, 0, 0], lp = 1, len = 6\<rparr> \<noteq> 0
   \<and> early_out [] \<lparr>number = [0, 0, 1], lp = 1, len = 3\<rparr> \<lparr>number = [1, 0, 0], lp = 3, len = 3\<rparr> 5
     = Some 0"
  by code_simp

text \<open>
  C4, amended. For every initial content of \<^verbatim>\<open>temp\<close> and on every machine whose cells and
  \<^verbatim>\<open>int\<close> are wide enough for base 10, the quotient of 0.01 by 100 in base 10 at scale 5 is
  0.00010: one integer digit, six digits in all, which read as the integer 10. The early-out
  flag is 0 and the quotient is the one left by four iterations of the loop of line 162.
\<close>

theorem arb_div_hundredth_by_hundred:
  assumes "machine_ok mc 10"
  shows "early_out junk \<lparr>number = [0, 0, 1], lp = 1, len = 3\<rparr> \<lparr>number = [1, 0, 0], lp = 3, len = 3\<rparr> 5 = Some 0
   \<and> (\<exists>st q. engine_state_at mc junk \<lparr>number = [0, 0, 1], lp = 1, len = 3\<rparr>
                 \<lparr>number = [1, 0, 0], lp = 3, len = 3\<rparr> (arb_expand 11) 10 5 4 = Some (st, q)
         \<and> arb_div mc junk \<lparr>number = [0, 0, 1], lp = 1, len = 3\<rparr> \<lparr>number = [1, 0, 0], lp = 3, len = 3\<rparr> 10 5
             = Inr q
         \<and> lp q = 1 \<and> len q = 6 \<and> fx_int 10 q = 10)"
proof -
  define N D where "N = \<lparr>number = [0, 0, 1], lp = 1, len = 3\<rparr>"
    and "D = \<lparr>number = [1, 0, 0 :: nat], lp = 3, len = 3\<rparr>"
  have h: "fx_ok 10 N" "fx_ok 10 D" "iszero D \<noteq> 0" "(2 :: int) \<le> 10"
    by (simp_all add: N_def D_def fx_ok_def fx_digits_def digits_ok_def iszero_def)
  have w: "lea_of N D = 1" "leb_of D = 3"
    by (simp_all add: N_def D_def lea_of_def leb_of_def rl_def rr_def lead_zeros_def fx_digits_def)
  have m: "arb_div mc junk N D 10 5 = arb_div exact junk N D 10 5"
    by (rule arb_div_machine [OF assms h])
  have e: "engine_state_at mc junk N D (arb_expand 11) 10 5 4
      = engine_state_at exact junk N D (arb_expand 11) 10 5 4"
    by (rule engine_state_at_machine [OF assms h, where Lq = 11])
      (simp_all add: w arb_expand_def quodig_of_def)
  show ?thesis
    using hundredth_exact [of junk] m e unfolding N_def D_def by simp
qed

theorem arb_div_hundredth_by_hundred_witness:
  "machine_ok char_cells 10
   \<and> early_out [] \<lparr>number = [0, 0, 1], lp = 1, len = 3\<rparr> \<lparr>number = [1, 0, 0], lp = 3, len = 3\<rparr> 5 = Some 0
   \<and> (\<exists>st q. engine_state_at char_cells [] \<lparr>number = [0, 0, 1], lp = 1, len = 3\<rparr>
                 \<lparr>number = [1, 0, 0], lp = 3, len = 3\<rparr> (arb_expand 11) 10 5 4 = Some (st, q)
         \<and> arb_div char_cells [] \<lparr>number = [0, 0, 1], lp = 1, len = 3\<rparr>
              \<lparr>number = [1, 0, 0], lp = 3, len = 3\<rparr> 10 5 = Inr q
         \<and> lp q = 1 \<and> len q = 6 \<and> fx_int 10 q = 10)"
proof -
  have mk: "machine_ok char_cells 10" by (simp add: machine_ok_def char_cells_def)
  show ?thesis using arb_div_hundredth_by_hundred [OF mk, of "[]"] mk by simp
qed

section \<open>The shape of the quotient\<close>

text \<open>
  C3, as the spec states it, fails when the stripped divisor is wider than \<^verbatim>\<open>lea\<close> but not wider
  than \<^verbatim>\<open>lea + scale\<close>. Dividing 1 by 25 in base 10 at scale 2 has \<^verbatim>\<open>lea\<close> = 1 and \<^verbatim>\<open>leb\<close> = 2,
  so the early-out is not taken and the spec's formula gives 1 - 2 + 2 + 1 = 2 digits and an
  integer part of 2 - 2 = 0 digits; the engine gives the quotient one integer digit, before
  and after the leading zeros are removed.
\<close>

theorem arb_div_one_by_twentyfive_integer_part:
  "arb_div char_cells [] \<lparr>number = [1], lp = 1, len = 1\<rparr> \<lparr>number = [2, 5], lp = 2, len = 2\<rparr> 10 2
     = Inr \<lparr>number = [0, 0, 4, 0, 0], lp = 1, len = 3\<rparr>
   \<and> map_option (lp \<circ> snd)
        (engine_state_at char_cells [] \<lparr>number = [1], lp = 1, len = 1\<rparr> \<lparr>number = [2, 5], lp = 2, len = 2\<rparr>
           (arb_expand 5) 10 2 2) = Some 1
   \<and> lea_of \<lparr>number = [1], lp = 1, len = 1\<rparr> \<lparr>number = [2, 5], lp = 2, len = 2\<rparr> = 1
   \<and> map_option (snd \<circ> snd)
        (arb_div_prepare [] \<lparr>number = [1], lp = 1, len = 1\<rparr> \<lparr>number = [2, 5], lp = 2, len = 2\<rparr> 2)
       = Some 2
   \<and> \<not> (2 :: nat) > 1 + 2
   \<and> int (lp \<lparr>number = [0, 0, 4, 0, 0], lp = 1, len = 3\<rparr>) \<noteq> (1 - 2 + 2 + 1) - 2"
  by code_simp

text \<open>
  C3, amended. \<^verbatim>\<open>leb\<close>, the width that line 140 leaves, is the divisor's length without its
  leading zeros. When \<^verbatim>\<open>leb\<close> is above \<^verbatim>\<open>lea + scale\<close> the early-out flag is set and the quotient
  is zero with one integer digit and \<open>s\<close> fractional digits, all taken from the zero-filled
  buffer. Otherwise the flag stays 0 and the quotient is the one left by
  \<open>lea + s - leb + 1\<close> iterations of the loop, then stripped of leading zeros; before the
  stripping it has \<open>s\<close> fractional digits and an integer part of \<open>lea - leb + 1\<close> digits when
  \<^verbatim>\<open>leb\<close> is at most \<^verbatim>\<open>lea\<close>, and of one digit when \<^verbatim>\<open>leb\<close> is above \<^verbatim>\<open>lea\<close>. This holds in every
  base \<open>b\<close> of at least 2 on every machine whose cells and \<^verbatim>\<open>int\<close> are wide enough for \<open>b\<close>.
\<close>

theorem arb_div_shape:
  assumes "fx_ok b N" and "fx_ok b D" and "iszero D \<noteq> 0" and "2 \<le> b"
    and "machine_ok mc b"
  shows "map_option (snd \<circ> snd) (arb_div_prepare junk N D s) = Some (leb_of D)
   \<and> (lea_of N D + s < leb_of D \<longrightarrow>
        early_out junk N D s = Some 1
        \<and> arb_div mc junk N D b s
            = Inr \<lparr>number = replicate (len N + len D + s) 0, lp = 1, len = s + 1\<rparr>)
   \<and> (leb_of D \<le> lea_of N D + s \<longrightarrow>
        early_out junk N D s = Some 0
        \<and> (\<exists>st q. engine_state_at mc junk N D (arb_expand (len N + len D + s)) b s
                      (lea_of N D + s - leb_of D + 1) = Some (st, q)
              \<and> arb_div mc junk N D b s = Inr (remove_leading_zeros q)
              \<and> len q = lp q + s
              \<and> lp q = (if leb_of D \<le> lea_of N D then lea_of N D - leb_of D + 1 else 1)))"
proof -
  have b0: "0 < b" using assms(4) by simp
  have m: "arb_div mc junk N D b s = arb_div exact junk N D b s"
    by (rule arb_div_machine [OF assms(5,1,2,3,4)])
  show ?thesis
  proof (cases "leb_of D \<le> lea_of N D + s")
    case True
    have e: "engine_state_at mc junk N D (arb_expand (len N + len D + s)) b s
          (lea_of N D + s - leb_of D + 1)
        = engine_state_at exact junk N D (arb_expand (len N + len D + s)) b s
          (lea_of N D + s - leb_of D + 1)"
      by (rule engine_state_at_machine [OF assms(5,1,2,3,4) True,
            where Lq = "len N + len D + s"])
        (simp_all add: arb_expand_def quodig_fits [OF assms(1,2,3) b0])
    show ?thesis unfolding m e by (rule shape_exact [OF assms(1-4)])
  next
    case False
    have x: "map_option (snd \<circ> snd) (arb_div_prepare junk N D s) = Some (leb_of D)"
      "lea_of N D + s < leb_of D \<longrightarrow>
        early_out junk N D s = Some 1
        \<and> arb_div exact junk N D b s
            = Inr \<lparr>number = replicate (len N + len D + s) 0, lp = 1, len = s + 1\<rparr>"
      using shape_exact [OF assms(1-4), of junk s] by blast+
    show ?thesis using x False unfolding m by simp
  qed
qed

theorem arb_div_shape_witness:
  "fx_ok 10 \<lparr>number = [1], lp = 1, len = 1\<rparr> \<and> fx_ok 10 \<lparr>number = [1, 0, 0, 0], lp = 4, len = 4\<rparr>
   \<and> iszero \<lparr>number = [1, 0, 0, 0], lp = 4, len = 4\<rparr> \<noteq> 0
   \<and> machine_ok char_cells 10
   \<and> lea_of \<lparr>number = [1], lp = 1, len = 1\<rparr> \<lparr>number = [1, 0, 0, 0], lp = 4, len = 4\<rparr> + 1
        < leb_of \<lparr>number = [1, 0, 0, 0], lp = 4, len = 4\<rparr>
   \<and> early_out [] \<lparr>number = [1], lp = 1, len = 1\<rparr> \<lparr>number = [1, 0, 0, 0], lp = 4, len = 4\<rparr> 1 = Some 1
   \<and> arb_div char_cells [] \<lparr>number = [1], lp = 1, len = 1\<rparr> \<lparr>number = [1, 0, 0, 0], lp = 4, len = 4\<rparr> 10 1
        = Inr \<lparr>number = replicate 6 0, lp = 1, len = 2\<rparr>
   \<and> fx_ok 10 \<lparr>number = [2, 5], lp = 2, len = 2\<rparr> \<and> iszero \<lparr>number = [2, 5], lp = 2, len = 2\<rparr> \<noteq> 0
   \<and> leb_of \<lparr>number = [2, 5], lp = 2, len = 2\<rparr>
        \<le> lea_of \<lparr>number = [1], lp = 1, len = 1\<rparr> \<lparr>number = [2, 5], lp = 2, len = 2\<rparr> + 2
   \<and> early_out [] \<lparr>number = [1], lp = 1, len = 1\<rparr> \<lparr>number = [2, 5], lp = 2, len = 2\<rparr> 2 = Some 0
   \<and> (\<exists>st q. engine_state_at char_cells [] \<lparr>number = [1], lp = 1, len = 1\<rparr> \<lparr>number = [2, 5], lp = 2, len = 2\<rparr>
                 (arb_expand 5) 10 2 2 = Some (st, q)
         \<and> arb_div char_cells [] \<lparr>number = [1], lp = 1, len = 1\<rparr> \<lparr>number = [2, 5], lp = 2, len = 2\<rparr> 10 2
             = Inr (remove_leading_zeros q)
         \<and> len q = 3 \<and> lp q = 1)"
proof -
  have h: "fx_ok 10 \<lparr>number = [1], lp = 1, len = 1\<rparr>"
    "fx_ok 10 \<lparr>number = [1, 0, 0, 0], lp = 4, len = 4\<rparr>"
    "iszero \<lparr>number = [1, 0, 0, 0], lp = 4, len = 4\<rparr> \<noteq> 0"
    "fx_ok 10 \<lparr>number = [2, 5], lp = 2, len = 2\<rparr>" "iszero \<lparr>number = [2, 5], lp = 2, len = 2\<rparr> \<noteq> 0"
    "(2 :: int) \<le> 10"
    by (simp_all add: fx_ok_def fx_digits_def digits_ok_def iszero_def)
  have mk: "machine_ok char_cells 10" by (simp add: machine_ok_def char_cells_def)
  have w: "lea_of \<lparr>number = [1], lp = 1, len = 1\<rparr> \<lparr>number = [1, 0, 0, 0], lp = 4, len = 4\<rparr> = 1"
    "leb_of \<lparr>number = [1, 0, 0, 0], lp = 4, len = 4\<rparr> = 4"
    "lea_of \<lparr>number = [1], lp = 1, len = 1\<rparr> \<lparr>number = [2, 5], lp = 2, len = 2\<rparr> = 1"
    "leb_of \<lparr>number = [2, 5], lp = 2, len = 2\<rparr> = 2"
    by (simp_all add: lea_of_def leb_of_def rl_def rr_def lead_zeros_def fx_digits_def)
  have n: "(1 :: nat) + 2 - 2 + 1 = 2"
    "len \<lparr>number = [1], lp = 1, len = 1\<rparr> + len \<lparr>number = [2, 5], lp = 2, len = 2\<rparr> + 2 = 5"
    "len \<lparr>number = [1], lp = 1, len = 1\<rparr> + len \<lparr>number = [1, 0, 0, 0], lp = 4, len = 4\<rparr> + 1 = 6"
    by simp_all
  note early = arb_div_shape [OF h(1,2,3,6) mk, of "[]" 1, unfolded w n]
  note loop = arb_div_shape [OF h(1,4,5,6) mk, of "[]" 2, unfolded w n]
  have e: "early_out [] \<lparr>number = [1], lp = 1, len = 1\<rparr> \<lparr>number = [1, 0, 0, 0], lp = 4, len = 4\<rparr> 1 = Some 1"
    "arb_div char_cells [] \<lparr>number = [1], lp = 1, len = 1\<rparr> \<lparr>number = [1, 0, 0, 0], lp = 4, len = 4\<rparr> 10 1
        = Inr \<lparr>number = replicate 6 0, lp = 1, len = 2\<rparr>"
    using early by simp_all
  have l: "early_out [] \<lparr>number = [1], lp = 1, len = 1\<rparr> \<lparr>number = [2, 5], lp = 2, len = 2\<rparr> 2 = Some 0"
    using loop by simp
  obtain st q where q:
    "engine_state_at char_cells [] \<lparr>number = [1], lp = 1, len = 1\<rparr> \<lparr>number = [2, 5], lp = 2, len = 2\<rparr>
                 (arb_expand 5) 10 2 2 = Some (st, q)"
    "arb_div char_cells [] \<lparr>number = [1], lp = 1, len = 1\<rparr> \<lparr>number = [2, 5], lp = 2, len = 2\<rparr> 10 2
             = Inr (remove_leading_zeros q)"
    "len q = lp q + 2" "lp q = 1"
    using loop by auto
  have "len q = 3" using q(3,4) by simp
  then have x: "\<exists>st q. engine_state_at char_cells [] \<lparr>number = [1], lp = 1, len = 1\<rparr> \<lparr>number = [2, 5], lp = 2, len = 2\<rparr>
                 (arb_expand 5) 10 2 2 = Some (st, q)
         \<and> arb_div char_cells [] \<lparr>number = [1], lp = 1, len = 1\<rparr> \<lparr>number = [2, 5], lp = 2, len = 2\<rparr> 10 2
             = Inr (remove_leading_zeros q)
         \<and> len q = 3 \<and> lp q = 1"
    using q by blast
  show ?thesis unfolding w using h mk e l x by simp
qed

section \<open>Normalization\<close>



section \<open>The quotient-digit loop\<close>





section \<open>The quotient\<close>

text \<open>
  C1. For operands that satisfy the number invariant in a base \<open>b\<close> of at least 2, a divisor
  whose value is not zero, and a machine whose cells and \<^verbatim>\<open>int\<close> are wide enough for \<open>b\<close>,
  \<^verbatim>\<open>arb_div\<close> returns a quotient \<open>q\<close> with exactly \<open>s\<close> fractional digits, and \<open>q\<close> is the true
  quotient cut off after \<open>s\<close> fractional digits. The value of a number \<open>x\<close> is
  \<open>fx_int b x / b ^ rr x\<close>, so with every term multiplied by \<open>b ^ (rr N + rr D + s)\<close> the two
  inequalities read \<open>q * D \<le> N\<close> and \<open>N < (q + 1 / b ^ s) * D\<close>: the remainder \<open>N - q * D\<close> is at
  least 0 and less than one unit of the last fractional digit of \<open>q\<close>, times \<open>D\<close>. The sign is
  set by \<^verbatim>\<open>arb_setsign\<close> and is not part of this model: the statement is about magnitudes.
\<close>

theorem arb_div_truncated_quotient:
  assumes "fx_ok b N" and "fx_ok b D" and "iszero D \<noteq> 0" and "2 \<le> b"
    and "machine_ok mc b"
  shows "\<exists>q. arb_div mc junk N D b s = Inr q \<and> rr q = s
     \<and> fx_int b q = (fx_int b N * b ^ (rr D + s)) div (fx_int b D * b ^ rr N)
     \<and> fx_int b q * (fx_int b D * b ^ rr N) \<le> fx_int b N * b ^ (rr D + s)
     \<and> fx_int b N * b ^ (rr D + s) < (fx_int b q + 1) * (fx_int b D * b ^ rr N)"
  unfolding arb_div_machine [OF assms(5,1,2,3,4)]
  by (rule truncated_exact [OF assms(1-4)])

theorem arb_div_truncated_quotient_witness:
  "fx_ok 10 \<lparr>number = [2, 2], lp = 2, len = 2\<rparr> \<and> fx_ok 10 \<lparr>number = [0, 7], lp = 1, len = 2\<rparr>
   \<and> iszero \<lparr>number = [0, 7], lp = 1, len = 2\<rparr> \<noteq> 0
   \<and> machine_ok char_cells 10
   \<and> arb_div char_cells [] \<lparr>number = [2, 2], lp = 2, len = 2\<rparr> \<lparr>number = [0, 7], lp = 1, len = 2\<rparr> 10 3
       = Inr \<lparr>number = [3, 1, 4, 2, 8, 0], lp = 2, len = 5\<rparr>
   \<and> fx_int 10 \<lparr>number = [3, 1, 4, 2, 8, 0], lp = 2, len = 5\<rparr> = (22 * 10 ^ 4) div (7 * 10 ^ 0)
   \<and> 31428 * 7 \<le> (220000 :: int) \<and> (220000 :: int) < 31429 * 7"
proof -
  have e: "arb_div char_cells [] \<lparr>number = [2, 2], lp = 2, len = 2\<rparr> \<lparr>number = [0, 7], lp = 1, len = 2\<rparr> 10 3
       = Inr \<lparr>number = [3, 1, 4, 2, 8, 0], lp = 2, len = 5\<rparr>"
    by code_simp
  have h: "fx_ok 10 \<lparr>number = [2, 2], lp = 2, len = 2\<rparr>" "fx_ok 10 \<lparr>number = [0, 7], lp = 1, len = 2\<rparr>"
    "iszero \<lparr>number = [0, 7], lp = 1, len = 2\<rparr> \<noteq> 0" "(2 :: int) \<le> 10"
    by (simp_all add: fx_ok_def fx_digits_def digits_ok_def iszero_def)
  have mk: "machine_ok char_cells 10" by (simp add: machine_ok_def char_cells_def)
  show ?thesis
    using arb_div_truncated_quotient [OF h mk, of "[]" 3] e h mk
    by (simp add: rr_def fx_int_def fx_digits_def dval_def)
qed

text \<open>
  C8. Under the same conditions the quotient that \<^verbatim>\<open>arb_div\<close> returns satisfies the number
  invariant: each of its \<^verbatim>\<open>len\<close> digits is below the base, \<^verbatim>\<open>lp\<close> is at most \<^verbatim>\<open>len\<close>, the digits
  fit in the digit array, and when it has more than one integer digit the first one is not 0.
\<close>

theorem arb_div_quotient_invariant:
  assumes "fx_ok b N" and "fx_ok b D" and "iszero D \<noteq> 0" and "2 \<le> b"
    and "machine_ok mc b"
  shows "\<exists>q. arb_div mc junk N D b s = Inr q
     \<and> digits_ok b (fx_digits q) \<and> lp q \<le> len q \<and> len q \<le> length (number q)
     \<and> (lp q \<le> 1 \<or> number q ! 0 \<noteq> 0)"
  unfolding arb_div_machine [OF assms(5,1,2,3,4)]
  by (rule invariant_exact [OF assms(1-4)])

theorem arb_div_quotient_invariant_witness:
  "fx_ok 10 \<lparr>number = [1, 0, 0, 0], lp = 4, len = 4\<rparr> \<and> fx_ok 10 \<lparr>number = [5], lp = 1, len = 1\<rparr>
   \<and> iszero \<lparr>number = [5], lp = 1, len = 1\<rparr> \<noteq> 0
   \<and> machine_ok char_cells 10
   \<and> arb_div char_cells [] \<lparr>number = [1, 0, 0, 0], lp = 4, len = 4\<rparr> \<lparr>number = [5], lp = 1, len = 1\<rparr> 10 1
       = Inr \<lparr>number = [2, 0, 0, 0, 0], lp = 3, len = 4\<rparr>
   \<and> digits_ok 10 (fx_digits \<lparr>number = [2, 0, 0, 0, 0], lp = 3, len = 4\<rparr>)
   \<and> \<not> (3 :: nat) \<le> 1 \<and> [2, 0, 0, 0, 0 :: nat] ! 0 \<noteq> 0"
proof -
  have e: "arb_div char_cells [] \<lparr>number = [1, 0, 0, 0], lp = 4, len = 4\<rparr> \<lparr>number = [5], lp = 1, len = 1\<rparr> 10 1
       = Inr \<lparr>number = [2, 0, 0, 0, 0], lp = 3, len = 4\<rparr>"
    by code_simp
  have h: "fx_ok 10 \<lparr>number = [1, 0, 0, 0], lp = 4, len = 4\<rparr>" "fx_ok 10 \<lparr>number = [5], lp = 1, len = 1\<rparr>"
    "iszero \<lparr>number = [5], lp = 1, len = 1\<rparr> \<noteq> 0" "(2 :: int) \<le> 10"
    by (simp_all add: fx_ok_def fx_digits_def digits_ok_def iszero_def)
  have mk: "machine_ok char_cells 10" by (simp add: machine_ok_def char_cells_def)
  show ?thesis
    using arb_div_quotient_invariant [OF h mk, of "[]" 1] e h mk
    by simp
qed

end
